(* ===== verification/Prelude.thy ===== *)
theory Prelude
  imports Main "HOL-Library.Word"
begin

text \<open>
  What every component shares: the types of the program (machine integers, UUIDs, bytes,
  strings), the effect type of its asynchronous functions with the combinators that stand for
  \<open>?\<close>, \<open>map_err\<close> and calls on a part of the state, and generic facts on lists,
  options and strings with the theorem collections the component proofs use.
\<close>

section \<open>Types\<close>

text \<open>
  \<open>u64\<close>, \<open>usize\<close> (on the 64-bit targets the services are built for) and \<open>i64\<close>
  are 64-bit words; \<open>i64\<close> values are read with \<^const>\<open>sint\<close>. A \<open>Uuid\<close> is its
  128 bits. A Rust \<open>String\<close> is the list of its UTF-8 bytes, as HOL characters.
\<close>

type_synonym u8 = "8 word"
type_synonym u64 = "64 word"
type_synonym usize = "64 word"
type_synonym i64 = "64 word"
type_synonym uuid = "128 word"
type_synonym bytes = "u8 list"
type_synonym timestamp = nat

section \<open>Fallible and stateful computations\<close>

text \<open>
  \<open>Result<T, E>\<close> is the sum \<open>'e + 'a\<close> with the error on the left. An \<open>async fn\<close>
  that returns a \<open>Result\<close> and touches shared state is a function of type
  \<open>('s, 'e, 'a) io\<close>: it returns the state it leaves behind also when it fails, since
  the effects made before an early return stay.
\<close>

type_synonym ('s, 'e, 'a) io = "'s \<Rightarrow> 's \<times> ('e + 'a)"

named_theorems io_defs \<open>unfolding rules of the effect combinators\<close>

definition ret :: "'a \<Rightarrow> ('s, 'e, 'a) io" where
  "ret a s = (s, Inr a)"

definition throw :: "'e \<Rightarrow> ('s, 'e, 'a) io" where
  "throw e s = (s, Inl e)"

text \<open>\<open>io_bind m f\<close> is \<open>let x = m.await?; f(x)\<close>.\<close>

definition io_bind :: "('s, 'e, 'a) io \<Rightarrow> ('a \<Rightarrow> ('s, 'e, 'b) io) \<Rightarrow> ('s, 'e, 'b) io" where
  "io_bind m f s = (case m s of (s', Inl e) \<Rightarrow> (s', Inl e) | (s', Inr a) \<Rightarrow> f a s')"

text \<open>\<open>io_try m\<close> keeps the outcome of \<open>m\<close> as a value, for code that matches on it.\<close>

definition io_try :: "('s, 'e, 'a) io \<Rightarrow> ('s, 'f, 'e + 'a) io" where
  "io_try m s = (case m s of (s', r) \<Rightarrow> (s', Inr r))"

definition io_map_err :: "('e \<Rightarrow> 'f) \<Rightarrow> ('s, 'e, 'a) io \<Rightarrow> ('s, 'f, 'a) io" where
  "io_map_err h m s = (case m s of (s', r) \<Rightarrow> (s', map_sum h id r))"

definition io_lift :: "('e + 'a) \<Rightarrow> ('s, 'e, 'a) io" where
  "io_lift r s = (s, r)"

definition io_modify :: "('s \<Rightarrow> 's) \<Rightarrow> ('s, 'e, unit) io" where
  "io_modify f s = (f s, Inr ())"

definition io_gets :: "('s \<Rightarrow> 'a) \<Rightarrow> ('s, 'e, 'a) io" where
  "io_gets f s = (s, Inr (f s))"

text \<open>\<open>zoom get put m\<close> runs \<open>m\<close> on the part of the state that \<open>get\<close> reads.\<close>

definition zoom :: "('w \<Rightarrow> 's) \<Rightarrow> ('s \<Rightarrow> 'w \<Rightarrow> 'w) \<Rightarrow> ('s, 'e, 'a) io \<Rightarrow> ('w, 'e, 'a) io" where
  "zoom get put m w = (case m (get w) of (s', r) \<Rightarrow> (put s' w, r))"

declare ret_def [io_defs] throw_def [io_defs] io_bind_def [io_defs] io_try_def [io_defs]
  io_map_err_def [io_defs] io_lift_def [io_defs] io_modify_def [io_defs] io_gets_def [io_defs]
  zoom_def [io_defs]

text \<open>The pure counterparts, for functions that return a \<open>Result\<close> and touch no state.\<close>

definition res_bind :: "('e + 'a) \<Rightarrow> ('a \<Rightarrow> 'e + 'b) \<Rightarrow> 'e + 'b" where
  "res_bind r f = (case r of Inl e \<Rightarrow> Inl e | Inr a \<Rightarrow> f a)"

definition ok_or :: "'e \<Rightarrow> 'a option \<Rightarrow> 'e + 'a" where
  "ok_or e v = (case v of None \<Rightarrow> Inl e | Some a \<Rightarrow> Inr a)"

text \<open>\<open>unwrap_or_else\<close> and \<open>unwrap_or_default\<close>.\<close>

definition unwrap_or :: "'a \<Rightarrow> 'a option \<Rightarrow> 'a" where
  "unwrap_or d v = (case v of None \<Rightarrow> d | Some x \<Rightarrow> x)"

lemma unwrap_or_simps [simp]: "unwrap_or d None = d" "unwrap_or d (Some x) = x"
  by (simp_all add: unwrap_or_def)

lemma res_bind_simps [simp]:
  "res_bind (Inl e) f = Inl e"
  "res_bind (Inr a) f = f a"
  by (simp_all add: res_bind_def)

lemma ok_or_simps [simp]:
  "ok_or e None = Inl e"
  "ok_or e (Some a) = Inr a"
  by (simp_all add: ok_or_def)

lemma res_bind_eq_Inr: "res_bind r f = Inr b \<longleftrightarrow> (\<exists>a. r = Inr a \<and> f a = Inr b)"
  by (cases r) auto

lemma ok_or_eq_Inr: "ok_or e v = Inr a \<longleftrightarrow> v = Some a"
  by (cases v) auto

lemma map_sum_eq_Inl: "map_sum h id r = Inl e \<longleftrightarrow> (\<exists>x. r = Inl x \<and> e = h x)"
  by (cases r) auto

lemma map_sum_eq_Inr: "map_sum h id r = Inr a \<longleftrightarrow> r = Inr a"
  by (cases r) auto

lemma io_bind_Inr: "m s = (s', Inr a) \<Longrightarrow> io_bind m f s = f a s'"
  by (simp add: io_bind_def)

lemma io_bind_Inl: "m s = (s', Inl e) \<Longrightarrow> io_bind m f s = (s', Inl e)"
  by (simp add: io_bind_def)

lemma io_bind_assoc: "io_bind (io_bind m f) g = io_bind m (\<lambda>a. io_bind (f a) g)"
  by (rule ext) (auto simp: io_bind_def split: prod.splits sum.splits)

lemma io_bind_ret [simp]: "io_bind (ret a) f = f a"
  by (rule ext) (simp add: io_bind_def ret_def)

text \<open>
  A relation between the state before and after that a computation conforms whatever its
  outcome. For a reflexive and transitive relation the rules follow the combinators, so that a
  handler conforms what each of its calls conforms; the locale states them once.
\<close>

definition conforms :: "('s \<Rightarrow> 's \<Rightarrow> bool) \<Rightarrow> ('s, 'e, 'a) io \<Rightarrow> bool" where
  "conforms R m \<longleftrightarrow> (\<forall>s. R s (fst (m s)))"

lemma conformsI: "(\<And>s. R s (fst (m s))) \<Longrightarrow> conforms R m"
  by (simp add: conforms_def)

lemma conformsD: "conforms R m \<Longrightarrow> R s (fst (m s))"
  by (simp add: conforms_def)

lemma conforms_run: "conforms R m \<Longrightarrow> m s = (s', r) \<Longrightarrow> R s s'"
  using conformsD [of R m s] by simp

lemma conforms_zoom:
  assumes "\<And>w. R w (put (fst (m (get w))) w)"
  shows "conforms R (zoom get put m)"
  using assms by (simp add: conforms_def zoom_def case_prod_beta)

locale effect_preorder =
  fixes R :: "'s \<Rightarrow> 's \<Rightarrow> bool"
  assumes R_refl: "R s s"
    and R_trans: "R s t \<Longrightarrow> R t u \<Longrightarrow> R s u"
begin

lemma conforms_ret: "conforms R (ret a)"
  by (simp add: conforms_def ret_def R_refl)

lemma conforms_throw: "conforms R (throw e)"
  by (simp add: conforms_def throw_def R_refl)

lemma conforms_lift: "conforms R (io_lift r)"
  by (simp add: conforms_def io_lift_def R_refl)

lemma conforms_gets: "conforms R (io_gets f)"
  by (simp add: conforms_def io_gets_def R_refl)

lemma conforms_modify: "(\<And>s. R s (f s)) \<Longrightarrow> conforms R (io_modify f)"
  by (simp add: conforms_def io_modify_def)

lemma conforms_bind:
  assumes "conforms R m" and "\<And>a. conforms R (f a)"
  shows "conforms R (io_bind m f)"
proof (rule conformsI)
  fix s
  obtain s' r where m: "m s = (s', r)" by (cases "m s")
  with assms(1) have 1: "R s s'" by (rule conforms_run)
  show "R s (fst (io_bind m f s))"
  proof (cases r)
    case (Inl e)
    with m 1 show ?thesis by (simp add: io_bind_def)
  next
    case (Inr a)
    from assms(2) have "R s' (fst (f a s'))" by (rule conformsD)
    with 1 have "R s (fst (f a s'))" by (rule R_trans)
    with m Inr show ?thesis by (simp add: io_bind_def)
  qed
qed

lemma conforms_try: "conforms R m \<Longrightarrow> conforms R (io_try m)"
  by (simp add: conforms_def io_try_def case_prod_beta)

lemma conforms_map_err: "conforms R m \<Longrightarrow> conforms R (io_map_err h m)"
  by (simp add: conforms_def io_map_err_def case_prod_beta)

lemma conforms_if: "conforms R m \<Longrightarrow> conforms R m' \<Longrightarrow> conforms R (if b then m else m')"
  by simp

lemma conforms_case_sum:
  "(\<And>e. conforms R (f e)) \<Longrightarrow> (\<And>a. conforms R (g a)) \<Longrightarrow> conforms R (case r of Inl e \<Rightarrow> f e | Inr a \<Rightarrow> g a)"
  by (cases r) simp_all

lemma conforms_case_option:
  "conforms R f \<Longrightarrow> (\<And>a. conforms R (g a)) \<Longrightarrow> conforms R (case x of None \<Rightarrow> f | Some a \<Rightarrow> g a)"
  by (cases x) simp_all

lemmas conforms_combinators =
  conforms_ret conforms_throw conforms_lift conforms_gets conforms_bind conforms_try
  conforms_map_err conforms_if conforms_case_sum conforms_case_option

end

text \<open>A relation on the part of the state that \<open>get\<close> reads, as a relation on states.\<close>

abbreviation (input) via :: "('s \<Rightarrow> 'a) \<Rightarrow> ('a \<Rightarrow> 'a \<Rightarrow> bool) \<Rightarrow> 's \<Rightarrow> 's \<Rightarrow> bool" where
  "via get Q \<equiv> \<lambda>s s'. Q (get s) (get s')"

section \<open>Integers\<close>

text \<open>
  \<open>AtomicU64::fetch_add(1)\<close> and \<open>fetch_sub(1)\<close> wrap around; addition on \<open>usize\<close> in
  a release build wraps as well.
\<close>

definition fetch_add1 :: "u64 \<Rightarrow> u64" where
  "fetch_add1 c = c + 1"

definition fetch_sub1 :: "u64 \<Rightarrow> u64" where
  "fetch_sub1 c = c - 1"

lemma fetch_sub1_add1 [simp]: "fetch_sub1 (fetch_add1 c) = c"
  by (simp add: fetch_add1_def fetch_sub1_def)

lemma fetch_add1_sub1 [simp]: "fetch_add1 (fetch_sub1 c) = c"
  by (simp add: fetch_add1_def fetch_sub1_def)

section \<open>Strings\<close>

text \<open>
  \<open>split_on c s\<close> is \<open>s.split(c)\<close>: the pieces between the separators, never empty as a
  list. \<open>splitn2 c s\<close> is \<open>s.splitn(2, c)\<close>: the text before the first separator and
  the rest, if there is one.
\<close>

fun split_on :: "char \<Rightarrow> string \<Rightarrow> string list" where
  "split_on c [] = [[]]"
| "split_on c (x # xs) =
     (if x = c then [] # split_on c xs
      else case split_on c xs of [] \<Rightarrow> [[x]] | p # ps \<Rightarrow> (x # p) # ps)"

fun splitn2 :: "char \<Rightarrow> string \<Rightarrow> string \<times> string option" where
  "splitn2 c [] = ([], None)"
| "splitn2 c (x # xs) =
     (if x = c then ([], Some xs)
      else case splitn2 c xs of (p, r) \<Rightarrow> (x # p, r))"

lemma split_on_not_Nil [simp]: "split_on c s \<noteq> []"
  by (induction s) (auto split: list.splits)

lemma split_on_no_sep: "c \<notin> set s \<Longrightarrow> split_on c s = [s]"
  by (induction s) auto

lemma split_on_append_sep: "c \<notin> set s \<Longrightarrow> split_on c (s @ c # t) = s # split_on c t"
  by (induction s) auto

lemma split_on_pieces: "p \<in> set (split_on c s) \<Longrightarrow> c \<notin> set p"
proof (induction s arbitrary: p)
  case Nil
  then show ?case by simp
next
  case (Cons x xs)
  show ?case
  proof (cases "split_on c xs")
    case Nil
    then show ?thesis by simp
  next
    case (Cons q qs)
    with Cons.prems Cons.IH show ?thesis by (auto split: if_splits)
  qed
qed

lemma splitn2_append: "c \<notin> set s \<Longrightarrow> splitn2 c (s @ c # t) = (s, Some t)"
  by (induction s) auto

lemma splitn2_no_sep: "c \<notin> set s \<Longrightarrow> splitn2 c s = (s, None)"
  by (induction s) auto

lemma splitn2_Some: "splitn2 c s = (p, Some r) \<Longrightarrow> s = p @ c # r \<and> c \<notin> set p"
  by (induction s arbitrary: p) (auto split: if_splits prod.splits)

text \<open>
  Two texts cut at the first occurrence of a separator: where neither head contains it, the
  whole determines the parts. The key and channel formats of both services rest on this.
\<close>

lemma cut_unique:
  fixes c :: char
  assumes "a @ c # x = b @ c # y" and "c \<notin> set a" and "c \<notin> set b"
  shows "a = b \<and> x = y"
proof -
  have "(a, Some x) = splitn2 c (a @ c # x)" using assms(2) by (simp add: splitn2_append)
  also have "\<dots> = splitn2 c (b @ c # y)" by (simp only: assms(1))
  also have "\<dots> = (b, Some y)" using assms(3) by (simp add: splitn2_append)
  finally show ?thesis by simp
qed

text \<open>ASCII case folding: \<open>to_lowercase\<close> on ASCII text and \<open>eq_ignore_ascii_case\<close>.\<close>

definition ascii_lower :: "char \<Rightarrow> char" where
  "ascii_lower c = (if 65 \<le> (of_char c :: nat) \<and> (of_char c :: nat) \<le> 90
                    then char_of ((of_char c :: nat) + 32) else c)"

definition to_lower :: "string \<Rightarrow> string" where
  "to_lower s = map ascii_lower s"

definition eq_ignore_ascii_case :: "string \<Rightarrow> string \<Rightarrow> bool" where
  "eq_ignore_ascii_case a b \<longleftrightarrow> to_lower a = to_lower b"

text \<open>\<open>as_bytes\<close>: the bytes of a string.\<close>

definition as_bytes :: "string \<Rightarrow> bytes" where
  "as_bytes s = map (\<lambda>c. of_char c) s"

lemma length_as_bytes [simp]: "length (as_bytes s) = length s"
  by (simp add: as_bytes_def)

section \<open>Lists\<close>

text \<open>
  \<open>grows R xs ys\<close>: the elements of \<open>xs\<close> are still there, in order and each advanced by
  \<open>R\<close>, and new elements may follow them.
\<close>

definition grows :: "('a \<Rightarrow> 'a \<Rightarrow> bool) \<Rightarrow> 'a list \<Rightarrow> 'a list \<Rightarrow> bool" where
  "grows R xs ys \<longleftrightarrow> (\<exists>zs ws. ys = zs @ ws \<and> list_all2 R xs zs)"

lemma grows_refl: "(\<And>x. R x x) \<Longrightarrow> grows R xs xs"
  unfolding grows_def by (rule exI [of _ xs], rule exI [of _ "[]"]) (simp add: list_all2_refl)

lemma grows_trans:
  assumes R: "\<And>x y z. R x y \<Longrightarrow> R y z \<Longrightarrow> R x z" and "grows R xs ys" and "grows R ys zs"
  shows "grows R xs zs"
proof -
  from assms(2) obtain y1 y2 where y: "ys = y1 @ y2" "list_all2 R xs y1" by (auto simp: grows_def)
  from assms(3) obtain z1 z2 where z: "zs = z1 @ z2" "list_all2 R ys z1" by (auto simp: grows_def)
  from z(2) y(1) obtain u v where u: "z1 = u @ v" "list_all2 R y1 u" by (auto simp: list_all2_append1)
  from R y(2) u(2) have "list_all2 R xs u" by (rule list_all2_trans)
  with u(1) z(1) show ?thesis by (auto simp: grows_def)
qed

lemma grows_append: "(\<And>x. R x x) \<Longrightarrow> grows R xs (xs @ ys)"
  unfolding grows_def by (rule exI [of _ xs], rule exI [of _ ys]) (simp add: list_all2_refl)

lemma grows_map: "(\<And>x. R x (f x)) \<Longrightarrow> grows R xs (map f xs)"
  unfolding grows_def
  by (rule exI [of _ "map f xs"], rule exI [of _ "[]"]) (simp add: list_all2_map2 list_all2_same)

lemma grows_in:
  assumes "grows R xs ys" and "x \<in> set xs"
  obtains y where "y \<in> set ys" and "R x y"
proof -
  from assms(1) obtain zs ws where ys: "ys = zs @ ws" "list_all2 R xs zs" by (auto simp: grows_def)
  from assms(2) obtain i where i: "i < length xs" "xs ! i = x" by (auto simp: in_set_conv_nth)
  with ys(2) have "R x (zs ! i)" and "zs ! i \<in> set zs"
    by (auto simp: list_all2_conv_all_nth)
  with that ys(1) show ?thesis by auto
qed

lemma distinct_map_update:
  "(\<And>x. k (f x) = k x) \<Longrightarrow> map k (map f xs) = map k xs"
  by simp

lemma map_if_ident: "(\<And>x. x \<in> set xs \<Longrightarrow> \<not> P x) \<Longrightarrow> map (\<lambda>x. if P x then f x else x) xs = xs"
  by (induction xs) auto

lemma between_insert: "A \<subseteq> B \<and> B \<subseteq> insert k A \<Longrightarrow> k \<in> A \<Longrightarrow> B = A"
  by auto

lemma find_map_key:
  assumes "\<And>x. k (f x) = k x"
  shows "find (\<lambda>x. k x = a) (map f xs) = map_option f (find (\<lambda>x. k x = a) xs)"
  by (induction xs) (auto simp: assms)

lemma find_append: "find P (xs @ ys) = (case find P xs of None \<Rightarrow> find P ys | Some x \<Rightarrow> Some x)"
  by (induction xs) auto

lemma find_None_key: "find (\<lambda>x. k x = a) xs = None \<longleftrightarrow> a \<notin> k ` set xs"
  by (induction xs) auto

lemma find_SomeD: "find P xs = Some x \<Longrightarrow> x \<in> set xs \<and> P x"
  by (induction xs) (auto split: if_splits)

lemma find_distinct_key:
  "distinct (map k xs) \<Longrightarrow> x \<in> set xs \<Longrightarrow> find (\<lambda>y. k y = k x) xs = Some x"
  by (induction xs) (auto simp: image_iff)

end
