(* ===== verification/Domain.thy ===== *)
theory Domain
  imports Prelude
begin

text \<open>
  The domain types of the payment service (\<open>approach-1/crates/domain/src/models.rs\<close>): the
  status and method enumerations with the spellings that the database and the JSON use, the
  webhook event, and the order in which a status may advance.
\<close>

section \<open>Enumerations\<close>

datatype order_status = OrderPending | OrderPaid | OrderFailed

datatype payment_status = PaymentPending | PaymentSuccess | PaymentFailed

datatype payment_method = Upi | Card

text \<open>
  The wire spellings: \<open>SCREAMING_SNAKE_CASE\<close> for the statuses, \<open>UPPERCASE\<close> for the
  methods. The statements of the repository use the same words.
\<close>

fun order_status_str :: "order_status \<Rightarrow> string" where
  "order_status_str OrderPending = ''PENDING''"
| "order_status_str OrderPaid = ''PAID''"
| "order_status_str OrderFailed = ''FAILED''"

fun payment_status_str :: "payment_status \<Rightarrow> string" where
  "payment_status_str PaymentPending = ''PENDING''"
| "payment_status_str PaymentSuccess = ''SUCCESS''"
| "payment_status_str PaymentFailed = ''FAILED''"

fun payment_method_str :: "payment_method \<Rightarrow> string" where
  "payment_method_str Upi = ''UPI''"
| "payment_method_str Card = ''CARD''"

definition payment_status_of :: "string \<Rightarrow> payment_status option" where
  "payment_status_of s =
     (if s = ''PENDING'' then Some PaymentPending
      else if s = ''SUCCESS'' then Some PaymentSuccess
      else if s = ''FAILED'' then Some PaymentFailed
      else None)"

definition order_status_of :: "string \<Rightarrow> order_status option" where
  "order_status_of s =
     (if s = ''PENDING'' then Some OrderPending
      else if s = ''PAID'' then Some OrderPaid
      else if s = ''FAILED'' then Some OrderFailed
      else None)"

definition payment_method_of :: "string \<Rightarrow> payment_method option" where
  "payment_method_of s =
     (if s = ''UPI'' then Some Upi else if s = ''CARD'' then Some Card else None)"

lemma payment_status_roundtrip [simp]: "payment_status_of (payment_status_str x) = Some x"
  by (cases x) (simp_all add: payment_status_of_def)

lemma order_status_roundtrip [simp]: "order_status_of (order_status_str x) = Some x"
  by (cases x) (simp_all add: order_status_of_def)

lemma payment_method_roundtrip [simp]: "payment_method_of (payment_method_str x) = Some x"
  by (cases x) (simp_all add: payment_method_of_def)

section \<open>The webhook event\<close>

record webhook_event =
  ev_event_id :: string
  ev_gateway :: string
  ev_order_id :: uuid
  ev_payment_id :: uuid
  ev_gateway_txn_id :: string
  ev_status :: payment_status
  ev_amount :: i64
  ev_signature :: string
  ev_occurred_at :: timestamp

text \<open>
  The structures \<open>Order\<close> and \<open>Payment\<close>, which the services do not construct (their rows are in
  \<open>Database\<close>), and the one error of the domain, with its message.
\<close>

record domain_order =
  do_id :: uuid
  do_user_id :: string
  do_amount :: i64
  do_currency :: string
  do_status :: order_status
  do_created_at :: timestamp

record domain_payment =
  dp_id :: uuid
  dp_order_id :: uuid
  dp_gateway :: string
  dp_method :: payment_method
  dp_checkout_url :: string
  dp_status :: payment_status
  dp_created_at :: timestamp

datatype domain_error = InvalidStateTransition

fun domain_error_text :: "domain_error \<Rightarrow> string" where
  "domain_error_text InvalidStateTransition = ''invalid state transition''"

text \<open>
  \<open>serde_json\<close> writes and reads the event. It is a parameter of the model: a pair of
  functions, each of which may fail.
\<close>

record event_codec =
  ec_to_string :: "webhook_event \<Rightarrow> string + string"
  ec_from_str :: "string \<Rightarrow> string + webhook_event"

section \<open>Advancing statuses\<close>

text \<open>
  The code only ever writes \<open>PENDING\<close> on insertion and then \<open>SUCCESS\<close> or
  \<open>PAID\<close>. The order below is the one in which a status may advance: from pending to a final
  one. It makes each enumeration a partial order with least element pending.
\<close>

instantiation payment_status :: order
begin

definition less_eq_payment_status :: "payment_status \<Rightarrow> payment_status \<Rightarrow> bool" where
  "less_eq_payment_status a b \<longleftrightarrow> a = b \<or> a = PaymentPending"

definition less_payment_status :: "payment_status \<Rightarrow> payment_status \<Rightarrow> bool" where
  "less_payment_status a b \<longleftrightarrow> a \<noteq> b \<and> a = PaymentPending"

instance
  by standard (auto simp: less_eq_payment_status_def less_payment_status_def)

end

instantiation order_status :: order
begin

definition less_eq_order_status :: "order_status \<Rightarrow> order_status \<Rightarrow> bool" where
  "less_eq_order_status a b \<longleftrightarrow> a = b \<or> a = OrderPending"

definition less_order_status :: "order_status \<Rightarrow> order_status \<Rightarrow> bool" where
  "less_order_status a b \<longleftrightarrow> a \<noteq> b \<and> a = OrderPending"

instance
  by standard (auto simp: less_eq_order_status_def less_order_status_def)

end

lemma payment_pending_least [simp]: "PaymentPending \<le> x"
  by (simp add: less_eq_payment_status_def)

lemma payment_success_final: "PaymentSuccess \<le> x \<Longrightarrow> x = PaymentSuccess"
  by (simp add: less_eq_payment_status_def)

lemma order_pending_least [simp]: "OrderPending \<le> x"
  by (simp add: less_eq_order_status_def)

lemma order_paid_final: "OrderPaid \<le> x \<Longrightarrow> x = OrderPaid"
  by (simp add: less_eq_order_status_def)

end
