(* ===== verification/Gateway.thy ===== *)
theory Gateway
  imports Domain
begin

text \<open>
  Payment gateways and the smart router (\<open>approach-1/crates/adapters/src/gateway.rs\<close>): the
  \<open>PaymentGateway\<close> trait as a record of methods with its contract as a locale, the mock
  gateway that implements it, and the router that tries the gateways in order.
\<close>

section \<open>The trait\<close>

record checkout_session =
  cs_gateway :: string
  cs_checkout_url :: string
  cs_expires_at :: timestamp

text \<open>
  \<open>Box<dyn PaymentGateway>\<close>: the methods of one gateway. An \<open>anyhow\<close> error is its text.
  \<open>create_checkout\<close> reads the clock, so it takes the current time (in microseconds).
\<close>

record gateway =
  gw_name :: string
  gw_create_checkout :: "timestamp \<Rightarrow> uuid \<Rightarrow> uuid \<Rightarrow> payment_method \<Rightarrow> string + checkout_session"
  gw_verify_webhook_signature :: "webhook_event \<Rightarrow> string \<Rightarrow> bool"
  gw_fetch_payment_status :: "uuid \<Rightarrow> string + payment_status"

text \<open>What the router and the API rely on: a session carries its gateway's name and is not
  expired when it is made.\<close>

locale payment_gateway =
  fixes name :: string
    and create_checkout :: "timestamp \<Rightarrow> uuid \<Rightarrow> uuid \<Rightarrow> payment_method \<Rightarrow> string + checkout_session"
  assumes session_gateway: "create_checkout now oid pid m = Inr c \<Longrightarrow> cs_gateway c = name"
    and session_fresh: "create_checkout now oid pid m = Inr c \<Longrightarrow> now < cs_expires_at c"

section \<open>The mock gateway\<close>

record mock_gateway =
  mg_gateway_name :: string
  mg_should_fail :: bool

definition minutes :: "nat \<Rightarrow> nat" where
  "minutes n = n * 60 * 1000000"

definition mock_create_checkout ::
  "(uuid \<Rightarrow> string) \<Rightarrow> mock_gateway \<Rightarrow> timestamp \<Rightarrow> uuid \<Rightarrow> uuid \<Rightarrow> payment_method \<Rightarrow>
     string + checkout_session" where
  "mock_create_checkout show_uuid g now order_id payment_id meth =
     (if mg_should_fail g then Inl (mg_gateway_name g @ '' unavailable'')
      else Inr \<lparr>cs_gateway = mg_gateway_name g,
        cs_checkout_url = ''https://mock-'' @ to_lower (mg_gateway_name g) @
          ''.example/checkout?order_id='' @ show_uuid order_id @
          ''&payment_id='' @ show_uuid payment_id,
        cs_expires_at = now + minutes 15\<rparr>)"

definition mock_verify_webhook_signature :: "mock_gateway \<Rightarrow> webhook_event \<Rightarrow> string \<Rightarrow> bool" where
  "mock_verify_webhook_signature g event secret \<longleftrightarrow>
     ev_signature event = mg_gateway_name g @ '':'' @ secret"

definition mock_fetch_payment_status :: "mock_gateway \<Rightarrow> uuid \<Rightarrow> string + payment_status" where
  "mock_fetch_payment_status g payment_id = Inr PaymentSuccess"

definition mock_object :: "(uuid \<Rightarrow> string) \<Rightarrow> mock_gateway \<Rightarrow> gateway" where
  "mock_object show_uuid g =
     \<lparr>gw_name = mg_gateway_name g,
      gw_create_checkout = mock_create_checkout show_uuid g,
      gw_verify_webhook_signature = mock_verify_webhook_signature g,
      gw_fetch_payment_status = mock_fetch_payment_status g\<rparr>"

interpretation mock: payment_gateway "mg_gateway_name g" "mock_create_checkout show_uuid g"
  for show_uuid g
  by unfold_locales (auto simp: mock_create_checkout_def minutes_def split: if_splits)

lemma mock_object_simps [simp]:
  "gw_name (mock_object show_uuid g) = mg_gateway_name g"
  "gw_create_checkout (mock_object show_uuid g) = mock_create_checkout show_uuid g"
  "gw_verify_webhook_signature (mock_object show_uuid g) = mock_verify_webhook_signature g"
  by (simp_all add: mock_object_def)

lemma mock_healthy [simp]:
  "\<not> mg_should_fail g \<Longrightarrow> \<exists>c. mock_create_checkout show_uuid g now oid pid m = Inr c"
  by (simp add: mock_create_checkout_def)

section \<open>The smart router\<close>

text \<open>The loop of \<open>pick_checkout\<close>, with \<open>last_error\<close> as its accumulator.\<close>

fun pick_loop ::
  "gateway list \<Rightarrow> timestamp \<Rightarrow> uuid \<Rightarrow> uuid \<Rightarrow> payment_method \<Rightarrow> string option \<Rightarrow>
     string + checkout_session" where
  "pick_loop [] now order_id payment_id meth last_error =
     Inl (case last_error of None \<Rightarrow> ''no gateway configured'' | Some e \<Rightarrow> e)"
| "pick_loop (g # gs) now order_id payment_id meth last_error =
     (case gw_create_checkout g now order_id payment_id meth of
        Inr session \<Rightarrow> Inr session
      | Inl err \<Rightarrow> pick_loop gs now order_id payment_id meth
          (Some (gw_name g @ '' failed: '' @ err)))"

definition pick_checkout ::
  "gateway list \<Rightarrow> timestamp \<Rightarrow> uuid \<Rightarrow> uuid \<Rightarrow> payment_method \<Rightarrow> string + checkout_session" where
  "pick_checkout gateways now order_id payment_id meth =
     pick_loop gateways now order_id payment_id meth None"

text \<open>
  Reference: the answer of the first gateway that answers; if none does, the failure of the
  last one.
\<close>

definition gateway_fails :: "timestamp \<Rightarrow> uuid \<Rightarrow> uuid \<Rightarrow> payment_method \<Rightarrow> gateway \<Rightarrow> bool" where
  "gateway_fails now oid pid m g \<longleftrightarrow> (case gw_create_checkout g now oid pid m of Inl _ \<Rightarrow> True | Inr _ \<Rightarrow> False)"

definition failure_text :: "timestamp \<Rightarrow> uuid \<Rightarrow> uuid \<Rightarrow> payment_method \<Rightarrow> gateway \<Rightarrow> string" where
  "failure_text now oid pid m g =
     (case gw_create_checkout g now oid pid m of Inl e \<Rightarrow> gw_name g @ '' failed: '' @ e | Inr _ \<Rightarrow> [])"

lemma pick_loop_first:
  "list_all (gateway_fails now oid pid m) pre \<Longrightarrow> gw_create_checkout g now oid pid m = Inr c \<Longrightarrow>
     pick_loop (pre @ g # post) now oid pid m l = Inr c"
  by (induction pre arbitrary: l) (auto simp: gateway_fails_def split: sum.splits)

lemma pick_loop_none:
  "list_all (gateway_fails now oid pid m) gs \<Longrightarrow>
     pick_loop gs now oid pid m l =
       Inl (case gs of [] \<Rightarrow> (case l of None \<Rightarrow> ''no gateway configured'' | Some e \<Rightarrow> e)
            | _ \<Rightarrow> failure_text now oid pid m (last gs))"
  by (induction gs arbitrary: l)
    (auto simp: gateway_fails_def failure_text_def split: sum.splits list.splits)

lemma split_first_answer:
  "list_all (gateway_fails now oid pid m) gs \<or>
   (\<exists>pre g post c. gs = pre @ g # post \<and> list_all (gateway_fails now oid pid m) pre \<and>
      gw_create_checkout g now oid pid m = Inr c)"
proof (induction gs)
  case Nil
  then show ?case by simp
next
  case (Cons g gs)
  show ?case
  proof (cases "gw_create_checkout g now oid pid m")
    case (Inr c)
    then show ?thesis by (intro disjI2 exI [of _ "[]"]) auto
  next
    case (Inl e)
    then have "gateway_fails now oid pid m g" by (simp add: gateway_fails_def)
    with Cons.IH show ?thesis
      by (elim disjE exE) (simp, metis append_Cons list.pred_inject(2))
  qed
qed

lemma pick_checkout_Inr:
  "pick_checkout gs now oid pid m = Inr c \<longleftrightarrow>
     (\<exists>pre g post. gs = pre @ g # post \<and> list_all (gateway_fails now oid pid m) pre \<and>
        gw_create_checkout g now oid pid m = Inr c)"
  (is "?l \<longleftrightarrow> ?r")
proof
  assume ?l
  then have "\<not> list_all (gateway_fails now oid pid m) gs"
    by (auto simp: pick_checkout_def pick_loop_none)
  then obtain pre g post c' where f: "gs = pre @ g # post" "list_all (gateway_fails now oid pid m) pre"
      "gw_create_checkout g now oid pid m = Inr c'"
    using split_first_answer [of now oid pid m gs] by blast
  with \<open>?l\<close> have "c' = c" by (simp add: pick_checkout_def pick_loop_first)
  with f show ?r by blast
next
  assume ?r
  then show ?l by (auto simp: pick_checkout_def pick_loop_first)
qed

text \<open>The contract of the trait carries over to the router.\<close>

locale router =
  fixes gateways :: "gateway list"
  assumes lawful: "g \<in> set gateways \<Longrightarrow> payment_gateway (gw_name g) (gw_create_checkout g)"
begin

lemma session_names_gateway:
  assumes "pick_checkout gateways now oid pid m = Inr c"
  shows "cs_gateway c \<in> gw_name ` set gateways \<and> now < cs_expires_at c"
proof -
  from assms obtain pre g post where "gateways = pre @ g # post"
    and c: "gw_create_checkout g now oid pid m = Inr c"
    unfolding pick_checkout_Inr by blast
  then have g: "g \<in> set gateways" by simp
  from lawful [OF g] c have "cs_gateway c = gw_name g" and "now < cs_expires_at c"
    by (simp_all add: payment_gateway.session_gateway payment_gateway.session_fresh)
  with g show ?thesis by auto
qed

end

text \<open>A router over mock gateways, as the API builds it, satisfies it.\<close>

interpretation mock_router: router "map (mock_object show_uuid) gs" for show_uuid gs
  by unfold_locales (auto dest: mock.session_gateway mock.session_fresh)

text \<open>
  C20: \<open>SmartRouter::pick_checkout\<close> returns a session exactly when some gateway answers, and
  then the session of the first one in the configured order; otherwise it returns the failure
  of the last gateway tried, or "no gateway configured" for an empty list.
\<close>

theorem pick_checkout_first_answer:
  "pick_checkout gs now oid pid m =
     (case filter (\<lambda>g. \<not> gateway_fails now oid pid m g) gs of
        g # _ \<Rightarrow> gw_create_checkout g now oid pid m
      | [] \<Rightarrow> Inl (if gs = [] then ''no gateway configured''
                  else failure_text now oid pid m (last gs)))"
proof -
  consider (none) "list_all (gateway_fails now oid pid m) gs"
    | (first) pre g post c where "gs = pre @ g # post" "list_all (gateway_fails now oid pid m) pre"
        "gw_create_checkout g now oid pid m = Inr c"
    using split_first_answer [of now oid pid m gs] by blast
  then show ?thesis
  proof cases
    case none
    then have "filter (\<lambda>g. \<not> gateway_fails now oid pid m g) gs = []"
      by (simp add: filter_empty_conv list_all_iff)
    with none show ?thesis by (simp add: pick_checkout_def pick_loop_none split: list.splits)
  next
    case first
    then have "filter (\<lambda>g. \<not> gateway_fails now oid pid m g) pre = []"
      and "\<not> gateway_fails now oid pid m g"
      by (simp_all add: filter_empty_conv list_all_iff gateway_fails_def)
    with first show ?thesis by (simp add: pick_checkout_def pick_loop_first)
  qed
qed

end
