(* ===== verification/Database.thy ===== *)
theory Database
  imports Domain
begin

text \<open>
  The payment service's database: the four tables of
  \<open>approach-1/migrations/0001_init.sql\<close> with their constraints, and how a statement and a
  transaction run on them. Every round trip to the server may fail, so the state carries the
  outcomes that the coming round trips have; the theorems hold for every such schedule.
\<close>

section \<open>Types\<close>

text \<open>
  The types of the columns, and of the parameters as \<open>sqlx\<close> binds them: a \<open>String\<close> is bound as
  \<open>text\<close>. A value of type \<open>jsonb\<close> is known by the text it was made from.
\<close>

datatype pg_type = PgUuid | PgText | PgBigint | PgJsonb

datatype jsonb = Jsonb string

text \<open>
  PostgreSQL stores an expression in a column if it has the column's type, or if the database has
  an assignment cast to it, and rejects the statement otherwise. Whether there is an assignment cast
  from \<open>text\<close> to \<open>jsonb\<close>, and what it does, is a property of the database: none is built in (a
  cast from a string type is explicit only), and the migrations create none, so for the program's own
  database it is \<open>None\<close>; an administrator may create one.
\<close>

type_synonym jsonb_cast = "(string \<Rightarrow> jsonb) option"

fun assignable :: "jsonb_cast \<Rightarrow> pg_type \<Rightarrow> pg_type \<Rightarrow> bool" where
  "assignable cast PgJsonb PgText = (cast \<noteq> None)"
| "assignable cast column expression = (column = expression)"

definition accepts_types :: "jsonb_cast \<Rightarrow> pg_type list \<Rightarrow> pg_type list \<Rightarrow> bool" where
  "accepts_types cast columns expressions = list_all2 (assignable cast) columns expressions"

section \<open>Tables\<close>

record order_row =
  o_id :: uuid
  o_user_id :: string
  o_amount :: i64
  o_currency :: string
  o_status :: string
  o_created_at :: timestamp
  o_updated_at :: timestamp

record payment_row =
  p_id :: uuid
  p_order_id :: uuid
  p_gateway :: string
  p_method :: string
  p_checkout_url :: string
  p_status :: string
  p_created_at :: timestamp
  p_updated_at :: timestamp

record transaction_row =
  t_id :: uuid
  t_payment_id :: uuid
  t_gateway :: string
  t_gateway_txn_id :: string
  t_webhook_event_id :: string
  t_status :: string
  t_raw_payload :: jsonb
  t_created_at :: timestamp

record settlement_row =
  s_id :: uuid
  s_payment_id :: uuid
  s_gateway :: string
  s_settlement_ref :: string
  s_amount :: i64
  s_status :: string
  s_created_at :: timestamp

text \<open>A table is its rows in insertion order.\<close>

record tables =
  orders :: "order_row list"
  payments :: "payment_row list"
  transactions :: "transaction_row list"
  settlements :: "settlement_row list"

definition no_tables :: tables where
  "no_tables = \<lparr>orders = [], payments = [], transactions = [], settlements = []\<rparr>"

abbreviation event_key :: "transaction_row \<Rightarrow> string \<times> string" where
  "event_key t \<equiv> (t_gateway t, t_webhook_event_id t)"

abbreviation txn_key :: "transaction_row \<Rightarrow> string \<times> string" where
  "txn_key t \<equiv> (t_gateway t, t_gateway_txn_id t)"

section \<open>Errors and round trips\<close>

text \<open>
  The errors an \<open>anyhow::Error\<close> of the service wraps: those of the database, of Redis, of
  \<open>serde_json\<close>, and messages made by the service itself.
\<close>

datatype db_error =
    ConnectionError
  | UniqueViolation string
  | ForeignKeyViolation string
  | DatatypeMismatch string

datatype app_error =
    DbError db_error
  | RedisError string
  | JsonError string
  | Message string

text \<open>
  A round trip is answered, is lost before the server acts, or is lost after it has acted: then
  the caller sees an error although the statement took effect.
\<close>

datatype io_outcome = IoOk | IoLost | IoAckLost

text \<open>
  The state behind a \<open>Repository\<close>: the tables, the server's clock (\<open>now()\<close>), the database's
  cast from \<open>text\<close> to \<open>jsonb\<close>, which nothing in the program changes, the outcomes of the
  coming round trips (answered once the list is used up) and how many random UUIDs have been drawn.
\<close>

record store =
  st_tables :: tables
  st_now :: timestamp
  st_cast :: jsonb_cast
  st_outcomes :: "io_outcome list"
  st_drawn :: nat

definition next_outcome :: "store \<Rightarrow> io_outcome \<times> store" where
  "next_outcome s =
     (case st_outcomes s of [] \<Rightarrow> (IoOk, s) | f # fs \<Rightarrow> (f, s\<lparr>st_outcomes := fs\<rparr>))"

text \<open>\<open>Uuid::new_v4()\<close>: the next value of the random source \<open>v4\<close>.\<close>

definition new_v4 :: "(nat \<Rightarrow> uuid) \<Rightarrow> (store, 'e, uuid) io" where
  "new_v4 v4 s = (s\<lparr>st_drawn := Suc (st_drawn s)\<rparr>, Inr (v4 (st_drawn s)))"

type_synonym statement = "timestamp \<Rightarrow> tables \<Rightarrow> db_error + tables"

text \<open>\<open>query(..).execute(&pool)\<close>: one statement, committed on its own.\<close>

definition execute :: "statement \<Rightarrow> (store, app_error, unit) io" where
  "execute q s =
     (let (f, s1) = next_outcome s in
        if f = IoLost then (s1, Inl (DbError ConnectionError))
        else case q (st_now s1) (st_tables s1) of
          Inl e \<Rightarrow> (s1, Inl (DbError e))
        | Inr T \<Rightarrow> (s1\<lparr>st_tables := T\<rparr>,
            if f = IoAckLost then Inl (DbError ConnectionError) else Inr ()))"

text \<open>\<open>query(..).fetch_all(&pool)\<close> and \<open>fetch_optional\<close>: a read.\<close>

definition fetch :: "(tables \<Rightarrow> 'a) \<Rightarrow> (store, app_error, 'a) io" where
  "fetch q s =
     (let (f, s1) = next_outcome s in
        (s1, if f = IoOk then Inr (q (st_tables s1)) else Inl (DbError ConnectionError)))"

text \<open>
  A transaction works on its own copy of the tables and publishes it when it commits. A
  transaction that is dropped before its commit rolls back: its copy is forgotten.
\<close>

definition tx_execute :: "statement \<Rightarrow> (store \<times> tables, app_error, unit) io" where
  "tx_execute q sT =
     (let (s, T) = sT; (f, s1) = next_outcome s in
        if f = IoLost then ((s1, T), Inl (DbError ConnectionError))
        else case q (st_now s1) T of
          Inl e \<Rightarrow> ((s1, T), Inl (DbError e))
        | Inr T' \<Rightarrow> ((s1, T'), if f = IoAckLost then Inl (DbError ConnectionError) else Inr ()))"

definition tx_commit :: "(store \<times> tables, app_error, unit) io" where
  "tx_commit sT =
     (let (s, T) = sT; (f, s1) = next_outcome s in
        ((if f = IoLost then s1 else s1\<lparr>st_tables := T\<rparr>, T),
         if f = IoOk then Inr () else Inl (DbError ConnectionError)))"

definition with_transaction :: "(store \<times> tables, app_error, unit) io \<Rightarrow> (store, app_error, unit) io" where
  "with_transaction body s =
     (let (f, s1) = next_outcome s in
        if f \<noteq> IoOk then (s1, Inl (DbError ConnectionError))
        else let ((s2, _), r) = io_bind body (\<lambda>_. tx_commit) (s1, st_tables s1) in (s2, r))"

section \<open>The schema's constraints\<close>

text \<open>
  \<open>tables_ok\<close>: the primary keys, the unique constraints and the foreign keys of the migration,
  and the words that the status and method columns hold.
\<close>

definition orders_ok :: "tables \<Rightarrow> bool" where
  "orders_ok T \<longleftrightarrow>
     distinct (map o_id (orders T)) \<and>
     list_all (\<lambda>r. o_status r \<in> {''PENDING'', ''PAID''}) (orders T)"

definition payments_ok :: "tables \<Rightarrow> bool" where
  "payments_ok T \<longleftrightarrow>
     distinct (map p_id (payments T)) \<and>
     list_all (\<lambda>p. p_order_id p \<in> o_id ` set (orders T)) (payments T) \<and>
     list_all (\<lambda>p. p_status p \<in> {''PENDING'', ''SUCCESS''}) (payments T) \<and>
     list_all (\<lambda>p. p_method p \<in> {''UPI'', ''CARD''}) (payments T)"

definition transactions_ok :: "tables \<Rightarrow> bool" where
  "transactions_ok T \<longleftrightarrow>
     distinct (map t_id (transactions T)) \<and>
     distinct (map event_key (transactions T)) \<and>
     distinct (map txn_key (transactions T)) \<and>
     list_all (\<lambda>t. t_payment_id t \<in> p_id ` set (payments T)) (transactions T) \<and>
     list_all (\<lambda>t. t_status t \<in> {''PENDING'', ''SUCCESS'', ''FAILED''}) (transactions T)"

definition settlements_ok :: "tables \<Rightarrow> bool" where
  "settlements_ok T \<longleftrightarrow>
     distinct (map s_id (settlements T)) \<and>
     distinct (map s_settlement_ref (settlements T)) \<and>
     list_all (\<lambda>x. s_payment_id x \<in> p_id ` set (payments T)) (settlements T) \<and>
     list_all (\<lambda>x. s_status x = ''MATCHED'') (settlements T)"

definition tables_ok :: "tables \<Rightarrow> bool" where
  "tables_ok T \<longleftrightarrow> orders_ok T \<and> payments_ok T \<and> transactions_ok T \<and> settlements_ok T"

lemmas tables_ok_defs = tables_ok_def orders_ok_def payments_ok_def transactions_ok_def
  settlements_ok_def

lemma no_tables_ok [simp]: "tables_ok no_tables"
  by (simp add: tables_ok_defs no_tables_def)

section \<open>How the tables evolve\<close>

text \<open>
  Between two states of the database every row is still there with the columns it was inserted
  with, and only its status may have advanced (from pending to paid or successful).
\<close>

definition order_adv :: "order_row \<Rightarrow> order_row \<Rightarrow> bool" where
  "order_adv a b \<longleftrightarrow>
     o_id b = o_id a \<and> o_user_id b = o_user_id a \<and> o_amount b = o_amount a \<and>
     o_currency b = o_currency a \<and> o_created_at b = o_created_at a \<and>
     (o_status b = o_status a \<or> o_status b = ''PAID'')"

definition payment_adv :: "payment_row \<Rightarrow> payment_row \<Rightarrow> bool" where
  "payment_adv a b \<longleftrightarrow>
     p_id b = p_id a \<and> p_order_id b = p_order_id a \<and> p_gateway b = p_gateway a \<and>
     p_method b = p_method a \<and> p_checkout_url b = p_checkout_url a \<and>
     p_created_at b = p_created_at a \<and>
     (p_status b = p_status a \<or> p_status b = ''SUCCESS'')"

definition evolves :: "tables \<Rightarrow> tables \<Rightarrow> bool" where
  "evolves T T' \<longleftrightarrow>
     grows order_adv (orders T) (orders T') \<and>
     grows payment_adv (payments T) (payments T') \<and>
     grows (=) (transactions T) (transactions T') \<and>
     grows (=) (settlements T) (settlements T')"

lemma order_adv_refl [simp]: "order_adv a a"
  by (simp add: order_adv_def)

lemma order_adv_trans: "order_adv a b \<Longrightarrow> order_adv b c \<Longrightarrow> order_adv a c"
  by (auto simp: order_adv_def)

lemma payment_adv_refl [simp]: "payment_adv a a"
  by (simp add: payment_adv_def)

lemma payment_adv_trans: "payment_adv a b \<Longrightarrow> payment_adv b c \<Longrightarrow> payment_adv a c"
  by (auto simp: payment_adv_def)

lemma evolves_refl [simp]: "evolves T T"
  by (simp add: evolves_def grows_refl)

lemma evolves_trans: "evolves T U \<Longrightarrow> evolves U V \<Longrightarrow> evolves T V"
  unfolding evolves_def
  by (blast intro: grows_trans order_adv_trans payment_adv_trans trans)

lemma evolves_paid:
  assumes "evolves T T'" and "r \<in> set (orders T)" and "o_status r = ''PAID''"
  shows "\<exists>r' \<in> set (orders T'). o_id r' = o_id r \<and> o_amount r' = o_amount r \<and> o_status r' = ''PAID''"
proof -
  from assms(1) have "grows order_adv (orders T) (orders T')" by (simp add: evolves_def)
  from grows_in [OF this assms(2)] obtain r' where "r' \<in> set (orders T')" "order_adv r r'" .
  with assms(3) show ?thesis by (auto simp: order_adv_def)
qed

lemma evolves_success:
  assumes "evolves T T'" and "p \<in> set (payments T)" and "p_status p = ''SUCCESS''"
  shows "\<exists>p' \<in> set (payments T'). p_id p' = p_id p \<and> p_order_id p' = p_order_id p \<and>
           p_status p' = ''SUCCESS''"
proof -
  from assms(1) have "grows payment_adv (payments T) (payments T')" by (simp add: evolves_def)
  from grows_in [OF this assms(2)] obtain p' where "p' \<in> set (payments T')" "payment_adv p p'" .
  with assms(3) show ?thesis by (auto simp: payment_adv_def)
qed

text \<open>
  \<open>sound_step\<close>: a step of the database that keeps the schema's constraints and lets the tables
  evolve. It is reflexive and transitive, so it is an effect preorder on every state that holds
  the tables.
\<close>

definition sound_step :: "tables \<Rightarrow> tables \<Rightarrow> bool" where
  "sound_step T T' \<longleftrightarrow> (tables_ok T \<longrightarrow> tables_ok T' \<and> evolves T T')"

lemma sound_step_refl [simp]: "sound_step T T"
  by (simp add: sound_step_def)

lemma sound_step_trans: "sound_step T U \<Longrightarrow> sound_step U V \<Longrightarrow> sound_step T V"
  by (auto simp: sound_step_def intro: evolves_trans)

definition sound_statement :: "statement \<Rightarrow> bool" where
  "sound_statement q \<longleftrightarrow> (\<forall>now T T'. q now T = Inr T' \<longrightarrow> sound_step T T')"

lemma next_outcome_tables [simp]: "st_tables (snd (next_outcome s)) = st_tables s"
  by (simp add: next_outcome_def split: list.splits)

lemma next_outcomeD: "next_outcome s = (f, s1) \<Longrightarrow> st_tables s1 = st_tables s"
  using next_outcome_tables [of s] by simp

lemma next_outcome_cast: "next_outcome s = (f, s1) \<Longrightarrow> st_cast s1 = st_cast s"
  by (auto simp: next_outcome_def split: list.splits)

lemma next_outcome_ok [simp]: "st_outcomes s = [] \<Longrightarrow> next_outcome s = (IoOk, s)"
  by (simp add: next_outcome_def)

text \<open>
  Inside a transaction the published tables stay as they are; the commit publishes the working
  copy.
\<close>

definition tx_step :: "store \<times> tables \<Rightarrow> store \<times> tables \<Rightarrow> bool" where
  "tx_step a b \<longleftrightarrow> st_tables (fst b) = st_tables (fst a)"

interpretation tx: effect_preorder tx_step
  by unfold_locales (auto simp: tx_step_def)

lemma tx_execute_step: "conforms tx_step (tx_execute q)"
  by (rule conformsI)
    (auto simp: tx_execute_def Let_def tx_step_def split: prod.splits sum.splits dest: next_outcomeD)

end
