(* ===== verification/Repository.thy ===== *)
theory Repository
  imports Database
begin

text \<open>
  The payment service's repository (\<open>approach-1/crates/adapters/src/repository.rs\<close>): each SQL
  statement as a function on the tables, each method as the round trips it makes, and what they
  guarantee: every method keeps the schema's constraints and only lets rows advance, marking a
  payment successful is atomic, and the pending payments are the oldest ones.
\<close>

section \<open>The types of the statements\<close>

text \<open>
  The types of the columns that each \<open>INSERT\<close> names, from the migration, and of the parameters
  that the method binds to them. The server checks them before it runs the statement.
\<close>

definition order_columns :: "pg_type list" where
  "order_columns = [PgUuid, PgText, PgBigint, PgText]"

definition order_binds :: "pg_type list" where
  "order_binds = [PgUuid, PgText, PgBigint, PgText]"

definition payment_columns :: "pg_type list" where
  "payment_columns = [PgUuid, PgUuid, PgText, PgText, PgText]"

definition payment_binds :: "pg_type list" where
  "payment_binds = [PgUuid, PgUuid, PgText, PgText, PgText]"

definition transaction_columns :: "pg_type list" where
  "transaction_columns = [PgUuid, PgUuid, PgText, PgText, PgText, PgText, PgJsonb]"

definition transaction_binds :: "pg_type list" where
  "transaction_binds = [PgUuid, PgUuid, PgText, PgText, PgText, PgText, PgText]"

definition settlement_columns :: "pg_type list" where
  "settlement_columns = [PgUuid, PgUuid, PgText, PgText, PgBigint]"

definition settlement_binds :: "pg_type list" where
  "settlement_binds = [PgUuid, PgUuid, PgText, PgText, PgBigint]"

text \<open>
  Three of the four inserts are well typed on every database. That of a transaction binds the text
  of the event to a \<open>jsonb\<close> column: it is accepted exactly where there is a cast. (The two updates
  and the two queries bind a UUID to an id, or nothing.)
\<close>

lemma typed_inserts:
  "accepts_types cast order_columns order_binds"
  "accepts_types cast payment_columns payment_binds"
  "accepts_types cast settlement_columns settlement_binds"
  "accepts_types cast transaction_columns transaction_binds \<longleftrightarrow> cast \<noteq> None"
  by (simp_all add: accepts_types_def order_columns_def order_binds_def payment_columns_def
      payment_binds_def settlement_columns_def settlement_binds_def transaction_columns_def
      transaction_binds_def)

section \<open>Statements\<close>

text \<open>
  A statement that is well typed on every database is a function of the tables and the clock; the
  insertion of a transaction also depends on the database's cast.
\<close>

definition insert_order :: "uuid \<Rightarrow> string \<Rightarrow> i64 \<Rightarrow> string \<Rightarrow> statement" where
  "insert_order oid user_id amount currency now T =
     (if list_ex (\<lambda>r. o_id r = oid) (orders T) then Inl (UniqueViolation ''orders_pkey'')
      else Inr (T\<lparr>orders := orders T @
        [\<lparr>o_id = oid, o_user_id = user_id, o_amount = amount, o_currency = currency,
          o_status = ''PENDING'', o_created_at = now, o_updated_at = now\<rparr>]\<rparr>))"

definition insert_payment :: "uuid \<Rightarrow> uuid \<Rightarrow> string \<Rightarrow> string \<Rightarrow> string \<Rightarrow> statement" where
  "insert_payment pid oid gateway meth url now T =
     (if list_ex (\<lambda>p. p_id p = pid) (payments T) then Inl (UniqueViolation ''payments_pkey'')
      else if \<not> list_ex (\<lambda>r. o_id r = oid) (orders T)
      then Inl (ForeignKeyViolation ''payments_order_id_fkey'')
      else Inr (T\<lparr>payments := payments T @
        [\<lparr>p_id = pid, p_order_id = oid, p_gateway = gateway, p_method = meth,
          p_checkout_url = url, p_status = ''PENDING'', p_created_at = now,
          p_updated_at = now\<rparr>]\<rparr>))"

definition update_payment_success :: "uuid \<Rightarrow> statement" where
  "update_payment_success pid now T =
     Inr (T\<lparr>payments := map (\<lambda>p. if p_id p = pid
        then p\<lparr>p_status := ''SUCCESS'', p_updated_at := now\<rparr> else p) (payments T)\<rparr>)"

definition update_order_paid :: "uuid \<Rightarrow> statement" where
  "update_order_paid oid now T =
     Inr (T\<lparr>orders := map (\<lambda>r. if o_id r = oid
        then r\<lparr>o_status := ''PAID'', o_updated_at := now\<rparr> else r) (orders T)\<rparr>)"

text \<open>
  The types are checked first. \<open>ON CONFLICT (gateway, webhook_event_id) DO NOTHING\<close>: only a
  conflict on that key is silent; the primary key and \<open>UNIQUE (gateway, gateway_txn_id)\<close> still
  raise.
\<close>

definition insert_transaction ::
  "jsonb_cast \<Rightarrow> uuid \<Rightarrow> uuid \<Rightarrow> string \<Rightarrow> string \<Rightarrow> string \<Rightarrow> string \<Rightarrow> string \<Rightarrow> statement" where
  "insert_transaction cast tid pid gateway txn_id event_id status raw now T =
     (if \<not> accepts_types cast transaction_columns transaction_binds
      then Inl (DatatypeMismatch ''raw_payload'')
      else if list_ex (\<lambda>t. event_key t = (gateway, event_id)) (transactions T) then Inr T
      else if list_ex (\<lambda>t. t_id t = tid) (transactions T)
      then Inl (UniqueViolation ''transactions_pkey'')
      else if list_ex (\<lambda>t. txn_key t = (gateway, txn_id)) (transactions T)
      then Inl (UniqueViolation ''transactions_gateway_gateway_txn_id_key'')
      else if \<not> list_ex (\<lambda>p. p_id p = pid) (payments T)
      then Inl (ForeignKeyViolation ''transactions_payment_id_fkey'')
      else Inr (T\<lparr>transactions := transactions T @
        [\<lparr>t_id = tid, t_payment_id = pid, t_gateway = gateway, t_gateway_txn_id = txn_id,
          t_webhook_event_id = event_id, t_status = status, t_raw_payload = the cast raw,
          t_created_at = now\<rparr>]\<rparr>))"

text \<open>\<open>ON CONFLICT DO NOTHING\<close> without a key: any unique conflict is silent.\<close>

definition insert_settlement_row ::
  "uuid \<Rightarrow> uuid \<Rightarrow> string \<Rightarrow> string \<Rightarrow> i64 \<Rightarrow> statement" where
  "insert_settlement_row sid pid gateway sref amount now T =
     (if list_ex (\<lambda>x. s_id x = sid \<or> s_settlement_ref x = sref) (settlements T) then Inr T
      else if \<not> list_ex (\<lambda>p. p_id p = pid) (payments T)
      then Inl (ForeignKeyViolation ''settlements_payment_id_fkey'')
      else Inr (T\<lparr>settlements := settlements T @
        [\<lparr>s_id = sid, s_payment_id = pid, s_gateway = gateway, s_settlement_ref = sref,
          s_amount = amount, s_status = ''MATCHED'', s_created_at = now\<rparr>]\<rparr>))"

definition select_pending :: "tables \<Rightarrow> (uuid \<times> uuid \<times> string) list" where
  "select_pending T =
     map (\<lambda>p. (p_id p, p_order_id p, p_gateway p))
       (take 100 (sort_key p_created_at
         (filter (\<lambda>p. p_status p = ''PENDING'') (payments T))))"

section \<open>Methods\<close>

definition create_order ::
  "(nat \<Rightarrow> uuid) \<Rightarrow> string \<Rightarrow> i64 \<Rightarrow> string \<Rightarrow> (store, app_error, uuid) io" where
  "create_order v4 user_id amount currency =
     io_bind (new_v4 v4) (\<lambda>order_id.
     io_bind (execute (insert_order order_id user_id amount currency)) (\<lambda>_.
     ret order_id))"

definition create_payment ::
  "(nat \<Rightarrow> uuid) \<Rightarrow> uuid \<Rightarrow> string \<Rightarrow> payment_method \<Rightarrow> string \<Rightarrow> (store, app_error, uuid) io" where
  "create_payment v4 order_id gateway meth checkout_url =
     io_bind (new_v4 v4) (\<lambda>payment_id.
     io_bind (execute (insert_payment payment_id order_id gateway (payment_method_str meth)
                checkout_url)) (\<lambda>_.
     ret payment_id))"

definition mark_payment_success :: "uuid \<Rightarrow> uuid \<Rightarrow> (store, app_error, unit) io" where
  "mark_payment_success payment_id order_id =
     with_transaction
       (io_bind (tx_execute (update_payment_success payment_id)) (\<lambda>_.
        tx_execute (update_order_paid order_id)))"

text \<open>The statement runs against the cast that the database has.\<close>

definition log_transaction ::
  "(nat \<Rightarrow> uuid) \<Rightarrow> event_codec \<Rightarrow> webhook_event \<Rightarrow> (store, app_error, unit) io" where
  "log_transaction v4 C event =
     io_bind (new_v4 v4) (\<lambda>tid.
     io_bind (io_lift (map_sum JsonError id (ec_to_string C event))) (\<lambda>raw.
     io_bind (io_gets st_cast) (\<lambda>cast.
     execute (insert_transaction cast tid (ev_payment_id event) (ev_gateway event)
       (ev_gateway_txn_id event) (ev_event_id event) (payment_status_str (ev_status event)) raw))))"

definition pending_payments :: "(store, app_error, (uuid \<times> uuid \<times> string) list) io" where
  "pending_payments = fetch select_pending"

text \<open>\<open>show_uuid\<close> is \<open>Uuid\<close>'s \<open>Display\<close>, a parameter.\<close>

definition insert_settlement ::
  "(nat \<Rightarrow> uuid) \<Rightarrow> (uuid \<Rightarrow> string) \<Rightarrow> uuid \<Rightarrow> string \<Rightarrow> i64 \<Rightarrow> (store, app_error, unit) io" where
  "insert_settlement v4 show_uuid payment_id gateway amount =
     io_bind (new_v4 v4) (\<lambda>sid.
     execute (insert_settlement_row sid payment_id gateway
       (''settle-'' @ show_uuid payment_id) amount))"

section \<open>Every statement is sound\<close>

lemma list_ex_image: "list_ex (\<lambda>x. k x = a) xs \<longleftrightarrow> a \<in> k ` set xs"
  by (auto simp: list_ex_iff)

lemma insert_order_sound: "sound_statement (insert_order oid u a c)"
  unfolding sound_statement_def sound_step_def
  by (auto simp: insert_order_def list_ex_image tables_ok_defs list_all_iff evolves_def
      grows_refl grows_append split: if_splits)

lemma insert_payment_sound:
  assumes "meth \<in> {''UPI'', ''CARD''}"
  shows "sound_statement (insert_payment pid oid g meth url)"
  unfolding sound_statement_def sound_step_def
  using assms
  by (auto simp: insert_payment_def list_ex_image tables_ok_defs list_all_iff evolves_def
      grows_refl grows_append split: if_splits)

lemma update_payment_keys:
  "map p_id (map (\<lambda>p. if p_id p = pid then p\<lparr>p_status := s, p_updated_at := n\<rparr> else p) ps) = map p_id ps"
  by (rule distinct_map_update) simp

lemma update_order_keys:
  "map o_id (map (\<lambda>r. if o_id r = oid then r\<lparr>o_status := s, o_updated_at := n\<rparr> else r) rs) = map o_id rs"
  by (rule distinct_map_update) simp

lemma image_set_map: "map k xs = map k ys \<Longrightarrow> k ` set xs = k ` set ys"
  by (metis list.set_map)

lemma update_payment_success_sound: "sound_statement (update_payment_success pid)"
  unfolding sound_statement_def sound_step_def
proof (intro allI impI)
  fix now T T'
  assume q: "update_payment_success pid now T = Inr T'" and ok: "tables_ok T"
  let ?f = "\<lambda>p. if p_id p = pid then p\<lparr>p_status := ''SUCCESS'', p_updated_at := now\<rparr> else p"
  from q have T': "T' = T\<lparr>payments := map ?f (payments T)\<rparr>" by (simp add: update_payment_success_def)
  have keys: "map p_id (payments T') = map p_id (payments T)"
    unfolding T' by (simp add: update_payment_keys del: map_map)
  note ids = image_set_map [OF keys]
  have "distinct (map p_id (payments T'))" unfolding keys using ok by (simp add: tables_ok_defs)
  moreover have "list_all (\<lambda>p. p_order_id p \<in> o_id ` set (orders T')) (payments T')"
    and "list_all (\<lambda>p. p_status p \<in> {''PENDING'', ''SUCCESS''}) (payments T')"
    and "list_all (\<lambda>p. p_method p \<in> {''UPI'', ''CARD''}) (payments T')"
    using ok by (auto simp: T' tables_ok_defs list_all_iff)
  ultimately have "payments_ok T'" by (simp add: payments_ok_def)
  moreover have "transactions_ok T'" and "settlements_ok T'" and "orders_ok T'"
    using ok ids by (simp_all add: T' tables_ok_defs del: set_map)
  moreover have "evolves T T'"
    by (auto simp: evolves_def T' grows_refl payment_adv_def intro!: grows_map)
  ultimately show "tables_ok T' \<and> evolves T T'" by (simp add: tables_ok_def)
qed

lemma update_order_paid_sound: "sound_statement (update_order_paid oid)"
  unfolding sound_statement_def sound_step_def
proof (intro allI impI)
  fix now T T'
  assume q: "update_order_paid oid now T = Inr T'" and ok: "tables_ok T"
  let ?f = "\<lambda>r. if o_id r = oid then r\<lparr>o_status := ''PAID'', o_updated_at := now\<rparr> else r"
  from q have T': "T' = T\<lparr>orders := map ?f (orders T)\<rparr>" by (simp add: update_order_paid_def)
  have keys: "map o_id (orders T') = map o_id (orders T)"
    unfolding T' by (simp add: update_order_keys del: map_map)
  note ids = image_set_map [OF keys]
  have "distinct (map o_id (orders T'))" unfolding keys using ok by (simp add: tables_ok_defs)
  moreover have "list_all (\<lambda>r. o_status r \<in> {''PENDING'', ''PAID''}) (orders T')"
    using ok by (auto simp: T' tables_ok_defs list_all_iff)
  ultimately have "orders_ok T'" by (simp add: orders_ok_def)
  moreover have "payments_ok T'" and "transactions_ok T'" and "settlements_ok T'"
    using ok ids by (simp_all add: T' tables_ok_defs del: set_map)
  moreover have "evolves T T'"
    by (auto simp: evolves_def T' grows_refl order_adv_def intro!: grows_map)
  ultimately show "tables_ok T' \<and> evolves T T'" by (simp add: tables_ok_def)
qed

lemma insert_transaction_sound:
  assumes "status \<in> {''PENDING'', ''SUCCESS'', ''FAILED''}"
  shows "sound_statement (insert_transaction cast tid pid g txn ev status raw)"
  unfolding sound_statement_def sound_step_def
  using assms
  by (auto simp: insert_transaction_def list_ex_iff tables_ok_defs list_all_iff evolves_def
      grows_refl grows_append split: if_splits)

lemma insert_settlement_row_sound: "sound_statement (insert_settlement_row sid pid g sref a)"
  unfolding sound_statement_def sound_step_def
  by (auto simp: insert_settlement_row_def list_ex_iff tables_ok_defs list_all_iff evolves_def
      grows_refl grows_append split: if_splits)

section \<open>Marking a payment successful\<close>

text \<open>
  What a committed \<open>mark_payment_success\<close> leaves: the payment with the given id is successful
  and the order with the given id is paid. The two ids are independent of each other.
\<close>

definition paid_tables :: "timestamp \<Rightarrow> uuid \<Rightarrow> uuid \<Rightarrow> tables \<Rightarrow> tables" where
  "paid_tables now pid oid T = T
     \<lparr>payments := map (\<lambda>p. if p_id p = pid
        then p\<lparr>p_status := ''SUCCESS'', p_updated_at := now\<rparr> else p) (payments T),
      orders := map (\<lambda>r. if o_id r = oid
        then r\<lparr>o_status := ''PAID'', o_updated_at := now\<rparr> else r) (orders T)\<rparr>"

lemma paid_tables_frame [simp]:
  "transactions (paid_tables now pid oid T) = transactions T"
  "settlements (paid_tables now pid oid T) = settlements T"
  by (simp_all add: paid_tables_def)

lemma paid_tables_payment:
  assumes "p \<in> set (payments (paid_tables now pid oid T))" and "p_id p = pid"
  shows "p_status p = ''SUCCESS''"
proof -
  let ?f = "\<lambda>x. if p_id x = pid then x\<lparr>p_status := ''SUCCESS'', p_updated_at := now\<rparr> else x"
  from assms(1) have "p \<in> ?f ` set (payments T)" by (simp add: paid_tables_def)
  then obtain x where "p = ?f x" by (rule imageE)
  with assms(2) show ?thesis by (cases "p_id x = pid") simp_all
qed

lemma paid_tables_order:
  assumes "r \<in> set (orders (paid_tables now pid oid T))" and "o_id r = oid"
  shows "o_status r = ''PAID''"
proof -
  let ?f = "\<lambda>x. if o_id x = oid then x\<lparr>o_status := ''PAID'', o_updated_at := now\<rparr> else x"
  from assms(1) have "r \<in> ?f ` set (orders T)" by (simp add: paid_tables_def)
  then obtain x where "r = ?f x" by (rule imageE)
  with assms(2) show ?thesis by (cases "o_id x = oid") simp_all
qed

lemma paid_tables_payment_ids [simp]:
  "map p_id (payments (paid_tables now pid oid T)) = map p_id (payments T)"
  by (auto simp: paid_tables_def)

lemma paid_tables_order_ids [simp]:
  "map o_id (orders (paid_tables now pid oid T)) = map o_id (orders T)"
  by (auto simp: paid_tables_def)

lemma paid_tables_idem:
  "paid_tables now pid oid (paid_tables now pid oid T) = paid_tables now pid oid T"
  by (simp add: paid_tables_def comp_def)

lemma paid_tables_sound: "sound_step T (paid_tables now pid oid T)"
proof -
  obtain T1 where 1: "update_payment_success pid now T = Inr T1"
    by (simp add: update_payment_success_def)
  have 2: "update_order_paid oid now T1 = Inr (paid_tables now pid oid T)"
    using 1 by (auto simp: update_payment_success_def update_order_paid_def paid_tables_def)
  from 1 2 update_payment_success_sound [of pid] update_order_paid_sound [of oid]
  have "sound_step T T1" and "sound_step T1 (paid_tables now pid oid T)"
    unfolding sound_statement_def by blast+
  then show ?thesis by (rule sound_step_trans)
qed

lemma next_outcome_now: "next_outcome s = (f, s1) \<Longrightarrow> st_now s1 = st_now s"
  by (auto simp: next_outcome_def split: list.splits)

lemma tx_execute_Inr:
  "tx_execute q (s, T) = ((s', T'), r) \<Longrightarrow>
     st_now s' = st_now s \<and> st_tables s' = st_tables s \<and> (r = Inr () \<longrightarrow> q (st_now s) T = Inr T')"
  by (auto simp: tx_execute_def Let_def split: prod.splits sum.splits if_splits
      dest: next_outcomeD next_outcome_now)

lemma mark_body_Inr:
  assumes "io_bind (tx_execute (update_payment_success pid)) (\<lambda>_. tx_execute (update_order_paid oid))
             (s, T) = ((s', T'), Inr ())"
  shows "T' = paid_tables (st_now s) pid oid T"
proof -
  obtain s1 T1 r1 where 1: "tx_execute (update_payment_success pid) (s, T) = ((s1, T1), r1)"
    by (cases "tx_execute (update_payment_success pid) (s, T)") auto
  with assms have r1: "r1 = Inr ()"
    and 2: "tx_execute (update_order_paid oid) (s1, T1) = ((s', T'), Inr ())"
    by (cases r1; simp add: io_bind_def)+
  from tx_execute_Inr [OF 1] r1 have q1: "st_now s1 = st_now s"
    and "update_payment_success pid (st_now s) T = Inr T1" by simp_all
  moreover from tx_execute_Inr [OF 2] q1 have "update_order_paid oid (st_now s) T1 = Inr T'" by simp
  ultimately show ?thesis
    by (auto simp: update_payment_success_def update_order_paid_def paid_tables_def)
qed

text \<open>Whatever round trip fails, both updates take effect or neither does.\<close>

lemma mark_payment_success_cases:
  assumes m: "mark_payment_success pid oid s = (s', r)"
  obtains (kept) "st_tables s' = st_tables s" "\<exists>e. r = Inl e"
    | (paid) "st_tables s' = paid_tables (st_now s) pid oid (st_tables s)"
proof -
  let ?body = "io_bind (tx_execute (update_payment_success pid)) (\<lambda>_. tx_execute (update_order_paid oid))"
  obtain f s1 where n: "next_outcome s = (f, s1)" by (cases "next_outcome s")
  note t1 = next_outcomeD [OF n] and now1 = next_outcome_now [OF n]
  obtain s2 T2 r2 where b: "?body (s1, st_tables s1) = ((s2, T2), r2)"
    by (cases "?body (s1, st_tables s1)") auto
  have "conforms tx_step ?body"
    by (intro tx.conforms_combinators tx_execute_step)
  from conforms_run [OF this b] have t2: "st_tables s2 = st_tables s" by (simp add: tx_step_def t1)
  show thesis
  proof (cases "f = IoOk \<and> r2 = Inr ()")
    case False
    with m n b t1 t2 have "st_tables s' = st_tables s \<and> (\<exists>e. r = Inl e)"
      by (cases r2) (auto simp: mark_payment_success_def with_transaction_def io_bind_def split: if_splits)
    then show thesis using kept by blast
  next
    case True
    with b have T2: "T2 = paid_tables (st_now s) pid oid (st_tables s)"
      using mark_body_Inr [of pid oid s1 "st_tables s1" s2 T2] by (simp add: t1 now1)
    from True m n b have "s' = fst (fst (tx_commit (s2, T2)))" and "r = snd (tx_commit (s2, T2))"
      by (auto simp: mark_payment_success_def with_transaction_def io_bind_def split: prod.splits)
    then have "st_tables s' = st_tables s \<and> (\<exists>e. r = Inl e) \<or> st_tables s' = T2"
      using t2 by (auto simp: tx_commit_def split: prod.splits dest: next_outcomeD)
    with kept paid T2 show thesis by blast
  qed
qed

section \<open>What every method conforms to\<close>

text \<open>
  A relation between the tables before and after that the statements of the repository keep is
  kept by its methods, and, since nothing else in the service writes to the database, by all of
  it. The locales name what the relation has to keep, for reading, for placing orders and starting
  payments, and for everything; the lemmas on the handlers of the worker and the API are proved in
  them once, for every such relation.
\<close>

locale table_preorder =
  fixes Q :: "tables \<Rightarrow> tables \<Rightarrow> bool"
  assumes Q_refl: "Q T T"
    and Q_trans: "Q T U \<Longrightarrow> Q U V \<Longrightarrow> Q T V"
begin

lemma store_preorder: "effect_preorder (via st_tables Q)"
  by unfold_locales (auto intro: Q_refl Q_trans)

lemmas store_rules = effect_preorder.conforms_combinators [OF store_preorder]

lemma new_v4_conforms: "conforms (via st_tables Q) (new_v4 v4)"
  by (rule conformsI) (simp add: new_v4_def Q_refl)

lemma execute_conforms:
  assumes "\<And>now T T'. q now T = Inr T' \<Longrightarrow> Q T T'"
  shows "conforms (via st_tables Q) (execute q)"
proof (rule conformsI)
  fix s
  obtain f s1 where n: "next_outcome s = (f, s1)" by (cases "next_outcome s")
  from assms [of "st_now s1" "st_tables s1"] n next_outcomeD [OF n]
  show "via st_tables Q s (fst (execute q s))"
    by (auto simp: execute_def Q_refl split: sum.splits)
qed

lemma fetch_conforms: "conforms (via st_tables Q) (fetch q)"
  by (rule conformsI) (auto simp: fetch_def Let_def Q_refl split: prod.splits dest: next_outcomeD)

lemma pending_payments_conforms: "conforms (via st_tables Q) pending_payments"
  unfolding pending_payments_def by (rule fetch_conforms)

end

locale order_contract = table_preorder +
  assumes Q_order: "insert_order oid u a c now T = Inr T' \<Longrightarrow> Q T T'"
    and Q_payment: "insert_payment pid oid g (payment_method_str m) url now T = Inr T' \<Longrightarrow> Q T T'"
begin

lemma create_order_conforms: "conforms (via st_tables Q) (create_order v4 u a c)"
  unfolding create_order_def by (intro store_rules new_v4_conforms execute_conforms) (rule Q_order)

lemma create_payment_conforms: "conforms (via st_tables Q) (create_payment v4 oid g m url)"
  unfolding create_payment_def by (intro store_rules new_v4_conforms execute_conforms) (rule Q_payment)

end

locale repository_contract = order_contract +
  assumes Q_paid: "Q T (paid_tables now pid oid T)"
    and Q_transaction:
      "insert_transaction cast tid pid g txn ev (payment_status_str x) raw now T = Inr T' \<Longrightarrow> Q T T'"
    and Q_settlement: "insert_settlement_row sid pid g sref a now T = Inr T' \<Longrightarrow> Q T T'"
begin

lemma mark_payment_success_conforms: "conforms (via st_tables Q) (mark_payment_success pid oid)"
proof (rule conformsI)
  fix s
  obtain s' r where m: "mark_payment_success pid oid s = (s', r)" by (cases "mark_payment_success pid oid s")
  then have "Q (st_tables s) (st_tables s')"
    by (cases rule: mark_payment_success_cases) (simp_all add: Q_refl Q_paid)
  with m show "via st_tables Q s (fst (mark_payment_success pid oid s))" by simp
qed

lemma log_transaction_conforms: "conforms (via st_tables Q) (log_transaction v4 C ev)"
  unfolding log_transaction_def by (intro store_rules new_v4_conforms execute_conforms) (rule Q_transaction)

lemma insert_settlement_conforms: "conforms (via st_tables Q) (insert_settlement v4 sh pid g a)"
  unfolding insert_settlement_def by (intro store_rules new_v4_conforms execute_conforms) (rule Q_settlement)

lemmas repository_conforms = create_order_conforms create_payment_conforms mark_payment_success_conforms
  log_transaction_conforms pending_payments_conforms insert_settlement_conforms

end

text \<open>Keeping the constraints and letting the tables evolve is such a relation.\<close>

lemma payment_method_str_range: "payment_method_str m \<in> {''UPI'', ''CARD''}"
  by (cases m) simp_all

lemma payment_status_str_range: "payment_status_str x \<in> {''PENDING'', ''SUCCESS'', ''FAILED''}"
  by (cases x) simp_all

lemma sound_statementD: "sound_statement q \<Longrightarrow> q now T = Inr T' \<Longrightarrow> sound_step T T'"
  unfolding sound_statement_def by blast

interpretation sd: repository_contract sound_step
  by unfold_locales
    (auto intro: sound_step_trans paid_tables_sound
      sound_statementD [OF insert_order_sound] sound_statementD [OF insert_settlement_row_sound]
      sound_statementD [OF insert_payment_sound [OF payment_method_str_range]]
      sound_statementD [OF insert_transaction_sound [OF payment_status_str_range]])

section \<open>Nothing changes the database's casts\<close>

abbreviation same_cast :: "store \<Rightarrow> store \<Rightarrow> bool" where
  "same_cast s s' \<equiv> st_cast s' = st_cast s"

interpretation ct: effect_preorder same_cast
  by unfold_locales auto

lemma new_v4_cast: "conforms same_cast (new_v4 v4)"
  by (rule conformsI) (simp add: new_v4_def)

lemma execute_cast: "conforms same_cast (execute q)"
  by (rule conformsI) (auto simp: execute_def Let_def split: prod.splits sum.splits dest: next_outcome_cast)

lemma fetch_cast: "conforms same_cast (fetch q)"
  by (rule conformsI) (auto simp: fetch_def Let_def split: prod.splits dest: next_outcome_cast)

interpretation tc: effect_preorder "\<lambda>a b :: store \<times> tables. same_cast (fst a) (fst b)"
  by unfold_locales auto

lemma tx_execute_cast: "conforms (\<lambda>a b. same_cast (fst a) (fst b)) (tx_execute q)"
  by (rule conformsI) (auto simp: tx_execute_def Let_def split: prod.splits sum.splits dest: next_outcome_cast)

lemma tx_commit_cast: "conforms (\<lambda>a b. same_cast (fst a) (fst b)) tx_commit"
  by (rule conformsI) (auto simp: tx_commit_def Let_def split: prod.splits dest: next_outcome_cast)

lemma with_transaction_cast:
  assumes "conforms (\<lambda>a b. same_cast (fst a) (fst b)) body"
  shows "conforms same_cast (with_transaction body)"
proof (rule conformsI)
  fix s
  obtain f s1 where n: "next_outcome s = (f, s1)" by (cases "next_outcome s")
  obtain s2 T2 x where b: "io_bind body (\<lambda>_. tx_commit) (s1, st_tables s1) = ((s2, T2), x)"
    by (cases "io_bind body (\<lambda>_. tx_commit) (s1, st_tables s1)") auto
  have "conforms (\<lambda>a b. same_cast (fst a) (fst b)) (io_bind body (\<lambda>_. tx_commit))"
    by (intro tc.conforms_combinators assms tx_commit_cast)
  from conforms_run [OF this b] n b next_outcome_cast [OF n]
  show "same_cast s (fst (with_transaction body s))" by (simp add: with_transaction_def)
qed

lemma repository_cast:
  "conforms same_cast (create_order v4 u a c)"
  "conforms same_cast (create_payment v4 oid g m url)"
  "conforms same_cast (mark_payment_success pid oid)"
  "conforms same_cast (log_transaction v4 C ev)"
  "conforms same_cast pending_payments"
  "conforms same_cast (insert_settlement v4 sh pid g a)"
  unfolding create_order_def create_payment_def mark_payment_success_def log_transaction_def
    pending_payments_def insert_settlement_def
  by (intro ct.conforms_combinators new_v4_cast execute_cast fetch_cast with_transaction_cast
      tc.conforms_combinators tx_execute_cast)+

section \<open>Marking when every round trip is answered\<close>

text \<open>With every round trip answered it succeeds.\<close>

lemma mark_payment_success_ok:
  assumes "st_outcomes s = []"
  shows "mark_payment_success pid oid s =
           (s\<lparr>st_tables := paid_tables (st_now s) pid oid (st_tables s)\<rparr>, Inr ())"
  using assms
  by (simp add: mark_payment_success_def with_transaction_def tx_execute_def tx_commit_def
      io_bind_def update_payment_success_def update_order_paid_def paid_tables_def)

section \<open>The other methods when every round trip is answered\<close>

lemma execute_ok:
  "st_outcomes s = [] \<Longrightarrow> execute q s =
     (case q (st_now s) (st_tables s) of
        Inl e \<Rightarrow> (s, Inl (DbError e)) | Inr T \<Rightarrow> (s\<lparr>st_tables := T\<rparr>, Inr ()))"
  by (simp add: execute_def split: sum.splits)

lemma fetch_ok: "st_outcomes s = [] \<Longrightarrow> fetch q s = (s, Inr (q (st_tables s)))"
  by (simp add: fetch_def)

end
