(* ===== verification/Redis.thy ===== *)
theory Redis
  imports Database
begin

text \<open>
  The Redis client of the payment service, a parameter of the model: the commands that
  \<open>idempotency.rs\<close>, \<open>queue.rs\<close> and \<open>realtime.rs\<close> issue, over a server state of any type,
  and the documented behaviour of the server that properties name as a hypothesis. An in-memory
  server at the end shows that the hypotheses can hold.
\<close>

section \<open>The commands the service issues\<close>

text \<open>
  Every command may fail; an error is its text. A stream entry is its id and its fields, each with
  the content of its value. The code does not read a value's content: it calls \<open>to_string\<close> on the
  \<open>redis::Value\<close>. What text that gives is the client's business, the parameter \<open>rd_value_text\<close>;
  nothing is assumed of it.
\<close>

type_synonym stream_entry = "string \<times> (string \<rightharpoonup> string)"

record 'r redis_client =
  rd_connect :: "('r, string, unit) io"
  rd_set_nx :: "string \<Rightarrow> string \<Rightarrow> ('r, string, bool) io"
  rd_expire :: "string \<Rightarrow> int \<Rightarrow> ('r, string, unit) io"
  rd_xadd :: "string \<Rightarrow> (string \<times> string) list \<Rightarrow> ('r, string, string) io"
  rd_xread :: "string \<Rightarrow> string \<Rightarrow> nat \<Rightarrow> nat \<Rightarrow> ('r, string, (string \<times> stream_entry list) list) io"
  rd_publish :: "string \<Rightarrow> string \<Rightarrow> ('r, string, int) io"
  rd_value_text :: "string \<Rightarrow> string"

section \<open>Keys that expire\<close>

text \<open>
  Of a server the contract speaks through two observations: its clock, in milliseconds, and the
  life of each key. A key was never set, or was set to stay, or was given a deadline; it is held
  while it has not passed its deadline.
\<close>

datatype key_life = Unset | Stays | Until timestamp

fun held_at :: "timestamp \<Rightarrow> key_life \<Rightarrow> bool" where
  "held_at t Unset = False"
| "held_at t Stays = True"
| "held_at t (Until d) = (t < d)"

lemma held_at_earlier: "held_at t x \<Longrightarrow> t' \<le> t \<Longrightarrow> held_at t' x"
  by (cases x) auto

text \<open>A life that ends \<open>ttl\<close> milliseconds after some moment between \<open>t\<close> and \<open>t'\<close>.\<close>

fun ends_after :: "timestamp \<Rightarrow> timestamp \<Rightarrow> nat \<Rightarrow> key_life \<Rightarrow> bool" where
  "ends_after t t' ttl (Until d) = (t + ttl \<le> d \<and> d \<le> t' + ttl)"
| "ends_after t t' ttl _ = False"

lemma ends_after_eq: "ends_after t t' ttl x \<longleftrightarrow> (\<exists>d. x = Until d \<and> t + ttl \<le> d \<and> d \<le> t' + ttl)"
  by (cases x) auto

lemma ends_after_wider: "ends_after t t' ttl x \<Longrightarrow> s \<le> t \<Longrightarrow> t' \<le> s' \<Longrightarrow> ends_after s s' ttl x"
  by (cases x) auto

section \<open>Documented behaviour\<close>

text \<open>
  Time passes, also while a command is under way: the server acts at some moment between the clock
  before and after. \<open>SETNX\<close> says whether it set the key: it does so exactly when the key is not held
  at that moment, and the key then stays until it is given a deadline. \<open>EXPIRE\<close> with a positive
  number of seconds gives a key that stays a deadline that many seconds later. When a reply is lost
  the command may or may not have acted. No command touches the life of another key, and connecting
  and publishing touch none.
\<close>

definition keys_ok :: "'r redis_client \<Rightarrow> ('r \<Rightarrow> timestamp) \<Rightarrow> ('r \<Rightarrow> string \<Rightarrow> key_life) \<Rightarrow> bool" where
  "keys_ok R clock life \<longleftrightarrow>
     (\<forall>r r' x. rd_connect R r = (r', x) \<longrightarrow> clock r \<le> clock r' \<and> life r' = life r) \<and>
     (\<forall>c m r r' x. rd_publish R c m r = (r', x) \<longrightarrow> clock r \<le> clock r' \<and> life r' = life r) \<and>
     (\<forall>k v r r' x. rd_set_nx R k v r = (r', x) \<longrightarrow> clock r \<le> clock r' \<and>
        (case x of
           Inr True \<Rightarrow> \<not> held_at (clock r') (life r k) \<and> life r' = (life r)(k := Stays)
         | Inr False \<Rightarrow> held_at (clock r) (life r k) \<and> life r' = life r
         | Inl _ \<Rightarrow> life r' = life r \<or>
             \<not> held_at (clock r') (life r k) \<and> life r' = (life r)(k := Stays))) \<and>
     (\<forall>k t r r' x. rd_expire R k t r = (r', x) \<longrightarrow> 0 < t \<longrightarrow> life r k = Stays \<longrightarrow> clock r \<le> clock r' \<and>
        (case x of
           Inr _ \<Rightarrow> (\<exists>y. ends_after (clock r) (clock r') (1000 * nat t) y \<and> life r' = (life r)(k := y))
         | Inl _ \<Rightarrow> life r' = life r \<or>
             (\<exists>y. ends_after (clock r) (clock r') (1000 * nat t) y \<and> life r' = (life r)(k := y))))"

lemma keys_ok_connect: "keys_ok R clock life \<Longrightarrow> rd_connect R r = (r', x) \<Longrightarrow> clock r \<le> clock r' \<and> life r' = life r"
  unfolding keys_ok_def by (drule conjunct1) blast

lemma keys_ok_publish: "keys_ok R clock life \<Longrightarrow> rd_publish R c m r = (r', x) \<Longrightarrow> clock r \<le> clock r' \<and> life r' = life r"
  unfolding keys_ok_def by (drule conjunct2, drule conjunct1) blast

lemma keys_ok_set_nx:
  assumes "keys_ok R clock life" and "rd_set_nx R k v r = (r', x)"
  shows "clock r \<le> clock r'"
    and "x = Inr True \<Longrightarrow> \<not> held_at (clock r') (life r k) \<and> life r' = (life r)(k := Stays)"
    and "x = Inr False \<Longrightarrow> held_at (clock r) (life r k) \<and> life r' = life r"
    and "x = Inl e \<Longrightarrow> life r' = life r \<or> \<not> held_at (clock r') (life r k) \<and> life r' = (life r)(k := Stays)"
proof -
  from assms(1) [unfolded keys_ok_def, THEN conjunct2, THEN conjunct2, THEN conjunct1] assms(2)
  have "clock r \<le> clock r' \<and>
        (case x of
           Inr True \<Rightarrow> \<not> held_at (clock r') (life r k) \<and> life r' = (life r)(k := Stays)
         | Inr False \<Rightarrow> held_at (clock r) (life r k) \<and> life r' = life r
         | Inl _ \<Rightarrow> life r' = life r \<or>
             \<not> held_at (clock r') (life r k) \<and> life r' = (life r)(k := Stays))"
    by blast
  then show "clock r \<le> clock r'"
    and "x = Inr True \<Longrightarrow> \<not> held_at (clock r') (life r k) \<and> life r' = (life r)(k := Stays)"
    and "x = Inr False \<Longrightarrow> held_at (clock r) (life r k) \<and> life r' = life r"
    and "x = Inl e \<Longrightarrow> life r' = life r \<or> \<not> held_at (clock r') (life r k) \<and> life r' = (life r)(k := Stays)"
    by simp_all
qed

lemma keys_ok_expire:
  assumes "keys_ok R clock life" and "rd_expire R k t r = (r', x)" and "0 < t" and "life r k = Stays"
  shows "clock r \<le> clock r'"
    and "x = Inr u \<Longrightarrow> \<exists>y. ends_after (clock r) (clock r') (1000 * nat t) y \<and> life r' = (life r)(k := y)"
    and "x = Inl e \<Longrightarrow> life r' = life r \<or>
           (\<exists>y. ends_after (clock r) (clock r') (1000 * nat t) y \<and> life r' = (life r)(k := y))"
proof -
  from assms(1) [unfolded keys_ok_def, THEN conjunct2, THEN conjunct2, THEN conjunct2] assms(2-4)
  have "clock r \<le> clock r' \<and>
        (case x of
           Inr _ \<Rightarrow> (\<exists>y. ends_after (clock r) (clock r') (1000 * nat t) y \<and> life r' = (life r)(k := y))
         | Inl _ \<Rightarrow> life r' = life r \<or>
             (\<exists>y. ends_after (clock r) (clock r') (1000 * nat t) y \<and> life r' = (life r)(k := y)))"
    by blast
  then show "clock r \<le> clock r'"
    and "x = Inr u \<Longrightarrow> \<exists>y. ends_after (clock r) (clock r') (1000 * nat t) y \<and> life r' = (life r)(k := y)"
    and "x = Inl e \<Longrightarrow> life r' = life r \<or>
           (\<exists>y. ends_after (clock r) (clock r') (1000 * nat t) y \<and> life r' = (life r)(k := y))"
    by simp_all
qed

section \<open>An in-memory server\<close>

text \<open>
  Keys with their deadlines, streams and published messages as lists, and a clock. It answers every
  command at once, so the hypotheses of the properties can be met: the witnesses use it. A value's
  text is its content in quotation marks, as an example of a rendering that is not the content.
\<close>

record memory_server =
  ms_clock :: timestamp
  ms_keys :: "(string \<times> key_life) list"
  ms_streams :: "(string \<times> stream_entry) list"
  ms_published :: "(string \<times> string) list"

definition empty_server :: memory_server where
  "empty_server = \<lparr>ms_clock = 0, ms_keys = [], ms_streams = [], ms_published = []\<rparr>"

definition memory_life :: "memory_server \<Rightarrow> string \<Rightarrow> key_life" where
  "memory_life r k = (case map_of (ms_keys r) k of None \<Rightarrow> Unset | Some x \<Rightarrow> x)"

definition memory_entries :: "string \<Rightarrow> memory_server \<Rightarrow> stream_entry list" where
  "memory_entries stream r = map snd (filter (\<lambda>(n, _). n = stream) (ms_streams r))"

definition memory_id :: "stream_entry list \<Rightarrow> string" where
  "memory_id es = replicate (4 + sum_list (map (\<lambda>e. length (fst e)) es)) CHR ''1''"

text \<open>The entries after a given id, where \<open>0-0\<close> is before the first one.\<close>

definition after_id :: "string \<Rightarrow> stream_entry list \<Rightarrow> stream_entry list" where
  "after_id last_id es =
     (if last_id = ''0-0'' then es else tl (dropWhile (\<lambda>(i, _). i \<noteq> last_id) es))"

text \<open>A reply lists the streams that have something to read: none when a read times out.\<close>

definition read_reply :: "string \<Rightarrow> stream_entry list \<Rightarrow> (string \<times> stream_entry list) list" where
  "read_reply stream es = (if es = [] then [] else [(stream, es)])"

definition memory_client :: "memory_server redis_client" where
  "memory_client =
     \<lparr>rd_connect = ret (),
      rd_set_nx = (\<lambda>k v r. if held_at (ms_clock r) (memory_life r k) then (r, Inr False)
                          else (r\<lparr>ms_keys := (k, Stays) # ms_keys r\<rparr>, Inr True)),
      rd_expire = (\<lambda>k t r.
         (if \<not> held_at (ms_clock r) (memory_life r k) then r
          else if 0 < t then r\<lparr>ms_keys := (k, Until (ms_clock r + 1000 * nat t)) # ms_keys r\<rparr>
          else r\<lparr>ms_keys := filter (\<lambda>(k', _). k' \<noteq> k) (ms_keys r)\<rparr>, Inr ())),
      rd_xadd = (\<lambda>stream fs r. let i = memory_id (memory_entries stream r) in
                   (r\<lparr>ms_streams := ms_streams r @ [(stream, i, map_of fs)]\<rparr>, Inr i)),
      rd_xread = (\<lambda>stream last_id block count r.
                   (r, Inr (read_reply stream (take count (after_id last_id (memory_entries stream r)))))),
      rd_publish = (\<lambda>c m r. (r\<lparr>ms_published := ms_published r @ [(c, m)]\<rparr>, Inr 1)),
      rd_value_text = (\<lambda>x. CHR 0x22 # x @ [CHR 0x22])\<rparr>"

lemma memory_keys_ok: "keys_ok memory_client ms_clock memory_life"
proof -
  have life: "memory_life (r\<lparr>ms_keys := (k, x) # ms_keys r\<rparr>) = (memory_life r)(k := x)" for r k x
    by (auto simp: memory_life_def fun_eq_iff)
  have frame: "memory_life (r\<lparr>ms_published := p\<rparr>) = memory_life r" for r p
    by (simp add: memory_life_def fun_eq_iff)
  show ?thesis
    unfolding keys_ok_def
    by (intro conjI) (auto simp: memory_client_def ret_def life frame ends_after_eq split: if_splits)
qed

end
