(* ===== verification/Idempotency.thy ===== *)
theory Idempotency
  imports Redis
begin

text \<open>
  The idempotency store (\<open>approach-1/crates/adapters/src/idempotency.rs\<close>): its interface as a
  locale, with what follows for any sequence of marks, and \<open>mark_if_absent\<close> on Redis as its
  implementation.
\<close>

section \<open>The operation\<close>

text \<open>\<open>ttl_seconds as i64\<close> reads the word as a signed value.\<close>

definition mark_if_absent :: "'r redis_client \<Rightarrow> string \<Rightarrow> u64 \<Rightarrow> ('r, app_error, bool) io" where
  "mark_if_absent R key ttl_seconds =
     io_map_err RedisError
       (io_bind (rd_connect R) (\<lambda>_.
        io_bind (rd_set_nx R key ''1'') (\<lambda>was_set.
        io_bind (if was_set then rd_expire R key (sint ttl_seconds) else ret ()) (\<lambda>_.
        ret was_set))))"

section \<open>The contract\<close>

text \<open>
  An answered mark says whether the key was new: it wins only if the key is not held, and then
  the key is held for \<open>ttl\<close> milliseconds; it loses only if the key is held, which it leaves as
  it is. A failed mark of a key that is not held may have set it, with or without its deadline. No
  mark touches another key.
\<close>

locale idempotency_store =
  fixes mark :: "string \<Rightarrow> ('s, 'e, bool) io"
    and clock :: "'s \<Rightarrow> timestamp"
    and life :: "'s \<Rightarrow> string \<Rightarrow> key_life"
    and ttl :: nat
    and inv :: "'s \<Rightarrow> bool"
  assumes mark_inv: "inv s \<Longrightarrow> mark k s = (s', x) \<Longrightarrow> inv s'"
    and mark_clock: "inv s \<Longrightarrow> mark k s = (s', x) \<Longrightarrow> clock s \<le> clock s'"
    and mark_others: "inv s \<Longrightarrow> mark k s = (s', x) \<Longrightarrow> k' \<noteq> k \<Longrightarrow> life s' k' = life s k'"
    and mark_wins: "inv s \<Longrightarrow> mark k s = (s', Inr True) \<Longrightarrow>
      \<not> held_at (clock s') (life s k) \<and> ends_after (clock s) (clock s') ttl (life s' k)"
    and mark_loses: "inv s \<Longrightarrow> mark k s = (s', Inr False) \<Longrightarrow>
      held_at (clock s) (life s k) \<and> life s' k = life s k"
    and mark_error: "inv s \<Longrightarrow> mark k s = (s', Inl e) \<Longrightarrow> life s' k = life s k \<or>
      \<not> held_at (clock s') (life s k) \<and>
        (life s' k = Stays \<or> ends_after (clock s) (clock s') ttl (life s' k))"

text \<open>A sequence of marks: the final state, and the answers in order.\<close>

fun mark_all :: "(string \<Rightarrow> ('s, 'e, bool) io) \<Rightarrow> string list \<Rightarrow> 's \<Rightarrow> 's \<times> ('e + bool) list" where
  "mark_all mark [] s = (s, [])"
| "mark_all mark (k # ks) s =
     (case mark k s of (s1, x) \<Rightarrow> case mark_all mark ks s1 of (s2, xs) \<Rightarrow> (s2, x # xs))"

definition wins :: "string \<Rightarrow> string list \<Rightarrow> ('e + bool) list \<Rightarrow> nat" where
  "wins k ks xs = length (filter (\<lambda>(k', x). k' = k \<and> x = Inr True) (zip ks xs))"

lemma wins_Nil [simp]: "wins k [] xs = 0"
  by (simp add: wins_def)

lemma wins_Cons [simp]: "wins k (k' # ks) (x # xs) = (if k' = k \<and> x = Inr True then 1 else 0) + wins k ks xs"
  by (simp add: wins_def)

lemma mark_all_Cons:
  assumes "mark_all mark (k # ks) s = (s', xs)"
  obtains s1 x ys where "mark k s = (s1, x)" "mark_all mark ks s1 = (s', ys)" "xs = x # ys"
  using assms by (auto split: prod.splits)

context idempotency_store
begin

lemma held_is_kept:
  assumes "inv s" and m: "mark k' s = (s', x)" and "held_at (clock s') (life s k)"
  shows "life s' k = life s k \<and> \<not> (k' = k \<and> x = Inr True)"
proof (cases "k' = k")
  case False
  with mark_others [OF assms(1) m, of k] show ?thesis by simp
next
  case True
  show ?thesis
  proof (cases x)
    case (Inl e)
    with True assms mark_error [of s k s' e] show ?thesis by auto
  next
    case (Inr b)
    with True assms mark_wins [of s k s'] mark_loses [of s k s'] show ?thesis by (cases b) auto
  qed
qed

lemma marks_clock: "inv s \<Longrightarrow> mark_all mark ks s = (s', xs) \<Longrightarrow> inv s' \<and> clock s \<le> clock s'"
proof (induction ks arbitrary: s xs)
  case Nil
  then show ?case by simp
next
  case (Cons k ks)
  from Cons.prems(2) obtain s1 x ys where m: "mark k s = (s1, x)" "mark_all mark ks s1 = (s', ys)"
    by (rule mark_all_Cons)
  from Cons.IH [OF mark_inv [OF Cons.prems(1) m(1)] m(2)] mark_clock [OF Cons.prems(1) m(1)]
  show ?case by simp
qed

text \<open>A key that is held to the end of a sequence is won by none of its marks.\<close>

lemma held_never_wins:
  "inv s \<Longrightarrow> mark_all mark ks s = (s', xs) \<Longrightarrow> held_at (clock s') (life s k) \<Longrightarrow>
     wins k ks xs = 0 \<and> life s' k = life s k"
proof (induction ks arbitrary: s xs)
  case Nil
  then show ?case by simp
next
  case (Cons k' ks)
  from Cons.prems(2) obtain s1 x ys where m: "mark k' s = (s1, x)" "mark_all mark ks s1 = (s', ys)" "xs = x # ys"
    by (rule mark_all_Cons)
  note i = mark_inv [OF Cons.prems(1) m(1)]
  from marks_clock [OF i m(2)] have "held_at (clock s1) (life s k)"
    using held_at_earlier [OF Cons.prems(3)] by simp
  from held_is_kept [OF Cons.prems(1) m(1) this]
  have k: "life s1 k = life s k" "\<not> (k' = k \<and> x = Inr True)" by simp_all
  from Cons.IH [OF i m(2)] Cons.prems(3) k m(3) show ?case by simp
qed

text \<open>A key without a deadline is never won again.\<close>

lemma staying_key_never_wins:
  "inv s \<Longrightarrow> mark_all mark ks s = (s', xs) \<Longrightarrow> life s k = Stays \<Longrightarrow> wins k ks xs = 0"
  using held_never_wins [of s ks s' xs k] by simp

text \<open>Within the life of a key at most one of its marks is told to go ahead.\<close>

lemma at_most_one_win:
  "inv s \<Longrightarrow> mark_all mark ks s = (s', xs) \<Longrightarrow> clock s' < clock s + ttl \<Longrightarrow> wins k ks xs \<le> 1"
proof (induction ks arbitrary: s xs)
  case Nil
  then show ?case by simp
next
  case (Cons k' ks)
  from Cons.prems(2) obtain s1 x ys where m: "mark k' s = (s1, x)" "mark_all mark ks s1 = (s', ys)" "xs = x # ys"
    by (rule mark_all_Cons)
  note i = mark_inv [OF Cons.prems(1) m(1)]
  show ?case
  proof (cases "k' = k \<and> x = Inr True")
    case True
    with mark_wins [of s k s1] Cons.prems(1,3) m(1) have "held_at (clock s') (life s1 k)"
      by (auto simp: ends_after_eq)
    from held_never_wins [OF i m(2) this] True m(3) show ?thesis by simp
  next
    case False
    with Cons.IH [OF i m(2)] Cons.prems(3) mark_clock [OF Cons.prems(1) m(1)] m(3) show ?thesis by auto
  qed
qed

text \<open>Once the life that a winning mark gave its key is over, the key can be won again.\<close>

lemma expired_key_wins:
  assumes "inv s" and "mark k s = (s1, Inr True)" and "inv s2" and "life s2 k = life s1 k"
    and "clock s1 + ttl \<le> clock s2" and "mark k s2 = (s3, Inr b)"
  shows b
proof (rule ccontr)
  assume "\<not> b"
  with mark_loses [OF assms(3), of k s3] assms(6) have "held_at (clock s2) (life s2 k)" by simp
  with mark_wins [OF assms(1,2)] assms(4,5) show False by (auto simp: ends_after_eq)
qed

end

section \<open>Redis implements it\<close>

lemma mark_if_absent_cases:
  assumes "mark_if_absent R k ttl r = (r', res)"
  obtains (no_connection) e where "rd_connect R r = (r', Inl e)" "res = Inl (RedisError e)"
    | (not_set) r1 e where "rd_connect R r = (r1, Inr ())" "rd_set_nx R k ''1'' r1 = (r', Inl e)"
        "res = Inl (RedisError e)"
    | (seen) r1 where "rd_connect R r = (r1, Inr ())" "rd_set_nx R k ''1'' r1 = (r', Inr False)"
        "res = Inr False"
    | (marked) r1 r2 x where "rd_connect R r = (r1, Inr ())" "rd_set_nx R k ''1'' r1 = (r2, Inr True)"
        "rd_expire R k (sint ttl) r2 = (r', x)" "res = map_sum RedisError (\<lambda>_. True) x"
proof -
  obtain r1 x1 where c: "rd_connect R r = (r1, x1)" by (cases "rd_connect R r")
  obtain r2 x2 where n: "rd_set_nx R k ''1'' r1 = (r2, x2)" by (cases "rd_set_nx R k ''1'' r1")
  obtain r3 x3 where x: "rd_expire R k (sint ttl) r2 = (r3, x3)"
    by (cases "rd_expire R k (sint ttl) r2")
  note d = mark_if_absent_def io_bind_def io_map_err_def ret_def
  show thesis
  proof (cases x1)
    case (Inl e)
    with assms c no_connection show thesis by (auto simp: d)
  next
    case u: (Inr u)
    show thesis
    proof (cases x2)
      case (Inl e)
      with assms c u n not_set show thesis by (auto simp: d)
    next
      case b: (Inr b)
      show thesis
      proof (cases b)
        case False
        with assms c u n b seen show thesis by (auto simp: d)
      next
        case True
        with assms c u n b x have "r' = r3" and "res = map_sum RedisError (\<lambda>_. True) x3"
          by (cases x3; simp add: d)+
        with c u n b x True marked show thesis by simp
      qed
    qed
  qed
qed

lemma expire_result:
  assumes K: "keys_ok R clock life" and x: "rd_expire R k t r = (r', x)" and "0 < t" and "life r k = Stays"
  shows "clock r \<le> clock r' \<and> (k' \<noteq> k \<longrightarrow> life r' k' = life r k') \<and>
    (x = Inr u \<longrightarrow> ends_after (clock r) (clock r') (1000 * nat t) (life r' k)) \<and>
    (life r' k = Stays \<or> ends_after (clock r) (clock r') (1000 * nat t) (life r' k))"
proof (cases x)
  case (Inl e)
  with keys_ok_expire [OF assms] assms(4) show ?thesis by fastforce
next
  case (Inr u')
  with keys_ok_expire(1,2) [OF assms] show ?thesis by fastforce
qed

text \<open>What a mark does to the keys, in one statement: the laws of the contract are its parts.\<close>

lemma mark_if_absent_contract:
  assumes K: "keys_ok R clock life" and pos: "0 < sint ttl" and m: "mark_if_absent R k ttl r = (r', res)"
  shows "clock r \<le> clock r' \<and> (k' \<noteq> k \<longrightarrow> life r' k' = life r k') \<and>
    (case res of
       Inr True \<Rightarrow> \<not> held_at (clock r') (life r k) \<and>
         ends_after (clock r) (clock r') (1000 * nat (sint ttl)) (life r' k)
     | Inr False \<Rightarrow> held_at (clock r) (life r k) \<and> life r' k = life r k
     | Inl _ \<Rightarrow> life r' k = life r k \<or> \<not> held_at (clock r') (life r k) \<and>
         (life r' k = Stays \<or> ends_after (clock r) (clock r') (1000 * nat (sint ttl)) (life r' k)))"
  using m
proof (cases rule: mark_if_absent_cases)
  case (no_connection e)
  from keys_ok_connect [OF K no_connection(1)] no_connection(2) show ?thesis by simp
next
  case (not_set r1 e)
  from keys_ok_connect [OF K not_set(1)] have 1: "clock r \<le> clock r1" "life r1 = life r" by simp_all
  from keys_ok_set_nx(1,4) [OF K not_set(2)] 1 not_set(3) show ?thesis by auto
next
  case (seen r1)
  from keys_ok_connect [OF K seen(1)] have 1: "clock r \<le> clock r1" "life r1 = life r" by simp_all
  from keys_ok_set_nx(1,3) [OF K seen(2)] 1 seen(3) show ?thesis by (auto intro: held_at_earlier)
next
  case (marked r1 r2 x)
  from keys_ok_connect [OF K marked(1)] have 1: "clock r \<le> clock r1" "life r1 = life r" by simp_all
  from keys_ok_set_nx(1,2) [OF K marked(2)] 1 have 2: "clock r1 \<le> clock r2"
    "\<not> held_at (clock r2) (life r k)" "life r2 = (life r)(k := Stays)" by simp_all
  then have "life r2 k = Stays" by simp
  note 3 = expire_result [OF K marked(3) pos this]
  from 2(2) 3 [of k' "()"] have gone: "\<not> held_at (clock r') (life r k)" by (auto dest: held_at_earlier)
  have e: "ends_after (clock r2) (clock r') n y \<Longrightarrow> ends_after (clock r) (clock r') n y" for n y
    using 1(1) 2(1) by (auto intro: ends_after_wider)
  show ?thesis
  proof (cases x)
    case (Inl err)
    with 1 2 3 [of k' "()"] gone e marked(4) show ?thesis by auto
  next
    case (Inr u)
    with 1 2 3 [of k' u] gone e marked(4) show ?thesis by auto
  qed
qed

text \<open>
  The worker marks with a life of 3600 seconds. The contract holds on every Redis that behaves as
  documented: that is the invariant of the interpretation.
\<close>

interpretation idem: idempotency_store
  "\<lambda>k. mark_if_absent R k 3600" clock life 3600000 "\<lambda>_. keys_ok R clock life"
  for R :: "'r redis_client" and clock life
proof unfold_locales
  fix s k s' x k'
  assume K: "keys_ok R clock life" and m: "mark_if_absent R k 3600 s = (s', x)"
  note c = mark_if_absent_contract [OF K _ m, simplified]
  show "keys_ok R clock life" by (rule K)
  from c show "clock s \<le> clock s'" by blast
  from c show "k' \<noteq> k \<Longrightarrow> life s' k' = life s k'" by blast
next
  fix s k s'
  assume K: "keys_ok R clock life"
  show "mark_if_absent R k 3600 s = (s', Inr True) \<Longrightarrow>
      \<not> held_at (clock s') (life s k) \<and> ends_after (clock s) (clock s') 3600000 (life s' k)"
    using mark_if_absent_contract [OF K, of 3600 k s s' "Inr True"] by simp
  show "mark_if_absent R k 3600 s = (s', Inr False) \<Longrightarrow> held_at (clock s) (life s k) \<and> life s' k = life s k"
    using mark_if_absent_contract [OF K, of 3600 k s s' "Inr False"] by simp
  show "mark_if_absent R k 3600 s = (s', Inl e) \<Longrightarrow> life s' k = life s k \<or>
      \<not> held_at (clock s') (life s k) \<and>
        (life s' k = Stays \<or> ends_after (clock s) (clock s') 3600000 (life s' k))" for e
    using mark_if_absent_contract [OF K, of 3600 k s s' "Inl e"] by simp
qed

text \<open>On the in-memory server a mark is this.\<close>

lemma memory_mark:
  "mark_if_absent memory_client k 3600 r =
     (if held_at (ms_clock r) (memory_life r k) then (r, Inr False)
      else (r\<lparr>ms_keys := (k, Until (ms_clock r + 3600000)) # (k, Stays) # ms_keys r\<rparr>, Inr True))"
  by (simp add: mark_if_absent_def io_bind_def io_map_err_def memory_client_def ret_def memory_life_def)

lemma memory_mark_answered: "\<exists>r' b. mark_if_absent memory_client k 3600 r = (r', Inr b)"
  by (auto simp: memory_mark)

text \<open>
  C9: On a Redis that behaves as documented, of all marks of one key that fall within less than an
  hour at most one is told to go ahead, however many there are, whatever other keys are marked
  in between, and also when some of the calls fail.
\<close>

theorem mark_if_absent_at_most_once:
  assumes "keys_ok R clock life"
    and "mark_all (\<lambda>k. mark_if_absent R k 3600) ks r = (r', answers)"
    and "clock r' < clock r + 3600 * 1000"
  shows "wins k ks answers \<le> 1"
  by (rule idem.at_most_one_win [OF assms(1,2)]) (use assms(3) in simp)

theorem mark_if_absent_at_most_once_witness:
  "wins ''a'' [''a'', ''b'', ''a'']
     (snd (mark_all (\<lambda>k. mark_if_absent memory_client k 3600) [''a'', ''b'', ''a''] empty_server)) \<le> 1"
proof -
  obtain r' answers where r: "mark_all (\<lambda>k. mark_if_absent memory_client k 3600) [''a'', ''b'', ''a''] empty_server
      = (r', answers)" by fastforce
  then have "ms_clock r' = ms_clock empty_server"
    by (auto simp: memory_mark split: if_splits)
  with mark_if_absent_at_most_once [OF memory_keys_ok r] r show ?thesis by simp
qed

text \<open>
  C22: The mark does expire: when an hour has passed since a mark of a key went ahead, and nobody
  has touched the key since, the next answered mark of it goes ahead again. A webhook that is
  redelivered after an hour is processed a second time.
\<close>

theorem expired_mark_goes_ahead_again:
  assumes "keys_ok R clock life"
    and "mark_if_absent R k 3600 r = (r1, Inr True)"
    and "life r2 k = life r1 k" and "clock r1 + 3600 * 1000 \<le> clock r2"
    and "mark_if_absent R k 3600 r2 = (r3, Inr b)"
  shows b
  by (rule idem.expired_key_wins [OF assms(1,2,1,3) _ assms(5)]) (use assms(4) in simp)

theorem expired_mark_goes_ahead_again_witness:
  "let (r1, x) = mark_if_absent memory_client ''a'' 3600 empty_server;
       (r3, y) = mark_if_absent memory_client ''a'' 3600 (r1\<lparr>ms_clock := 3600000\<rparr>)
   in x = Inr True \<and> y = Inr True"
proof -
  obtain r1 where 1: "mark_if_absent memory_client ''a'' 3600 empty_server = (r1, Inr True)" "ms_clock r1 = 0"
    by (auto simp: memory_mark empty_server_def memory_life_def)
  obtain r3 b where 2: "mark_if_absent memory_client ''a'' 3600 (r1\<lparr>ms_clock := 3600000\<rparr>) = (r3, Inr b)"
    using memory_mark_answered by blast
  have b
    by (rule expired_mark_goes_ahead_again [OF memory_keys_ok 1(1) _ _ 2]) (simp_all add: memory_life_def 1(2))
  with 1 2 show ?thesis by simp
qed

text \<open>
  C16: Setting the key and giving it its deadline are two commands. If the second one is lost before
  it acts, the mark fails, so the webhook is not processed; and since the key then stays, no later
  mark of it ever goes ahead, however much time passes, as long as nobody else touches the key.
\<close>

theorem interrupted_mark_blocks_key:
  assumes K: "keys_ok R clock life"
    and c: "rd_connect R r = (r1, Inr ())" and n: "rd_set_nx R k ''1'' r1 = (r2, Inr True)"
    and x: "rd_expire R k 3600 r2 = (r3, Inl e)" and lost: "life r3 = life r2"
    and later: "mark_all (\<lambda>k. mark_if_absent R k 3600) ks r3 = (r4, answers)"
  shows "mark_if_absent R k 3600 r = (r3, Inl (RedisError e)) \<and> wins k ks answers = 0"
proof -
  from keys_ok_set_nx(2) [OF K n] lost have "life r3 k = Stays" by simp
  from idem.staying_key_never_wins [OF K later this] c n x show ?thesis
    by (simp add: mark_if_absent_def io_bind_def io_map_err_def)
qed

text \<open>A Redis that answers everything but the deadlines.\<close>

definition forgetful_client :: "memory_server redis_client" where
  "forgetful_client = memory_client\<lparr>rd_expire := \<lambda>k t r. (r, Inl ''broken pipe'')\<rparr>"

lemma forgetful_keys_ok: "keys_ok forgetful_client ms_clock memory_life"
  using memory_keys_ok by (simp add: keys_ok_def forgetful_client_def)

theorem interrupted_mark_blocks_key_witness:
  "let (r3, x) = mark_if_absent forgetful_client ''a'' 3600 empty_server
   in x = Inl (RedisError ''broken pipe'') \<and>
      wins ''a'' [''a''] (snd (mark_all (\<lambda>k. mark_if_absent forgetful_client k 3600) [''a'']
        (r3\<lparr>ms_clock := 0\<rparr>))) = 0"
proof -
  let ?r2 = "empty_server\<lparr>ms_keys := [(''a'', Stays)]\<rparr>"
  have c: "rd_connect forgetful_client empty_server = (empty_server, Inr ())"
    and n: "rd_set_nx forgetful_client ''a'' ''1'' empty_server = (?r2, Inr True)"
    and x: "rd_expire forgetful_client ''a'' 3600 ?r2 = (?r2, Inl ''broken pipe'')"
    by (simp_all add: forgetful_client_def memory_client_def ret_def empty_server_def memory_life_def)
  have same: "?r2\<lparr>ms_clock := 0\<rparr> = ?r2" by (simp add: empty_server_def)
  from interrupted_mark_blocks_key [OF forgetful_keys_ok c n x refl prod.collapse [symmetric], of "[''a'']"] same
  show ?thesis by simp
qed

end
