(* ===== verification/Webhook_Queue.thy ===== *)
theory Webhook_Queue
  imports Redis
begin

text \<open>
  The webhook queue on a Redis stream and the publisher of confirmations
  (\<open>approach-1/crates/adapters/src/queue.rs\<close> and \<open>realtime.rs\<close>). Reading repeatedly from the
  last id seen returns the queued payloads in order, each once.
\<close>

section \<open>Operations\<close>

definition enqueue :: "'r redis_client \<Rightarrow> string \<Rightarrow> string \<Rightarrow> ('r, app_error, unit) io" where
  "enqueue R stream payload =
     io_map_err RedisError
       (io_bind (rd_connect R) (\<lambda>_.
        io_bind (rd_xadd R stream [(''payload'', payload)]) (\<lambda>_.
        ret ())))"

text \<open>
  The two nested loops of \<open>read_after\<close>: entries without a payload field are passed over, and the
  text handed on is what \<open>to_string\<close>, the argument \<open>render\<close>, makes of the field's value.
\<close>

fun entry_payloads :: "(string \<Rightarrow> string) \<Rightarrow> stream_entry list \<Rightarrow> (string \<times> string) list" where
  "entry_payloads render [] = []"
| "entry_payloads render ((i, fs) # es) =
     (case fs ''payload'' of
        Some payload \<Rightarrow> (i, render payload) # entry_payloads render es
      | None \<Rightarrow> entry_payloads render es)"

fun reply_payloads ::
  "(string \<Rightarrow> string) \<Rightarrow> (string \<times> stream_entry list) list \<Rightarrow> (string \<times> string) list" where
  "reply_payloads render [] = []"
| "reply_payloads render ((key, ids) # ks) = entry_payloads render ids @ reply_payloads render ks"

definition read_after ::
  "'r redis_client \<Rightarrow> string \<Rightarrow> string \<Rightarrow> nat \<Rightarrow> ('r, app_error, (string \<times> string) list) io" where
  "read_after R stream last_id count =
     io_map_err RedisError
       (io_bind (rd_connect R) (\<lambda>_.
        io_bind (rd_xread R stream last_id 1000 count) (\<lambda>reply.
        ret (reply_payloads (rd_value_text R) reply))))"

definition publish_payment_confirmed :: "'r redis_client \<Rightarrow> string \<Rightarrow> ('r, app_error, unit) io" where
  "publish_payment_confirmed R payload =
     io_map_err RedisError
       (io_bind (rd_connect R) (\<lambda>_.
        io_bind (rd_publish R ''payments.confirmed'' payload) (\<lambda>_.
        ret ())))"

section \<open>What a stream promises\<close>

text \<open>
  \<open>XADD\<close> appends an entry under a new id; \<open>XREAD\<close> with a positive \<open>count\<close> returns the next
  \<open>count\<close> entries after the given id, where \<open>0-0\<close> is before the first, and if there is none when
  the time to block is over, a reply without any stream. \<open>entries r\<close> are the entries of one stream. An
  \<open>XREAD\<close> changes nothing.
\<close>

definition stream_ok :: "'r redis_client \<Rightarrow> string \<Rightarrow> ('r \<Rightarrow> stream_entry list) \<Rightarrow> bool" where
  "stream_ok R stream entries \<longleftrightarrow>
     (\<forall>r. entries (fst (rd_connect R r)) = entries r) \<and>
     (\<forall>fs r r' i. rd_xadd R stream fs r = (r', Inr i) \<longrightarrow>
        i \<noteq> ''0-0'' \<and> i \<notin> fst ` set (entries r) \<and> entries r' = entries r @ [(i, map_of fs)]) \<and>
     (\<forall>last_id block count r r' res. rd_xread R stream last_id block count r = (r', res) \<longrightarrow>
        entries r' = entries r \<and>
        (\<forall>reply. res = Inr reply \<longrightarrow> 0 < count \<longrightarrow>
           reply = read_reply stream (take count (after_id last_id (entries r)))))"

text \<open>Every entry that the service writes has a payload field.\<close>

definition payload_of :: "(string \<Rightarrow> string) \<Rightarrow> stream_entry \<Rightarrow> string \<times> string" where
  "payload_of render e = (fst e, case snd e ''payload'' of None \<Rightarrow> [] | Some p \<Rightarrow> render p)"

definition all_payloads :: "stream_entry list \<Rightarrow> bool" where
  "all_payloads es \<longleftrightarrow> list_all (\<lambda>e. snd e ''payload'' \<noteq> None) es"

lemma entry_payloads_all: "all_payloads es \<Longrightarrow> entry_payloads render es = map (payload_of render) es"
  by (induction render es rule: entry_payloads.induct) (auto simp: all_payloads_def payload_of_def)

lemma reply_payloads_reply: "reply_payloads render (read_reply stream es) = entry_payloads render es"
  by (simp add: read_reply_def)

lemma after_id_subset: "set (after_id last_id es) \<subseteq> set es"
proof -
  have "set (tl (dropWhile P es)) \<subseteq> set es" for P
    by (metis list.sel(2) list.set_sel(2) set_dropWhileD subsetI)
  then show ?thesis by (simp add: after_id_def)
qed

lemma after_id_nth:
  "distinct (map fst es) \<Longrightarrow> n < length es \<Longrightarrow> fst (es ! n) \<noteq> ''0-0'' \<Longrightarrow>
     after_id (fst (es ! n)) es = drop (Suc n) es"
proof (induction es arbitrary: n)
  case Nil
  then show ?case by simp
next
  case (Cons e es)
  show ?case
  proof (cases n)
    case 0
    with Cons.prems show ?thesis by (auto simp: after_id_def split: prod.splits)
  next
    case (Suc m)
    with Cons.prems have "es ! m \<in> set es" by simp
    with Cons.prems Suc have "fst e \<noteq> fst (es ! m)" by auto
    with Cons Suc show ?thesis by (auto simp: after_id_def split: prod.splits)
  qed
qed

lemma enqueue_appends:
  assumes S: "stream_ok R stream entries" and e: "enqueue R stream payload r = (r', Inr ())"
  shows "\<exists>i fs. i \<noteq> ''0-0'' \<and> i \<notin> fst ` set (entries r) \<and> fs ''payload'' = Some payload \<and>
           entries r' = entries r @ [(i, fs)]"
proof -
  obtain r1 where c: "rd_connect R r = (r1, Inr ())"
    using e by (cases "rd_connect R r"; cases "snd (rd_connect R r)")
      (auto simp: enqueue_def io_map_err_def io_bind_def)
  obtain i where x: "rd_xadd R stream [(''payload'', payload)] r1 = (r', Inr i)"
    using e c by (cases "rd_xadd R stream [(''payload'', payload)] r1"; cases "snd (rd_xadd R stream [(''payload'', payload)] r1)")
      (auto simp: enqueue_def io_map_err_def io_bind_def ret_def)
  from S have "entries (fst (rd_connect R r)) = entries r" unfolding stream_ok_def by blast
  with c have "entries r1 = entries r" by simp
  with S x have "i \<noteq> ''0-0'' \<and> i \<notin> fst ` set (entries r) \<and>
      entries r' = entries r @ [(i, map_of [(''payload'', payload)])]"
    unfolding stream_ok_def by metis
  then show ?thesis by auto
qed

lemma read_after_reads:
  assumes S: "stream_ok R stream entries" and a: "all_payloads (entries r)"
    and m: "read_after R stream last_id count r = (r', res)" and "0 < count"
  shows "entries r' = entries r \<and> (\<forall>out. res = Inr out \<longrightarrow>
    out = map (payload_of (rd_value_text R)) (take count (after_id last_id (entries r))))"
proof -
  obtain r1 x1 where c: "rd_connect R r = (r1, x1)" by (cases "rd_connect R r")
  from S have "entries (fst (rd_connect R r)) = entries r" unfolding stream_ok_def by blast
  with c have 1: "entries r1 = entries r" by simp
  obtain r2 x2 where x: "rd_xread R stream last_id 1000 count r1 = (r2, x2)"
    by (cases "rd_xread R stream last_id 1000 count r1")
  with S \<open>0 < count\<close> have 2: "entries r2 = entries r1 \<and> (\<forall>reply. x2 = Inr reply \<longrightarrow>
      reply = read_reply stream (take count (after_id last_id (entries r1))))"
    unfolding stream_ok_def by blast
  have "set (take count (after_id last_id (entries r))) \<subseteq> set (entries r)"
    using set_take_subset after_id_subset by (rule subset_trans)
  with a have p: "all_payloads (take count (after_id last_id (entries r)))"
    by (auto simp: all_payloads_def list_all_iff)
  show ?thesis
    using m c x 1 2
    by (cases x1; cases x2)
      (auto simp: read_after_def io_map_err_def io_bind_def ret_def reply_payloads_reply entry_payloads_all [OF p])
qed

text \<open>The in-memory server's stream behaves as documented.\<close>

lemma id_shorter_than_sum: "i \<in> fst ` set es \<Longrightarrow> length i \<le> sum_list (map (\<lambda>e. length (fst e)) (es :: stream_entry list))"
proof (induction es)
  case Nil
  then show ?case by simp
next
  case (Cons e es)
  from Cons.prems consider "i = fst e" | "i \<in> fst ` set es" by auto
  then show ?case by cases (use Cons.IH in simp_all)
qed

lemma memory_id_not_start: "memory_id es \<noteq> ''0-0''"
  by (auto simp: memory_id_def dest: arg_cong [where f = length])

lemma memory_id_fresh: "memory_id (memory_entries stream r) \<notin> fst ` set (memory_entries stream r)"
  using id_shorter_than_sum [of "memory_id (memory_entries stream r)" "memory_entries stream r"]
  by (auto simp: memory_id_def)

lemma memory_stream_ok: "stream_ok memory_client stream (memory_entries stream)"
proof -
  have new: "memory_entries stream (r\<lparr>ms_streams := ms_streams r @ [(stream, e)]\<rparr>) = memory_entries stream r @ [e]"
    for r e by (simp add: memory_entries_def)
  show ?thesis
    using memory_id_fresh [of stream]
    by (auto simp: stream_ok_def memory_client_def ret_def Let_def memory_id_not_start new)
qed

end
