(* ===== verification/Worker.thy ===== *)
theory Worker
  imports Repository Idempotency Webhook_Queue
begin

text \<open>
  The worker (\<open>approach-1/apps/worker/src/main.rs\<close>): handling one webhook, the processing loop
  over the queue and the reconciliation of pending payments.
\<close>

section \<open>State\<close>

text \<open>The database, the Redis server, and the messages sent to the WebSocket broadcast channel.\<close>

record 'r world =
  w_store :: store
  w_redis :: 'r
  w_ws :: "string list"

definition on_store :: "(store, 'e, 'a) io \<Rightarrow> ('r world, 'e, 'a) io" where
  "on_store m = zoom w_store (\<lambda>s w. w\<lparr>w_store := s\<rparr>) m"

definition on_redis :: "('r, 'e, 'a) io \<Rightarrow> ('r world, 'e, 'a) io" where
  "on_redis m = zoom w_redis (\<lambda>r w. w\<lparr>w_redis := r\<rparr>) m"

abbreviation w_tables :: "'r world \<Rightarrow> tables" where
  "w_tables w \<equiv> st_tables (w_store w)"

section \<open>One webhook\<close>

definition idem_key :: "string \<Rightarrow> string \<Rightarrow> string" where
  "idem_key gateway event_id = ''idemp:webhook:'' @ gateway @ '':'' @ event_id"

definition handle_event ::
  "(nat \<Rightarrow> uuid) \<Rightarrow> 'r redis_client \<Rightarrow> event_codec \<Rightarrow> string \<Rightarrow> ('r world, app_error, unit) io" where
  "handle_event v4 R C payload =
     io_bind (io_lift (map_sum JsonError id (ec_from_str C payload))) (\<lambda>event.
     io_bind (on_redis (mark_if_absent R (idem_key (ev_gateway event) (ev_event_id event)) 3600))
       (\<lambda>should_process.
     if \<not> should_process then ret ()
     else io_bind (on_store (log_transaction v4 C event)) (\<lambda>_.
       if ev_status event = PaymentSuccess
       then io_bind (on_store (mark_payment_success (ev_payment_id event) (ev_order_id event)))
              (\<lambda>_. on_redis (publish_payment_confirmed R payload))
       else ret ())))"

section \<open>The processing loop\<close>

text \<open>
  One pass over a batch: a failed event is logged and passed over, and \<open>last_id\<close> moves on in
  either case. The function returns the outcomes too, so that properties can name them.
\<close>

fun process_events ::
  "(nat \<Rightarrow> uuid) \<Rightarrow> 'r redis_client \<Rightarrow> event_codec \<Rightarrow> (string \<times> string) list \<Rightarrow> string \<Rightarrow>
     'r world \<Rightarrow> 'r world \<times> string \<times> (app_error + unit) list" where
  "process_events v4 R C [] last_id w = (w, last_id, [])"
| "process_events v4 R C ((stream_id, payload) # events) last_id w =
     (case handle_event v4 R C payload w of (w1, res) \<Rightarrow>
      case process_events v4 R C events stream_id w1 of (w2, last_id', rs) \<Rightarrow>
        (w2, last_id', res # rs))"

text \<open>One turn of the endless loop of \<open>process_webhooks\<close>, from and to \<open>last_id\<close>.\<close>

definition process_turn ::
  "(nat \<Rightarrow> uuid) \<Rightarrow> 'r redis_client \<Rightarrow> event_codec \<Rightarrow> 'r world \<times> string \<Rightarrow> 'r world \<times> string" where
  "process_turn v4 R C wl =
     (let (w, last_id) = wl in
      case on_redis (read_after R ''stream:webhooks'' last_id 50) w of
        (w1, Inr events) \<Rightarrow>
          (let (w2, last_id', _) = process_events v4 R C events last_id w1 in (w2, last_id'))
      | (w1, Inl _) \<Rightarrow> (w1, last_id))"

text \<open>The loop starts before the first entry.\<close>

definition initial_last_id :: string where
  "initial_last_id = ''0-0''"

section \<open>Reconciliation\<close>

fun reconcile_rows ::
  "(nat \<Rightarrow> uuid) \<Rightarrow> (uuid \<Rightarrow> string) \<Rightarrow> (uuid \<times> uuid \<times> string) list \<Rightarrow> (store, app_error, unit) io" where
  "reconcile_rows v4 show_uuid [] = ret ()"
| "reconcile_rows v4 show_uuid ((payment_id, order_id, gateway) # rest) =
     io_bind (mark_payment_success payment_id order_id) (\<lambda>_.
     io_bind (insert_settlement v4 show_uuid payment_id gateway 100) (\<lambda>_.
     reconcile_rows v4 show_uuid rest))"

definition reconcile_once ::
  "(nat \<Rightarrow> uuid) \<Rightarrow> (uuid \<Rightarrow> string) \<Rightarrow> (store, app_error, unit) io" where
  "reconcile_once v4 show_uuid =
     io_bind pending_payments (\<lambda>pending. reconcile_rows v4 show_uuid pending)"

section \<open>What the worker conforms to\<close>

lemma on_store_conforms: "conforms (via st_tables Q) m \<Longrightarrow> conforms (via w_tables Q) (on_store m)"
  unfolding on_store_def by (rule conforms_zoom) (simp add: conforms_def)

context table_preorder
begin

lemma world_preorder: "effect_preorder (via w_tables Q)"
  by unfold_locales (auto intro: Q_refl Q_trans)

lemmas world_rules = effect_preorder.conforms_combinators [OF world_preorder]

lemma on_redis_conforms: "conforms (via w_tables Q) (on_redis m)"
  unfolding on_redis_def by (rule conforms_zoom) (simp add: Q_refl)

end

context repository_contract
begin

lemma handle_event_conforms: "conforms (via w_tables Q) (handle_event v4 R C payload)"
  unfolding handle_event_def
  by (intro world_rules on_redis_conforms on_store_conforms repository_conforms)

lemma process_events_conforms:
  "process_events v4 R C events l w = (w', l', rs) \<Longrightarrow> via w_tables Q w w'"
proof (induction events arbitrary: l w w' l' rs)
  case Nil
  then show ?case by (simp add: Q_refl)
next
  case (Cons e events)
  obtain sid payload where e: "e = (sid, payload)" by (cases e)
  obtain w1 res where h: "handle_event v4 R C payload w = (w1, res)"
    by (cases "handle_event v4 R C payload w")
  obtain w2 l2 rs2 where p: "process_events v4 R C events sid w1 = (w2, l2, rs2)"
    by (cases "process_events v4 R C events sid w1")
  from conforms_run [OF handle_event_conforms h] have "via w_tables Q w w1" .
  from Q_trans [OF this Cons.IH [OF p]] Cons.prems e h p show ?case by simp
qed

lemma process_turn_conforms: "via w_tables Q w (fst (process_turn v4 R C (w, l)))"
proof -
  obtain w1 res where r: "on_redis (read_after R ''stream:webhooks'' l 50) w = (w1, res)"
    by (cases "on_redis (read_after R ''stream:webhooks'' l 50) w")
  from conforms_run [OF on_redis_conforms this] have 1: "via w_tables Q w w1" .
  show ?thesis
  proof (cases res)
    case (Inl e)
    with r 1 show ?thesis by (simp add: process_turn_def)
  next
    case (Inr events)
    obtain w2 l2 rs where p: "process_events v4 R C events l w1 = (w2, l2, rs)"
      by (cases "process_events v4 R C events l w1")
    from Q_trans [OF 1 process_events_conforms [OF p]] r Inr p show ?thesis by (simp add: process_turn_def)
  qed
qed

lemma reconcile_rows_conforms: "conforms (via st_tables Q) (reconcile_rows v4 sh rows)"
  by (induction v4 sh rows rule: reconcile_rows.induct)
    (auto intro!: store_rules repository_conforms)

lemma reconcile_once_conforms: "conforms (via st_tables Q) (reconcile_once v4 sh)"
  unfolding reconcile_once_def
  by (intro store_rules pending_payments_conforms reconcile_rows_conforms)

end

abbreviation world_step :: "'r world \<Rightarrow> 'r world \<Rightarrow> bool" where
  "world_step \<equiv> via w_tables sound_step"

section \<open>One webhook, case by case\<close>

text \<open>What is done for an event whose key was new.\<close>

definition handle_new_event ::
  "(nat \<Rightarrow> uuid) \<Rightarrow> 'r redis_client \<Rightarrow> event_codec \<Rightarrow> string \<Rightarrow> webhook_event \<Rightarrow>
     ('r world, app_error, unit) io" where
  "handle_new_event v4 R C payload event =
     io_bind (on_store (log_transaction v4 C event)) (\<lambda>_.
       if ev_status event = PaymentSuccess
       then io_bind (on_store (mark_payment_success (ev_payment_id event) (ev_order_id event)))
              (\<lambda>_. on_redis (publish_payment_confirmed R payload))
       else ret ())"

abbreviation ev_key :: "webhook_event \<Rightarrow> string" where
  "ev_key event \<equiv> idem_key (ev_gateway event) (ev_event_id event)"

lemma handle_event_bad_json:
  "ec_from_str C payload = Inl e \<Longrightarrow> handle_event v4 R C payload w = (w, Inl (JsonError e))"
  by (simp add: handle_event_def io_bind_def io_lift_def)

lemma handle_event_marked:
  assumes "ec_from_str C payload = Inr event"
    and "mark_if_absent R (ev_key event) 3600 (w_redis w) = (r, m)"
  shows "handle_event v4 R C payload w =
    (case m of
       Inl e \<Rightarrow> (w\<lparr>w_redis := r\<rparr>, Inl e)
     | Inr b \<Rightarrow> if b then handle_new_event v4 R C payload event (w\<lparr>w_redis := r\<rparr>)
               else (w\<lparr>w_redis := r\<rparr>, Inr ()))"
  using assms
  by (cases m) (auto simp: handle_event_def handle_new_event_def io_bind_def io_lift_def
      on_redis_def zoom_def ret_def)

lemma mark_result_error: "mark_if_absent R k t r = (r', Inl e) \<Longrightarrow> \<exists>x. e = RedisError x"
  by (auto simp: mark_if_absent_def io_map_err_def map_sum_eq_Inl split: prod.splits)

lemma on_store_run:
  "on_store m w = (case m (w_store w) of (s, r) \<Rightarrow> (w\<lparr>w_store := s\<rparr>, r))"
  by (simp add: on_store_def zoom_def)

lemma on_redis_run:
  "on_redis m w = (case m (w_redis w) of (s, r) \<Rightarrow> (w\<lparr>w_redis := s\<rparr>, r))"
  by (simp add: on_redis_def zoom_def)

section \<open>Webhooks that are delivered again\<close>

text \<open>What is done for a new event touches no key: time passes.\<close>

definition passes :: "('r \<Rightarrow> timestamp) \<Rightarrow> ('r \<Rightarrow> string \<Rightarrow> key_life) \<Rightarrow> 'r world \<Rightarrow> 'r world \<Rightarrow> bool" where
  "passes clock life w w' \<longleftrightarrow>
     clock (w_redis w) \<le> clock (w_redis w') \<and> life (w_redis w') = life (w_redis w)"

interpretation ps: effect_preorder "passes clock life" for clock :: "'r \<Rightarrow> timestamp" and life
  by unfold_locales (auto simp: passes_def)

lemma on_store_passes: "conforms (passes clock life) (on_store m)"
  unfolding on_store_def by (rule conforms_zoom) (simp add: passes_def)

lemma publish_passes:
  assumes K: "keys_ok R clock life"
  shows "clock r \<le> clock (fst (publish_payment_confirmed R payload r)) \<and>
    life (fst (publish_payment_confirmed R payload r)) = life r"
proof -
  obtain r1 x where c: "rd_connect R r = (r1, x)" by (cases "rd_connect R r")
  obtain r2 y where p: "rd_publish R ''payments.confirmed'' payload r1 = (r2, y)"
    by (cases "rd_publish R ''payments.confirmed'' payload r1")
  from keys_ok_connect [OF K c] keys_ok_publish [OF K p] c p show ?thesis
    by (cases x; cases y)
      (auto simp: publish_payment_confirmed_def io_map_err_def io_bind_def ret_def)
qed

lemma handle_new_event_passes:
  assumes "keys_ok R clock life"
  shows "conforms (passes clock life) (handle_new_event v4 R C payload event)"
proof -
  have "conforms (passes clock life) (on_redis (publish_payment_confirmed R payload))"
    unfolding on_redis_def by (rule conforms_zoom) (use publish_passes [OF assms] in \<open>simp add: passes_def\<close>)
  then show ?thesis
    unfolding handle_new_event_def by (intro ps.conforms_combinators on_store_passes)
qed

text \<open>
  A webhook whose key is held until its handling is over is skipped, whatever its content: the
  database is untouched and nothing is published, and the handler reports success, or the Redis
  failure that kept it from asking.
\<close>

lemma redelivery_no_effect:
  assumes K: "keys_ok R clock life" and d: "ec_from_str C payload = Inr event"
    and h: "handle_event v4 R C payload w = (w', res)"
    and k: "held_at (clock (w_redis w')) (life (w_redis w) (ev_key event))"
  shows "w_store w' = w_store w \<and> w_ws w' = w_ws w \<and> life (w_redis w') (ev_key event) = life (w_redis w) (ev_key event) \<and>
    (res = Inr () \<or> (\<exists>e. res = Inl (RedisError e)))"
proof -
  obtain r m where m: "mark_if_absent R (ev_key event) 3600 (w_redis w) = (r, m)"
    by fastforce
  note h' = h [unfolded handle_event_marked [OF d m]]
  have "clock r \<le> clock (w_redis w')"
  proof (cases "m = Inr True")
    case True
    with h' have "handle_new_event v4 R C payload event (w\<lparr>w_redis := r\<rparr>) = (w', res)" by simp
    from conforms_run [OF handle_new_event_passes [OF K] this] show ?thesis by (simp add: passes_def)
  next
    case False
    with h' show ?thesis by (auto split: sum.splits)
  qed
  with k have "held_at (clock r) (life (w_redis w) (ev_key event))" by (rule held_at_earlier)
  from idem.held_is_kept [OF K m this]
  have kept: "life r (ev_key event) = life (w_redis w) (ev_key event)" and "m \<noteq> Inr True" by simp_all
  show ?thesis
  proof (cases m)
    case (Inl e)
    with mark_result_error m obtain x where "e = RedisError x" by fast
    with h' Inl kept show ?thesis by clarsimp
  next
    case (Inr b)
    with \<open>m \<noteq> Inr True\<close> h' kept show ?thesis by clarsimp
  qed
qed

text \<open>
  A handling that fails, and not on Redis, has won the mark of its key, which is held for the
  next hour.
\<close>

lemma failed_handling_holds_key:
  assumes K: "keys_ok R clock life" and d: "ec_from_str C payload = Inr event"
    and h: "handle_event v4 R C payload w = (w', Inl err)" and err: "\<And>x. err \<noteq> RedisError x"
  shows "ends_after (clock (w_redis w)) (clock (w_redis w')) 3600000 (life (w_redis w') (ev_key event))"
proof -
  obtain r m where m: "mark_if_absent R (ev_key event) 3600 (w_redis w) = (r, m)" by fastforce
  note h' = h [unfolded handle_event_marked [OF d m]]
  have True: "m = Inr True"
  proof (cases m)
    case (Inl e)
    with mark_result_error m obtain x where "e = RedisError x" by fast
    with h' Inl err [of x] show ?thesis by auto
  next
    case (Inr b)
    with h' show ?thesis by (cases b) simp_all
  qed
  with h' have n: "handle_new_event v4 R C payload event (w\<lparr>w_redis := r\<rparr>) = (w', Inl err)" by simp
  from conforms_run [OF handle_new_event_passes [OF K] n]
  have "clock r \<le> clock (w_redis w')" and "life (w_redis w') = life r" by (simp_all add: passes_def)
  with idem.mark_wins [OF K m [unfolded True]] show ?thesis by (auto intro: ends_after_wider)
qed


section \<open>Webhooks on the program's database\<close>

text \<open>
  The migrations create no cast from \<open>text\<close> to \<open>jsonb\<close>, so the insertion into \<open>transactions\<close> is
  always refused: \<open>log_transaction\<close> fails, and what comes after it in \<open>handle_event\<close> is never
  reached.
\<close>

lemma execute_refused:
  assumes "\<And>now T. q now T = Inl e" and "execute q s = (s', x)"
  shows "st_tables s' = st_tables s \<and> st_cast s' = st_cast s \<and> (\<exists>e'. x = Inl (DbError e'))"
proof -
  obtain f s1 where n: "next_outcome s = (f, s1)" by (cases "next_outcome s")
  from assms(2) n next_outcomeD [OF n] next_outcome_cast [OF n] show ?thesis
    by (auto simp: execute_def assms(1) split: if_splits)
qed

lemma log_transaction_refused:
  assumes cast: "st_cast s = None" and l: "log_transaction v4 C event s = (s', x)"
  shows "st_tables s' = st_tables s \<and> st_cast s' = None \<and> (\<exists>e. x = Inl e \<and> (\<forall>r. e \<noteq> RedisError r))"
proof (cases "ec_to_string C event")
  case (Inl e)
  with assms show ?thesis
    by (auto simp: log_transaction_def io_bind_def new_v4_def io_lift_def)
next
  case (Inr raw)
  let ?q = "insert_transaction None (v4 (st_drawn s)) (ev_payment_id event) (ev_gateway event)
    (ev_gateway_txn_id event) (ev_event_id event) (payment_status_str (ev_status event)) raw"
  have refused: "?q now T = Inl (DatatypeMismatch ''raw_payload'')" for now T
    by (simp add: insert_transaction_def typed_inserts)
  from Inr assms have "execute ?q (s\<lparr>st_drawn := Suc (st_drawn s)\<rparr>) = (s', x)"
    by (simp add: log_transaction_def io_bind_def new_v4_def io_lift_def io_gets_def)
  from execute_refused [OF refused this] cast show ?thesis by auto
qed

lemma new_event_refused:
  assumes cast: "st_cast (w_store w) = None"
    and h: "handle_new_event v4 R C payload event w = (w', x)"
  shows "w_tables w' = w_tables w \<and> st_cast (w_store w') = None \<and> w_redis w' = w_redis w \<and> w_ws w' = w_ws w \<and>
    (\<exists>e. x = Inl e \<and> (\<forall>r. e \<noteq> RedisError r))"
proof -
  obtain s1 y where l: "log_transaction v4 C event (w_store w) = (s1, y)"
    by (cases "log_transaction v4 C event (w_store w)")
  from log_transaction_refused [OF cast l] h l show ?thesis
    by (auto simp: handle_new_event_def io_bind_def on_store_run)
qed

lemma handle_event_refused:
  assumes cast: "st_cast (w_store w) = None" and h: "handle_event v4 R C payload w = (w', x)"
  shows "w_tables w' = w_tables w \<and> st_cast (w_store w') = None \<and> w_ws w' = w_ws w \<and>
    (w_redis w' = w_redis w \<or> (\<exists>k. w_redis w' = fst (mark_if_absent R k 3600 (w_redis w))))"
proof (cases "ec_from_str C payload")
  case (Inl e)
  from h [unfolded handle_event_bad_json [OF this]] cast show ?thesis by auto
next
  case (Inr event)
  obtain r m where m: "mark_if_absent R (ev_key event) 3600 (w_redis w) = (r, m)" by fastforce
  note h' = h [unfolded handle_event_marked [OF Inr m]]
  have red: "r = fst (mark_if_absent R (ev_key event) 3600 (w_redis w))" using m by simp
  show ?thesis
  proof (cases "m = Inr True")
    case True
    with h' have "handle_new_event v4 R C payload event (w\<lparr>w_redis := r\<rparr>) = (w', x)" by simp
    from new_event_refused [OF _ this] cast red show ?thesis by auto
  next
    case False
    with h' have "w' = w\<lparr>w_redis := r\<rparr>" by (auto split: sum.splits)
    with cast red show ?thesis by auto
  qed
qed

text \<open>
  C28: On a database as the migrations make it, handling a webhook never has an effect, whatever its
  content and whichever calls fail: no table changes, so no payment is recorded and no order is paid,
  and nothing is sent to the WebSocket clients or published. On Redis nothing is done but the mark of
  one key.
\<close>

theorem webhooks_never_pay:
  assumes "st_cast (w_store w) = None" and "handle_event v4 R C payload w = (w', res)"
  shows "w_tables w' = w_tables w \<and> w_ws w' = w_ws w \<and>
    (w_redis w' = w_redis w \<or> (\<exists>key. w_redis w' = fst (mark_if_absent R key 3600 (w_redis w))))"
  using handle_event_refused [OF assms] by blast

lemma refused_exactly:
  assumes d: "ec_from_str C payload = Inr event" and j: "ec_to_string C event = Inr raw"
    and m: "mark_if_absent R (ev_key event) 3600 (w_redis w) = (r, Inr True)"
    and ok: "st_outcomes (w_store w) = []" and cast: "st_cast (w_store w) = None"
  shows "handle_event v4 R C payload w =
    (w\<lparr>w_redis := r, w_store := (w_store w)\<lparr>st_drawn := Suc (st_drawn (w_store w))\<rparr>\<rparr>,
     Inl (DbError (DatatypeMismatch ''raw_payload'')))"
  using ok cast
  by (simp add: handle_event_marked [OF d m] handle_new_event_def io_bind_def on_store_run
      log_transaction_def new_v4_def io_lift_def io_gets_def j execute_ok insert_transaction_def typed_inserts)

text \<open>
  C8: On a database as the migrations make it, a webhook that can be read and whose key is new is
  refused when its text is bound to the \<open>jsonb\<close> column, with every call answered: the handler fails with
  that error, and all that is left is a UUID drawn and the key set, so that a redelivery of the
  webhook is taken for a duplicate.
\<close>

theorem new_webhook_is_refused:
  assumes "ec_from_str C payload = Inr event" and "ec_to_string C event = Inr raw"
    and "mark_if_absent R (ev_key event) 3600 (w_redis w) = (r, Inr True)"
    and "st_outcomes (w_store w) = []" and "st_cast (w_store w) = None"
  shows "handle_event v4 R C payload w =
    (w\<lparr>w_redis := r, w_store := (w_store w)\<lparr>st_drawn := Suc (st_drawn (w_store w))\<rparr>\<rparr>,
     Inl (DbError (DatatypeMismatch ''raw_payload'')))"
  using assms by (rule refused_exactly)

section \<open>A sample state\<close>

text \<open>
  The order, payment and webhook of the README's walk-through, for the witnesses: order 1 with
  payment 2, both pending, and a SUCCESS event for them.
\<close>

definition sample_event :: webhook_event where
  "sample_event = \<lparr>ev_event_id = ''evt_1'', ev_gateway = ''Razorpay'', ev_order_id = 1,
     ev_payment_id = 2, ev_gateway_txn_id = ''txn_1'', ev_status = PaymentSuccess,
     ev_amount = 45000, ev_signature = ''Razorpay:dev-secret'', ev_occurred_at = 0\<rparr>"

definition sample_codec :: "webhook_event \<Rightarrow> event_codec" where
  "sample_codec event = \<lparr>ec_to_string = (\<lambda>_. Inr ''{}''), ec_from_str = (\<lambda>_. Inr event)\<rparr>"

definition sample_tables :: tables where
  "sample_tables =
     \<lparr>orders = [\<lparr>o_id = 1, o_user_id = ''u1'', o_amount = 45000, o_currency = ''INR'',
        o_status = ''PENDING'', o_created_at = 0, o_updated_at = 0\<rparr>],
      payments = [\<lparr>p_id = 2, p_order_id = 1, p_gateway = ''Razorpay'', p_method = ''UPI'',
        p_checkout_url = ''https://mock-razorpay.example/checkout'', p_status = ''PENDING'',
        p_created_at = 1, p_updated_at = 1\<rparr>],
      transactions = [], settlements = []\<rparr>"

definition sample_v4 :: "nat \<Rightarrow> uuid" where
  "sample_v4 n = of_nat (n + 100)"

definition sample_world :: "io_outcome list \<Rightarrow> (string \<times> key_life) list \<Rightarrow> memory_server world" where
  "sample_world outcomes ks =
     \<lparr>w_store = \<lparr>st_tables = sample_tables, st_now = 7, st_cast = None, st_outcomes = outcomes, st_drawn = 0\<rparr>,
      w_redis = \<lparr>ms_clock = 0, ms_keys = ks, ms_streams = [], ms_published = []\<rparr>, w_ws = []\<rparr>"

lemma sample_codec_simps [simp]:
  "ec_from_str (sample_codec event) payload = Inr event"
  "ec_to_string (sample_codec event) event' = Inr ''{}''"
  by (simp_all add: sample_codec_def)

lemma sample_tables_ok: "tables_ok sample_tables"
  by (simp add: tables_ok_defs sample_tables_def)

lemmas sample_defs = sample_event_def sample_tables_def sample_v4_def sample_world_def

lemma sample_mark:
  "mark_if_absent memory_client (ev_key event) 3600 (w_redis (sample_world outcomes [])) =
     (w_redis (sample_world outcomes [(ev_key event, Until 3600000), (ev_key event, Stays)]), Inr True)"
  by (simp add: memory_mark sample_world_def memory_life_def)

lemma sample_refused:
  "handle_event sample_v4 memory_client (sample_codec event) payload (sample_world [] []) =
     ((sample_world [] [(ev_key event, Until 3600000), (ev_key event, Stays)])
        \<lparr>w_store := (w_store (sample_world [] []))\<lparr>st_drawn := 1\<rparr>\<rparr>,
      Inl (DbError (DatatypeMismatch ''raw_payload'')))"
  by (subst refused_exactly [OF sample_codec_simps sample_mark]) (simp_all add: sample_world_def)

theorem webhooks_never_pay_witness:
  "w_tables (fst (handle_event sample_v4 memory_client (sample_codec sample_event) ''{}''
     (sample_world [IoLost] []))) = sample_tables"
  using webhooks_never_pay [OF _ prod.collapse [symmetric], of "sample_world [IoLost] []" sample_v4
      memory_client "sample_codec sample_event" "''{}''"]
  by (simp add: sample_world_def)

theorem new_webhook_is_refused_witness:
  "snd (handle_event sample_v4 memory_client (sample_codec sample_event) ''{}'' (sample_world [] [])) =
     Inl (DbError (DatatypeMismatch ''raw_payload''))"
  by (subst new_webhook_is_refused [OF sample_codec_simps sample_mark]) (simp_all add: sample_world_def)


section \<open>Webhooks that report no success\<close>

lemma log_transaction_frame:
  assumes "log_transaction v4 C event s = (s', r)"
  shows "orders (st_tables s') = orders (st_tables s) \<and> payments (st_tables s') = payments (st_tables s)"
  using assms
  by (auto simp: log_transaction_def io_bind_def new_v4_def io_lift_def io_gets_def execute_def
      insert_transaction_def Let_def map_sum_eq_Inl map_sum_eq_Inr
      split: prod.splits sum.splits if_splits dest!: next_outcomeD)

lemma non_success_frame:
  assumes "ev_status event \<noteq> PaymentSuccess"
    and "handle_new_event v4 R C payload event w = (w', res)"
  shows "orders (w_tables w') = orders (w_tables w) \<and> payments (w_tables w') = payments (w_tables w)"
proof -
  obtain s' r where l: "log_transaction v4 C event (w_store w) = (s', r)"
    by (cases "log_transaction v4 C event (w_store w)")
  with assms have "w' = w\<lparr>w_store := s'\<rparr>"
    by (cases r) (auto simp: handle_new_event_def io_bind_def on_store_run ret_def)
  with log_transaction_frame [OF l] show ?thesis by simp
qed

text \<open>
  A webhook that reports PENDING or FAILED never changes an order or a payment, whatever
  fails on the way: a failed payment stays PENDING in the database.
\<close>

theorem unsuccessful_webhook_keeps_statuses:
  assumes d: "ec_from_str C payload = Inr event" and st: "ev_status event \<noteq> PaymentSuccess"
    and h: "handle_event v4 R C payload w = (w', res)"
  shows "orders (w_tables w') = orders (w_tables w) \<and> payments (w_tables w') = payments (w_tables w)"
proof -
  obtain r m where m: "mark_if_absent R (ev_key event) 3600 (w_redis w) = (r, m)"
    by (cases "mark_if_absent R (ev_key event) 3600 (w_redis w)")
  note h' = h [unfolded handle_event_marked [OF d m]]
  show ?thesis
  proof (cases "m = Inr True")
    case True
    with h' have "handle_new_event v4 R C payload event (w\<lparr>w_redis := r\<rparr>) = (w', res)" by simp
    from non_success_frame [OF st this] show ?thesis by simp
  next
    case False
    with h' have "w' = w\<lparr>w_redis := r\<rparr>" by (auto split: sum.splits)
    then show ?thesis by simp
  qed
qed

theorem unsuccessful_webhook_keeps_statuses_witness:
  "let w' = fst (handle_event sample_v4 memory_client
       (sample_codec (sample_event\<lparr>ev_status := PaymentFailed\<rparr>)) ''{}'' (sample_world [] []))
   in orders (w_tables w') = orders sample_tables \<and> payments (w_tables w') = payments sample_tables"
  using unsuccessful_webhook_keeps_statuses [OF sample_codec_simps(1) _ prod.collapse [symmetric],
      of "sample_event\<lparr>ev_status := PaymentFailed\<rparr>" sample_v4 memory_client "''{}''" "sample_world [] []"]
  by (simp add: sample_world_def)

section \<open>What webhooks are not checked for\<close>

text \<open>The transactions a store holds play no part in marking a payment.\<close>

definition relabel :: "transaction_row list \<Rightarrow> store \<Rightarrow> store" where
  "relabel ts s = s\<lparr>st_tables := (st_tables s)\<lparr>transactions := ts\<rparr>\<rparr>"

lemma next_outcome_relabel: "next_outcome (relabel ts s) = map_prod id (relabel ts) (next_outcome s)"
  by (simp add: next_outcome_def relabel_def split: list.splits)

lemma mark_relabel:
  "mark_payment_success pid oid (relabel ts s) = map_prod (relabel ts) id (mark_payment_success pid oid s)"
proof -
  have tables: "st_tables (relabel ts x) = (st_tables x)\<lparr>transactions := ts\<rparr>" "st_now (relabel ts x) = st_now x"
    "(relabel ts x)\<lparr>st_tables := T\<lparr>transactions := ts\<rparr>\<rparr> = relabel ts (x\<lparr>st_tables := T\<rparr>)" for x T
    by (simp_all add: relabel_def)
  show ?thesis
    by (auto simp: mark_payment_success_def with_transaction_def tx_execute_def tx_commit_def
        io_bind_def update_payment_success_def update_order_paid_def next_outcome_relabel tables
        Let_def split: prod.splits) (simp_all add: relabel_def)
qed

lemma log_relabel:
  assumes "ec_to_string C e1 = Inr raw1" and "ec_to_string C e2 = Inr raw2"
    and "ev_event_id e2 = ev_event_id e1" "ev_gateway e2 = ev_gateway e1"
      "ev_payment_id e2 = ev_payment_id e1" "ev_gateway_txn_id e2 = ev_gateway_txn_id e1"
      "ev_status e2 = ev_status e1"
  shows "\<exists>ts. log_transaction v4 C e2 s = map_prod (relabel ts) id (log_transaction v4 C e1 s)"
proof -
  obtain s1 r where l: "log_transaction v4 C e1 s = (s1, r)" by (cases "log_transaction v4 C e1 s")
  have "\<exists>ts. log_transaction v4 C e2 s = (relabel ts s1, r)"
    using l assms
    by (auto simp: log_transaction_def io_bind_def new_v4_def io_lift_def io_gets_def execute_def
        insert_transaction_def Let_def relabel_def split: prod.splits if_splits
        intro: exI [of _ "transactions (st_tables s1)"])
  with l show ?thesis by simp
qed

text \<open>
  C38: Neither the signature nor the amount of a webhook has any influence: two payloads whose
  events differ only there leave the same orders and payments, on any database and whichever calls
  fail. Where the database has a cast from \<open>text\<close> to \<open>jsonb\<close>, a forged SUCCESS event pays the order
  it names.
\<close>

theorem signature_and_amount_are_ignored:
  assumes d1: "ec_from_str C p1 = Inr event"
    and d2: "ec_from_str C p2 = Inr (event\<lparr>ev_signature := sig, ev_amount := amount\<rparr>)"
    and j: "ec_to_string C event = Inr raw1"
      "ec_to_string C (event\<lparr>ev_signature := sig, ev_amount := amount\<rparr>) = Inr raw2"
  shows "orders (w_tables (fst (handle_event v4 R C p1 w))) = orders (w_tables (fst (handle_event v4 R C p2 w))) \<and>
         payments (w_tables (fst (handle_event v4 R C p1 w))) = payments (w_tables (fst (handle_event v4 R C p2 w)))"
proof -
  let ?e2 = "event\<lparr>ev_signature := sig, ev_amount := amount\<rparr>"
  obtain r m where m: "mark_if_absent R (ev_key event) 3600 (w_redis w) = (r, m)"
    by (cases "mark_if_absent R (ev_key event) 3600 (w_redis w)")
  then have m2: "mark_if_absent R (ev_key ?e2) 3600 (w_redis w) = (r, m)" by simp
  let ?w = "w\<lparr>w_redis := r\<rparr>"
  obtain ts where l2: "log_transaction v4 C ?e2 (w_store ?w) =
      map_prod (relabel ts) id (log_transaction v4 C event (w_store ?w))"
    using log_relabel [OF j, of v4 "w_store ?w"] by auto
  obtain s1 r1 where l: "log_transaction v4 C event (w_store ?w) = (s1, r1)"
    by (cases "log_transaction v4 C event (w_store ?w)")
  obtain s2 r2 where mk: "mark_payment_success (ev_payment_id event) (ev_order_id event) s1 = (s2, r2)"
    by (cases "mark_payment_success (ev_payment_id event) (ev_order_id event) s1")
  have "orders (w_tables (fst (handle_new_event v4 R C p1 event ?w))) =
          orders (w_tables (fst (handle_new_event v4 R C p2 ?e2 ?w))) \<and>
        payments (w_tables (fst (handle_new_event v4 R C p1 event ?w))) =
          payments (w_tables (fst (handle_new_event v4 R C p2 ?e2 ?w)))"
    using l l2 mk mark_relabel [of "ev_payment_id event" "ev_order_id event" ts s1]
    by (cases r1; cases r2) (auto simp: handle_new_event_def io_bind_def on_store_run on_redis_run
        ret_def relabel_def split: prod.splits)
  then show ?thesis
    unfolding handle_event_marked [OF d1 m] handle_event_marked [OF d2 m2]
    by (auto split: sum.splits)
qed

definition forging_codec :: event_codec where
  "forging_codec = \<lparr>ec_to_string = (\<lambda>_. Inr ''{}''), ec_from_str = (\<lambda>p. Inr (if p = ''a'' then sample_event
     else sample_event\<lparr>ev_signature := ''forged'', ev_amount := 1\<rparr>))\<rparr>"

text \<open>A database with a cast, on which webhooks do pay.\<close>

definition cast_world :: "memory_server world" where
  "cast_world = (sample_world [] [])\<lparr>w_store := (w_store (sample_world [] []))\<lparr>st_cast := Some Jsonb\<rparr>\<rparr>"

lemma cast_webhook_pays:
  "map o_status (orders (w_tables (fst (handle_event sample_v4 memory_client forging_codec ''a'' cast_world)))) =
     [''PAID'']"
proof -
  have d: "ec_from_str forging_codec ''a'' = Inr sample_event"
    and m: "mark_if_absent memory_client (ev_key sample_event) 3600 (w_redis cast_world) =
      (w_redis (sample_world [] [(ev_key sample_event, Until 3600000), (ev_key sample_event, Stays)]), Inr True)"
    using sample_mark [of sample_event "[]"] by (simp_all add: forging_codec_def cast_world_def)
  have j: "ec_to_string forging_codec e = Inr ''{}''" for e by (simp add: forging_codec_def)
  show ?thesis
    unfolding handle_event_marked [OF d m]
    by (simp add: handle_new_event_def io_bind_def on_store_run on_redis_run j
        log_transaction_def new_v4_def io_lift_def io_gets_def execute_ok insert_transaction_def typed_inserts
        mark_payment_success_ok cast_world_def sample_defs paid_tables_def split: prod.splits)
qed

theorem signature_and_amount_are_ignored_witness:
  "orders (w_tables (fst (handle_event sample_v4 memory_client forging_codec ''a'' cast_world))) =
   orders (w_tables (fst (handle_event sample_v4 memory_client forging_codec ''b'' cast_world)))"
proof -
  have d1: "ec_from_str forging_codec ''a'' = Inr sample_event"
    and d2: "ec_from_str forging_codec ''b'' = Inr (sample_event\<lparr>ev_signature := ''forged'', ev_amount := 1\<rparr>)"
    and j: "ec_to_string forging_codec e = Inr ''{}''" for e
    by (simp_all add: forging_codec_def)
  from signature_and_amount_are_ignored [OF d1 d2 j j] show ?thesis by blast
qed

end
