(* ===== verification/Reconcile.thy ===== *)
theory Reconcile
  imports Worker "HOL-Library.Multiset"
begin

text \<open>
  What one pass of the reconciliation does (\<open>reconcile_once\<close> in
  \<open>approach-1/apps/worker/src/main.rs\<close>): it takes the 100 oldest pending payments, and marks
  every one of them successful and its order paid without asking the gateway.
\<close>

section \<open>The pending payments\<close>

abbreviation is_pending :: "payment_row \<Rightarrow> bool" where
  "is_pending p \<equiv> p_status p = ''PENDING''"

definition pending_rows :: "tables \<Rightarrow> payment_row list" where
  "pending_rows T = filter is_pending (payments T)"

definition chosen_rows :: "tables \<Rightarrow> payment_row list" where
  "chosen_rows T = take 100 (sort_key p_created_at (pending_rows T))"

lemma select_pending_eq:
  "select_pending T = map (\<lambda>p. (p_id p, p_order_id p, p_gateway p)) (chosen_rows T)"
  by (simp add: select_pending_def chosen_rows_def pending_rows_def)

lemma chosen_rows_subset: "set (chosen_rows T) \<subseteq> set (pending_rows T)"
  unfolding chosen_rows_def by (metis set_sort set_take_subset)

lemma chosen_rows_length: "length (chosen_rows T) = min 100 (length (pending_rows T))"
  by (simp add: chosen_rows_def min.commute)

lemma take_oldest:
  fixes k :: "'a \<Rightarrow> nat"
  assumes "p \<in> set xs" and "p \<notin> set (take n (sort_key k xs))"
    and "q \<in> set (take n (sort_key k xs))"
  shows "k q \<le> k p"
proof -
  define a where "a = take n (sort_key k xs)"
  define b where "b = drop n (sort_key k xs)"
  have ab: "a @ b = sort_key k xs" by (simp add: a_def b_def)
  have "sorted (map k (a @ b))" and "p \<in> set (a @ b)" unfolding ab using assms(1) by simp_all
  moreover have "p \<notin> set a" and "q \<in> set a" using assms(2,3) by (simp_all add: a_def)
  ultimately show ?thesis by (auto simp: sorted_append)
qed

text \<open>
  \<open>pending_payments\<close> returns at most 100 pending payments, oldest first, and no pending
  payment that is left out is older than one that is returned.
\<close>

theorem pending_payments_oldest_first:
  "\<exists>rows. select_pending T = map (\<lambda>p. (p_id p, p_order_id p, p_gateway p)) rows \<and>
     length rows = min 100 (length (filter (\<lambda>p. p_status p = ''PENDING'') (payments T))) \<and>
     sorted (map p_created_at rows) \<and>
     set rows \<subseteq> {p \<in> set (payments T). p_status p = ''PENDING''} \<and>
     {p \<in> set (payments T). p_status p = ''PENDING''} - set rows \<subseteq>
       {p. \<exists>n. p_created_at p = n \<and> list_all (\<lambda>q. p_created_at q \<le> n) rows}"
proof (rule exI [of _ "chosen_rows T"], intro conjI)
  show "sorted (map p_created_at (chosen_rows T))"
    unfolding chosen_rows_def take_map [symmetric] by (rule sorted_wrt_take) simp
  show "select_pending T = map (\<lambda>p. (p_id p, p_order_id p, p_gateway p)) (chosen_rows T)"
    by (rule select_pending_eq)
  show "length (chosen_rows T) = min 100 (length (filter is_pending (payments T)))"
    by (simp add: chosen_rows_length pending_rows_def)
  show "set (chosen_rows T) \<subseteq> {p \<in> set (payments T). is_pending p}"
    using chosen_rows_subset [of T] by (auto simp: pending_rows_def)
  show "{p \<in> set (payments T). is_pending p} - set (chosen_rows T) \<subseteq>
      {p. \<exists>n. p_created_at p = n \<and> list_all (\<lambda>q. p_created_at q \<le> n) (chosen_rows T)}"
    using take_oldest [of _ "pending_rows T" 100 p_created_at]
    by (auto simp: list_all_iff chosen_rows_def pending_rows_def)
qed

section \<open>One pass\<close>

definition mark_payments :: "timestamp \<Rightarrow> uuid set \<Rightarrow> payment_row list \<Rightarrow> payment_row list" where
  "mark_payments now ids ps = map (\<lambda>p. if p_id p \<in> ids
     then p\<lparr>p_status := ''SUCCESS'', p_updated_at := now\<rparr> else p) ps"

definition mark_orders :: "timestamp \<Rightarrow> uuid set \<Rightarrow> order_row list \<Rightarrow> order_row list" where
  "mark_orders now ids rs = map (\<lambda>r. if o_id r \<in> ids
     then r\<lparr>o_status := ''PAID'', o_updated_at := now\<rparr> else r) rs"

lemma mark_payments_empty [simp]: "mark_payments now {} ps = ps"
  by (simp add: mark_payments_def)

lemma mark_orders_empty [simp]: "mark_orders now {} rs = rs"
  by (simp add: mark_orders_def)

lemma mark_payments_insert:
  "mark_payments now ids (mark_payments now {i} ps) = mark_payments now (insert i ids) ps"
  by (auto simp: mark_payments_def)

lemma mark_orders_insert:
  "mark_orders now ids (mark_orders now {i} rs) = mark_orders now (insert i ids) rs"
  by (auto simp: mark_orders_def)

lemma mark_payments_ids [simp]: "p_id ` set (mark_payments now ids ps) = p_id ` set ps"
  unfolding mark_payments_def set_map image_image by (rule image_cong) auto

lemma paid_tables_marks:
  "payments (paid_tables now pid oid T) = mark_payments now {pid} (payments T)"
  "orders (paid_tables now pid oid T) = mark_orders now {oid} (orders T)"
  by (simp_all add: paid_tables_def mark_payments_def mark_orders_def)

lemma insert_settlement_ok:
  assumes "st_outcomes s = []" and "pid \<in> p_id ` set (payments (st_tables s))"
  shows "\<exists>s'. insert_settlement v4 sh pid g a s = (s', Inr ()) \<and>
    st_outcomes s' = [] \<and> st_now s' = st_now s \<and>
    payments (st_tables s') = payments (st_tables s) \<and> orders (st_tables s') = orders (st_tables s)"
proof -
  have "list_ex (\<lambda>p. p_id p = pid) (payments (st_tables s))" using assms(2) by (simp add: list_ex_image)
  with assms(1) show ?thesis
    by (simp add: insert_settlement_def io_bind_def new_v4_def execute_ok insert_settlement_row_def)
qed

lemma reconcile_rows_ok:
  assumes "st_outcomes s = []"
    and "\<forall>(pid, oid, g) \<in> set rows. pid \<in> p_id ` set (payments (st_tables s))"
  shows "\<exists>s'. reconcile_rows v4 sh rows s = (s', Inr ()) \<and>
    payments (st_tables s') = mark_payments (st_now s) (fst ` set rows) (payments (st_tables s)) \<and>
    orders (st_tables s') = mark_orders (st_now s) ((fst \<circ> snd) ` set rows) (orders (st_tables s))"
  using assms
proof (induction rows arbitrary: s)
  case Nil
  then show ?case by (simp add: ret_def)
next
  case (Cons row rows)
  obtain pid oid g where row: "row = (pid, oid, g)" by (cases row)
  let ?s1 = "s\<lparr>st_tables := paid_tables (st_now s) pid oid (st_tables s)\<rparr>"
  have m: "mark_payment_success pid oid s = (?s1, Inr ())"
    by (rule mark_payment_success_ok) (rule Cons.prems(1))
  have "pid \<in> p_id ` set (payments (st_tables ?s1))"
    using Cons.prems(2) row by (simp add: paid_tables_marks)
  with Cons.prems(1) obtain s2 where i: "insert_settlement v4 sh pid g 100 ?s1 = (s2, Inr ())"
    and s2: "st_outcomes s2 = []" "st_now s2 = st_now s"
      "payments (st_tables s2) = mark_payments (st_now s) {pid} (payments (st_tables s))"
      "orders (st_tables s2) = mark_orders (st_now s) {oid} (orders (st_tables s))"
    using insert_settlement_ok [of ?s1 pid v4 sh g 100] by (auto simp: paid_tables_marks)
  have "\<forall>(pid, oid, g) \<in> set rows. pid \<in> p_id ` set (payments (st_tables s2))"
    using Cons.prems(2) s2 by auto
  from Cons.IH [OF s2(1) this] s2 m i row show ?case
    by (auto simp: io_bind_def mark_payments_insert mark_orders_insert)
qed

lemma reconcile_once_ok:
  assumes "st_outcomes s = []"
  shows "\<exists>s'. reconcile_once v4 sh s = (s', Inr ()) \<and>
    payments (st_tables s') = mark_payments (st_now s) (p_id ` set (chosen_rows (st_tables s))) (payments (st_tables s)) \<and>
    orders (st_tables s') = mark_orders (st_now s) (p_order_id ` set (chosen_rows (st_tables s))) (orders (st_tables s))"
proof -
  let ?rows = "select_pending (st_tables s)"
  have "\<forall>(pid, oid, g) \<in> set ?rows. pid \<in> p_id ` set (payments (st_tables s))"
    using chosen_rows_subset [of "st_tables s"] by (auto simp: select_pending_eq pending_rows_def)
  from reconcile_rows_ok [OF assms this] assms show ?thesis
    by (simp add: reconcile_once_def pending_payments_def io_bind_def fetch_ok select_pending_eq image_image)
qed

section \<open>What the passes achieve\<close>

lemma filter_mark_payments:
  "filter is_pending (mark_payments now ids ps) = filter (\<lambda>p. p_id p \<notin> ids) (filter is_pending ps)"
  by (induction ps) (auto simp: mark_payments_def)

lemma pending_after_pass:
  assumes "distinct (map p_id (payments T))"
  shows "length (filter (\<lambda>p. p_id p \<notin> p_id ` set (chosen_rows T)) (pending_rows T)) =
           length (pending_rows T) - 100"
proof -
  define s where "s = sort_key p_created_at (pending_rows T)"
  define a where "a = take 100 s"
  define b where "b = drop 100 s"
  have ab: "s = a @ b" by (simp add: a_def b_def)
  have "distinct (map p_id (pending_rows T))"
    using assms by (simp add: pending_rows_def distinct_map_filter)
  moreover have "mset (map p_id s) = mset (map p_id (pending_rows T))" by (simp add: s_def)
  ultimately have "distinct (map p_id s)" by (metis mset_eq_imp_distinct_iff)
  then have "filter (\<lambda>p. p_id p \<notin> p_id ` set a) s = b"
    by (auto simp: ab filter_empty_conv intro!: filter_True)
  moreover have "length (filter P s) = length (filter P (pending_rows T))" for P
    by (metis mset_filter mset_sort s_def size_mset)
  moreover have "length b = length (pending_rows T) - 100" by (simp add: b_def s_def)
  ultimately show ?thesis by (metis a_def chosen_rows_def s_def)
qed

lemma reconcile_once_pending:
  assumes "st_outcomes s = []" and "distinct (map p_id (payments (st_tables s)))"
    and "reconcile_once v4 sh s = (s', r)"
  shows "r = Inr () \<and> length (pending_rows (st_tables s')) = length (pending_rows (st_tables s)) - 100"
  using reconcile_once_ok [OF assms(1), of v4 sh] assms(3) pending_after_pass [OF assms(2)]
  by (auto simp: pending_rows_def filter_mark_payments)

text \<open>
  When every round trip is answered and at most 100 payments are pending, one pass of the
  reconciliation leaves no payment pending: all of them become successful and all their orders
  paid, and no gateway is asked.
\<close>

theorem reconciliation_pays_all_pending:
  assumes "st_outcomes s = []"
    and "length (filter (\<lambda>p. p_status p = ''PENDING'') (payments (st_tables s))) \<le> 100"
  shows "\<exists>s'. reconcile_once v4 sh s = (s', Inr ()) \<and>
    filter (\<lambda>p. p_status p = ''PENDING'') (payments (st_tables s')) = [] \<and>
    list_all (\<lambda>p. p_status p = ''PENDING'' \<longrightarrow>
      list_all (\<lambda>r. o_id r = p_order_id p \<longrightarrow> o_status r = ''PAID'') (orders (st_tables s')))
      (payments (st_tables s))"
proof -
  have all: "set (chosen_rows (st_tables s)) = set (pending_rows (st_tables s))"
    using assms(2) by (simp add: chosen_rows_def pending_rows_def)
  from reconcile_once_ok [OF assms(1), of v4 sh] obtain s' where s': "reconcile_once v4 sh s = (s', Inr ())"
    and p: "payments (st_tables s') = mark_payments (st_now s) (p_id ` set (pending_rows (st_tables s))) (payments (st_tables s))"
    and o: "orders (st_tables s') = mark_orders (st_now s) (p_order_id ` set (pending_rows (st_tables s))) (orders (st_tables s))"
    by (auto simp: all)
  have "filter is_pending (payments (st_tables s')) = []"
    unfolding p filter_mark_payments by (auto simp: filter_empty_conv pending_rows_def)
  moreover have "o_status r = ''PAID''"
    if "p \<in> set (pending_rows (st_tables s))" "r \<in> set (orders (st_tables s'))" "o_id r = p_order_id p" for p r
  proof -
    let ?f = "\<lambda>r0. if o_id r0 \<in> p_order_id ` set (pending_rows (st_tables s))
        then r0\<lparr>o_status := ''PAID'', o_updated_at := st_now s\<rparr> else r0"
    from that(2) have "r \<in> ?f ` set (orders (st_tables s))" by (simp only: o mark_orders_def set_map)
    then obtain r0 where r0: "r = ?f r0" by (rule imageE)
    with that(1,3) have "o_id r0 \<in> p_order_id ` set (pending_rows (st_tables s))"
      by (cases "o_id r0 \<in> p_order_id ` set (pending_rows (st_tables s))") auto
    with r0 show ?thesis by simp
  qed
  ultimately have "filter is_pending (payments (st_tables s')) = [] \<and>
      list_all (\<lambda>p. is_pending p \<longrightarrow> list_all (\<lambda>r. o_id r = p_order_id p \<longrightarrow> o_status r = ''PAID'')
        (orders (st_tables s'))) (payments (st_tables s))"
    unfolding list_all_iff pending_rows_def by simp
  with s' show ?thesis by blast
qed

theorem reconciliation_pays_all_pending_witness:
  "\<exists>s'. reconcile_once sample_v4 (\<lambda>_. []) (w_store (sample_world [] [])) = (s', Inr ()) \<and>
    filter (\<lambda>p. p_status p = ''PENDING'') (payments (st_tables s')) = []"
  using reconciliation_pays_all_pending [of "w_store (sample_world [] [])" sample_v4 "\<lambda>_. []"]
  by (auto simp: sample_world_def sample_tables_def)

text \<open>The passes of \<open>run_reconciliation\<close>, with nothing else running in between.\<close>

fun reconcile_passes :: "(nat \<Rightarrow> uuid) \<Rightarrow> (uuid \<Rightarrow> string) \<Rightarrow> nat \<Rightarrow> store \<Rightarrow> store" where
  "reconcile_passes v4 sh 0 s = s"
| "reconcile_passes v4 sh (Suc n) s = reconcile_passes v4 sh n (fst (reconcile_once v4 sh s))"

lemma execute_outcomes: "st_outcomes s = [] \<Longrightarrow> st_outcomes (fst (execute q s)) = []"
  by (simp add: execute_ok split: sum.splits)

abbreviation stays_answered :: "store \<Rightarrow> store \<Rightarrow> bool" where
  "stays_answered s s' \<equiv> (st_outcomes s = [] \<longrightarrow> st_outcomes s' = [])"

interpretation an: effect_preorder stays_answered
  by unfold_locales auto

lemma mark_answered: "conforms stays_answered (mark_payment_success pid oid)"
  by (rule conformsI) (auto simp: mark_payment_success_ok)

lemma settle_answered: "conforms stays_answered (insert_settlement v4 sh pid g a)"
proof -
  have "conforms stays_answered (new_v4 v4)" by (rule conformsI) (simp add: new_v4_def)
  moreover have "conforms stays_answered (execute q)" for q
    by (rule conformsI) (simp add: execute_outcomes)
  ultimately show ?thesis unfolding insert_settlement_def by (intro an.conforms_bind)
qed

lemma rows_answered: "conforms stays_answered (reconcile_rows v4 sh rows)"
  by (induction v4 sh rows rule: reconcile_rows.induct)
    (auto intro!: an.conforms_combinators mark_answered settle_answered)

lemma reconcile_once_answered: "conforms stays_answered (reconcile_once v4 sh)"
proof -
  have "conforms stays_answered pending_payments"
    by (rule conformsI) (simp add: pending_payments_def fetch_ok)
  then show ?thesis unfolding reconcile_once_def by (intro an.conforms_bind rows_answered)
qed

lemma reconcile_passes_pending:
  assumes "st_outcomes s = []" and "tables_ok (st_tables s)"
  shows "length (pending_rows (st_tables (reconcile_passes v4 sh n s))) =
           length (pending_rows (st_tables s)) - 100 * n"
  using assms
proof (induction n arbitrary: s)
  case 0
  then show ?case by simp
next
  case (Suc n)
  obtain s1 r where r: "reconcile_once v4 sh s = (s1, r)" by (cases "reconcile_once v4 sh s")
  from Suc.prems have "distinct (map p_id (payments (st_tables s)))" by (simp add: tables_ok_defs)
  from reconcile_once_pending [OF Suc.prems(1) this r]
  have "length (pending_rows (st_tables s1)) = length (pending_rows (st_tables s)) - 100" by simp
  moreover have "st_outcomes s1 = []"
    using conforms_run [OF reconcile_once_answered r] Suc.prems(1) by simp
  moreover have "tables_ok (st_tables s1)"
    using conforms_run [OF sd.reconcile_once_conforms r] Suc.prems(2) by (simp add: sound_step_def)
  ultimately show ?case using Suc.IH [of s1] r by simp
qed

text \<open>
  C17: While every round trip is answered, each pass settles 100 of the pending payments, so
  after \<open>n\<close> passes at most the initial number less \<open>100 * n\<close> are pending: with \<open>n\<close> large
  enough, none.
\<close>

theorem reconciliation_drains:
  assumes "st_outcomes s = []" and "tables_ok (st_tables s)"
  shows "length (filter (\<lambda>p. p_status p = ''PENDING'') (payments (st_tables (reconcile_passes v4 sh n s)))) =
           length (filter (\<lambda>p. p_status p = ''PENDING'') (payments (st_tables s))) - 100 * n"
  using reconcile_passes_pending [OF assms, of v4 sh n] by (simp add: pending_rows_def)

theorem reconciliation_drains_witness:
  "length (filter (\<lambda>p. p_status p = ''PENDING'') (payments (st_tables
     (reconcile_passes sample_v4 (\<lambda>_. []) 1 (w_store (sample_world [] [])))))) = 0"
proof -
  have 1: "st_outcomes (w_store (sample_world [] [])) = []" by (simp add: sample_world_def)
  have 2: "tables_ok (w_tables (sample_world [] []))"
    using sample_tables_ok by (simp add: sample_world_def)
  show ?thesis
    unfolding reconciliation_drains [OF 1 2] by (simp add: sample_world_def sample_tables_def)
qed

text \<open>
  C29: The reconciliation does not tell a failed payment from a pending one: whatever came of the
  handling of a FAILED webhook for a pending payment, if at most 100 payments are pending and every
  round trip of the next pass is answered, that pass marks the payment SUCCESS and its order PAID.
\<close>

theorem failed_payment_is_reconciled_as_paid:
  assumes d: "ec_from_str C payload = Inr event" and st: "ev_status event = PaymentFailed"
    and h: "handle_event v4 R C payload w = (w', res)"
    and ok: "st_outcomes (w_store w') = []"
    and few: "length (filter (\<lambda>p. p_status p = ''PENDING'') (payments (w_tables w))) \<le> 100"
    and p: "p \<in> set (payments (w_tables w))" "p_id p = ev_payment_id event" "p_status p = ''PENDING''"
    and r: "r \<in> set (orders (w_tables w))" "o_id r = p_order_id p"
  shows "\<exists>s'. reconcile_once v4 sh (w_store w') = (s', Inr ()) \<and>
    (\<exists>p' \<in> set (payments (st_tables s')). p_id p' = ev_payment_id event \<and> p_status p' = ''SUCCESS'') \<and>
    (\<exists>r' \<in> set (orders (st_tables s')). o_id r' = o_id r \<and> o_status r' = ''PAID'')"
proof -
  have same: "orders (w_tables w') = orders (w_tables w)" "payments (w_tables w') = payments (w_tables w)"
    using unsuccessful_webhook_keeps_statuses [OF d _ h] st by simp_all
  from reconcile_once_ok [OF ok, of v4 sh] obtain s' where s': "reconcile_once v4 sh (w_store w') = (s', Inr ())"
    and ps: "payments (st_tables s') = mark_payments (st_now (w_store w')) (p_id ` set (chosen_rows (w_tables w'))) (payments (w_tables w'))"
    and o: "orders (st_tables s') = mark_orders (st_now (w_store w')) (p_order_id ` set (chosen_rows (w_tables w'))) (orders (w_tables w'))"
    by blast
  have c: "p \<in> set (chosen_rows (w_tables w'))"
    using few p same by (simp add: chosen_rows_def pending_rows_def)
  with r have "r\<lparr>o_status := ''PAID'', o_updated_at := st_now (w_store w')\<rparr> \<in> set (orders (st_tables s'))"
    unfolding o mark_orders_def using same by (auto simp: image_iff intro!: bexI [of _ r])
  then have 1: "\<exists>r' \<in> set (orders (st_tables s')). o_id r' = o_id r \<and> o_status r' = ''PAID''"
    by (rule rev_bexI) simp
  from c p have "p\<lparr>p_status := ''SUCCESS'', p_updated_at := st_now (w_store w')\<rparr> \<in> set (payments (st_tables s'))"
    unfolding ps mark_payments_def using same by (auto simp: image_iff intro!: bexI [of _ p])
  then have "\<exists>p' \<in> set (payments (st_tables s')). p_id p' = ev_payment_id event \<and> p_status p' = ''SUCCESS''"
    by (rule rev_bexI) (simp add: p(2))
  with s' 1 show ?thesis by (intro exI [of _ s'] conjI)
qed

theorem failed_payment_is_reconciled_as_paid_witness:
  "\<exists>w' s'. handle_event sample_v4 memory_client (sample_codec (sample_event\<lparr>ev_status := PaymentFailed\<rparr>))
       ''{}'' (sample_world [] []) = (w', Inl (DbError (DatatypeMismatch ''raw_payload''))) \<and>
     reconcile_once sample_v4 (\<lambda>_. []) (w_store w') = (s', Inr ()) \<and>
     (\<exists>r' \<in> set (orders (st_tables s')). o_id r' = 1 \<and> o_status r' = ''PAID'')"
proof -
  let ?e = "sample_event\<lparr>ev_status := PaymentFailed\<rparr>"
  obtain w' where h: "handle_event sample_v4 memory_client (sample_codec ?e) ''{}'' (sample_world [] []) =
      (w', Inl (DbError (DatatypeMismatch ''raw_payload'')))"
    and ok: "st_outcomes (w_store w') = []"
    by (simp add: sample_refused) (simp add: sample_world_def)
  let ?p = "hd (payments sample_tables)" and ?r = "hd (orders sample_tables)"
  have "\<exists>s'. reconcile_once sample_v4 (\<lambda>_. []) (w_store w') = (s', Inr ()) \<and>
      (\<exists>p' \<in> set (payments (st_tables s')). p_id p' = ev_payment_id ?e \<and> p_status p' = ''SUCCESS'') \<and>
      (\<exists>r' \<in> set (orders (st_tables s')). o_id r' = o_id ?r \<and> o_status r' = ''PAID'')"
    by (rule failed_payment_is_reconciled_as_paid [OF sample_codec_simps(1) _ h ok, where p = ?p])
      (simp_all add: sample_defs)
  then obtain s' where "reconcile_once sample_v4 (\<lambda>_. []) (w_store w') = (s', Inr ())"
    "\<exists>r' \<in> set (orders (st_tables s')). o_id r' = o_id ?r \<and> o_status r' = ''PAID''" by blast
  with h show ?thesis by (intro exI [of _ w'] exI [of _ s']) (simp add: sample_tables_def)
qed

end
