(* ===== verification/Api.thy ===== *)
theory Api
  imports Gateway Reconcile
begin

text \<open>
  The HTTP API of the payment service (\<open>approach-1/apps/api/src/main.rs\<close>): its routes, its
  handlers on the shared state, the WebSocket stream and the forwarder from Redis Pub/Sub.
\<close>

section \<open>Requests, responses, errors\<close>

record create_order_request =
  co_user_id :: string
  co_amount :: i64
  co_currency :: string

record create_order_response =
  cor_order_id :: uuid
  cor_status :: string

record initiate_payment_request =
  ip_order_id :: uuid
  ip_payment_method :: payment_method

record initiate_payment_response =
  ipr_payment_id :: uuid
  ipr_gateway :: string
  ipr_checkout_url :: string
  ipr_expires_at :: timestamp

record api_error =
  ae_code :: nat
  ae_message :: string

definition api_internal :: "app_error \<Rightarrow> api_error" where
  "api_internal err = \<lparr>ae_code = 500, ae_message = ''internal server error''\<rparr>"

definition api_not_found :: "string \<Rightarrow> api_error" where
  "api_not_found message = \<lparr>ae_code = 404, ae_message = message\<rparr>"

text \<open>The response of an error: the code and a JSON object with the message under \<open>error\<close>.\<close>

definition api_error_response :: "api_error \<Rightarrow> nat \<times> (string \<times> string) list" where
  "api_error_response e = (ae_code e, [(''error'', ae_message e)])"

section \<open>Start-up\<close>

text \<open>The gateways, in the order in which the router tries them.\<close>

definition api_gateways :: "(uuid \<Rightarrow> string) \<Rightarrow> gateway list" where
  "api_gateways show_uuid = map (mock_object show_uuid)
     [\<lparr>mg_gateway_name = ''Razorpay'', mg_should_fail = False\<rparr>,
      \<lparr>mg_gateway_name = ''Cashfree'', mg_should_fail = False\<rparr>,
      \<lparr>mg_gateway_name = ''Juspay'', mg_should_fail = False\<rparr>]"

datatype endpoint =
    Healthz
  | CreateOrder
  | GetOrder string
  | InitiatePayment
  | ReceiveWebhook string
  | WsEndpoint

definition api_route :: "string \<Rightarrow> string list \<Rightarrow> endpoint option" where
  "api_route meth path =
     (if meth = ''GET'' \<and> path = [''healthz''] then Some Healthz
      else if meth = ''POST'' \<and> path = [''orders''] then Some CreateOrder
      else if meth = ''GET'' \<and> length path = 2 \<and> hd path = ''orders'' then Some (GetOrder (last path))
      else if meth = ''POST'' \<and> path = [''payments'', ''initiate''] then Some InitiatePayment
      else if meth = ''POST'' \<and> length path = 2 \<and> hd path = ''webhooks''
      then Some (ReceiveWebhook (last path))
      else if meth = ''GET'' \<and> path = [''ws''] then Some WsEndpoint
      else None)"

definition healthz :: string where
  "healthz = ''ok''"

section \<open>Handlers\<close>

definition api_create_order ::
  "(nat \<Rightarrow> uuid) \<Rightarrow> create_order_request \<Rightarrow> ('r world, api_error, create_order_response) io" where
  "api_create_order v4 req =
     io_bind (io_map_err api_internal
       (on_store (create_order v4 (co_user_id req) (co_amount req) (co_currency req)))) (\<lambda>order_id.
     ret \<lparr>cor_order_id = order_id, cor_status = ''PENDING''\<rparr>)"

text \<open>\<open>clock\<close> is the time at which the gateway makes the session.\<close>

definition api_initiate_payment ::
  "(nat \<Rightarrow> uuid) \<Rightarrow> gateway list \<Rightarrow> timestamp \<Rightarrow> initiate_payment_request \<Rightarrow>
     ('r world, api_error, initiate_payment_response) io" where
  "api_initiate_payment v4 gateways clock req =
     io_bind (on_store (new_v4 v4)) (\<lambda>payment_id.
     io_bind (io_map_err api_internal (io_lift (map_sum Message id
       (pick_checkout gateways clock (ip_order_id req) payment_id (ip_payment_method req))))) (\<lambda>session.
     io_bind (io_map_err api_internal (on_store
       (create_payment v4 (ip_order_id req) (cs_gateway session) (ip_payment_method req)
          (cs_checkout_url session)))) (\<lambda>created_payment_id.
     ret \<lparr>ipr_payment_id = created_payment_id, ipr_gateway = cs_gateway session,
       ipr_checkout_url = cs_checkout_url session, ipr_expires_at = cs_expires_at session\<rparr>)))"

text \<open>\<open>ws_tx.send\<close> hands the payload to the broadcast channel; its result is ignored.\<close>

definition ws_send :: "string \<Rightarrow> ('r world, 'e, unit) io" where
  "ws_send payload = io_modify (\<lambda>w. w\<lparr>w_ws := w_ws w @ [payload]\<rparr>)"

definition api_receive_webhook ::
  "'r redis_client \<Rightarrow> event_codec \<Rightarrow> string \<Rightarrow> webhook_event \<Rightarrow> ('r world, api_error, nat) io" where
  "api_receive_webhook R C gateway event0 =
     (let event = event0\<lparr>ev_gateway := gateway\<rparr> in
      io_bind (io_map_err api_internal (io_lift (map_sum JsonError id (ec_to_string C event)))) (\<lambda>payload.
      io_bind (io_map_err api_internal (on_redis (enqueue R ''stream:webhooks'' payload))) (\<lambda>_.
      io_bind (ws_send payload) (\<lambda>_.
      ret 202))))"

definition select_order :: "uuid \<Rightarrow> tables \<Rightarrow> (uuid \<times> string) option" where
  "select_order oid T =
     map_option (\<lambda>r. (o_id r, o_status r)) (find (\<lambda>r. o_id r = oid) (orders T))"

definition api_get_order :: "uuid \<Rightarrow> ('r world, api_error, uuid \<times> string) io" where
  "api_get_order order_id =
     io_bind (io_map_err api_internal (on_store (fetch (select_order order_id)))) (\<lambda>row.
     case row of
       Some r \<Rightarrow> ret r
     | None \<Rightarrow> throw (api_not_found ''order not found''))"

section \<open>Streams\<close>

text \<open>
  \<open>ws_stream\<close>: the messages that reach the socket, from what the broadcast receiver yields (a
  message, or an error when the client lagged behind or the channel closed) and whether each
  send succeeds. The loop stops at the first error of either. The user's id is a parameter that the
  code does not look at.
\<close>

record ws_query =
  wq_user_id :: string

fun ws_stream :: "string \<Rightarrow> (string + string) list \<Rightarrow> bool list \<Rightarrow> string list" where
  "ws_stream user_id (Inr msg # rx) (ok # sends) = (if ok then msg # ws_stream user_id rx sends else [])"
| "ws_stream user_id _ _ = []"

text \<open>\<open>subscription\<close> is what the receiver that \<open>ws_tx.subscribe()\<close> makes will yield.\<close>

definition ws_handler :: "ws_query \<Rightarrow> (string + string) list \<Rightarrow> bool list \<Rightarrow> string list" where
  "ws_handler params subscription sends = ws_stream (wq_user_id params) subscription sends"

text \<open>
  Whoever connects is sent every message until the first lag or failed send, in order.
\<close>

lemma ws_stream_all:
  "ws_stream user_id (map Inr msgs @ rx) (replicate (length msgs) True @ sends) = msgs @ ws_stream user_id rx sends"
  by (induction msgs) simp_all

lemma ws_stream_lagged: "ws_stream user_id (Inl e # rx) sends = []"
  by simp

lemma ws_stream_any_user: "ws_stream u rx sends = ws_stream u' rx sends"
  by (induction u rx sends rule: ws_stream.induct) simp_all

text \<open>
  \<open>forward_pubsub_to_ws\<close>: the results of connecting and subscribing, and the payload of each
  message, where one that is not text counts as empty.
\<close>

definition forward_pubsub_to_ws ::
  "string + unit \<Rightarrow> string + unit \<Rightarrow> (string + string) list \<Rightarrow> 'r world \<Rightarrow> 'r world" where
  "forward_pubsub_to_ws connect subscribe messages w =
     (case connect of
        Inl _ \<Rightarrow> w
      | Inr _ \<Rightarrow> (case subscribe of
          Inl _ \<Rightarrow> w
        | Inr _ \<Rightarrow> w\<lparr>w_ws := w_ws w @
            map (\<lambda>m. case m of Inl _ \<Rightarrow> [] | Inr payload \<Rightarrow> payload) messages\<rparr>))"

section \<open>What the handlers conform to\<close>

context table_preorder
begin

lemma ws_send_conforms: "conforms (via w_tables Q) (ws_send payload)"
  unfolding ws_send_def by (rule effect_preorder.conforms_modify [OF world_preorder]) (simp add: Q_refl)

lemma api_receive_webhook_conforms: "conforms (via w_tables Q) (api_receive_webhook R C g ev)"
  unfolding api_receive_webhook_def Let_def
  by (intro world_rules on_redis_conforms ws_send_conforms)

lemma api_get_order_conforms: "conforms (via w_tables Q) (api_get_order oid)"
  unfolding api_get_order_def
  by (intro world_rules on_store_conforms fetch_conforms)

end

context order_contract
begin

lemma api_create_order_conforms: "conforms (via w_tables Q) (api_create_order v4 req)"
  unfolding api_create_order_def
  by (intro world_rules on_store_conforms create_order_conforms)

lemma api_initiate_payment_conforms: "conforms (via w_tables Q) (api_initiate_payment v4 gs clock req)"
  unfolding api_initiate_payment_def
  by (intro world_rules on_store_conforms create_payment_conforms new_v4_conforms)

end

section \<open>Orders\<close>

lemma select_order_paid:
  assumes "r \<in> set (orders T)" and "o_id r = oid"
    and "list_all (\<lambda>r. o_id r = oid \<longrightarrow> o_status r = st) (orders T)"
  shows "select_order oid T = Some (oid, st)"
proof -
  obtain r' where f: "find (\<lambda>r. o_id r = oid) (orders T) = Some r'"
    using assms(1,2) by (metis (mono_tags, lifting) find_None_iff not_None_eq)
  from find_SomeD [OF f] assms(3) f show ?thesis by (auto simp: select_order_def list_all_iff)
qed

text \<open>
  With the round trips answered and a fresh UUID, \<open>POST /orders\<close> stores the order with the
  given amount and answers its id; \<open>GET /orders/:id\<close> then finds it PENDING.
\<close>

theorem created_order_is_found:
  assumes ok: "st_outcomes (w_store w) = []"
    and fresh: "\<not> list_ex (\<lambda>r. o_id r = v4 (st_drawn (w_store w))) (orders (w_tables w))"
  shows "\<exists>w'. api_create_order v4 req w =
      (w', Inr \<lparr>cor_order_id = v4 (st_drawn (w_store w)), cor_status = ''PENDING''\<rparr>) \<and>
    (\<exists>r \<in> set (orders (w_tables w')). o_id r = v4 (st_drawn (w_store w)) \<and>
       o_amount r = co_amount req \<and> o_currency r = co_currency req \<and> o_user_id r = co_user_id req) \<and>
    snd (api_get_order (v4 (st_drawn (w_store w))) w') = Inr (v4 (st_drawn (w_store w)), ''PENDING'')"
proof -
  let ?id = "v4 (st_drawn (w_store w))"
  let ?r = "\<lparr>o_id = ?id, o_user_id = co_user_id req, o_amount = co_amount req,
    o_currency = co_currency req, o_status = ''PENDING'', o_created_at = st_now (w_store w),
    o_updated_at = st_now (w_store w)\<rparr>"
  let ?w' = "w\<lparr>w_store := (w_store w)\<lparr>st_drawn := Suc (st_drawn (w_store w)),
    st_tables := (w_tables w)\<lparr>orders := orders (w_tables w) @ [?r]\<rparr>\<rparr>\<rparr>"
  have 1: "api_create_order v4 req w = (?w', Inr \<lparr>cor_order_id = ?id, cor_status = ''PENDING''\<rparr>)"
    using ok fresh
    by (simp add: api_create_order_def create_order_def io_bind_def io_map_err_def on_store_run
        new_v4_def execute_ok insert_order_def ret_def)
  have "select_order ?id (w_tables ?w') = Some (?id, ''PENDING'')"
    using fresh by (intro select_order_paid [of ?r]) (auto simp: list_all_iff list_ex_iff)
  with ok have 2: "snd (api_get_order ?id ?w') = Inr (?id, ''PENDING'')"
    by (simp add: api_get_order_def io_bind_def io_map_err_def on_store_run fetch_ok ret_def)
  from 1 2 show ?thesis by (intro exI [of _ ?w']) simp
qed

theorem created_order_is_found_witness:
  "\<exists>w'. api_create_order sample_v4 \<lparr>co_user_id = ''u2'', co_amount = 500, co_currency = ''INR''\<rparr>
      (sample_world [] []) = (w', Inr \<lparr>cor_order_id = 100, cor_status = ''PENDING''\<rparr>) \<and>
    snd (api_get_order 100 w') = Inr (100, ''PENDING'')"
  using created_order_is_found [of "sample_world [] []" sample_v4
      "\<lparr>co_user_id = ''u2'', co_amount = 500, co_currency = ''INR''\<rparr>"]
  by (auto simp: sample_world_def sample_tables_def sample_v4_def)

section \<open>Payments\<close>

lemma lower_razorpay [simp]: "to_lower ''Razorpay'' = ''razorpay''"
  by code_simp

lemma api_pick_razorpay:
  "pick_checkout (api_gateways show_uuid) now oid pid m =
     Inr \<lparr>cs_gateway = ''Razorpay'',
       cs_checkout_url = ''https://mock-razorpay.example/checkout?order_id='' @ show_uuid oid @
         ''&payment_id='' @ show_uuid pid,
       cs_expires_at = now + minutes 15\<rparr>"
  by (simp add: pick_checkout_def api_gateways_def mock_create_checkout_def)

text \<open>
  C39: With the round trips answered, a known order and a fresh UUID, \<open>POST /payments/initiate\<close>
  stores one pending payment with Razorpay (the other gateways are never reached) and answers
  its id. The checkout URL it stores and answers carries the UUID drawn before that one, which
  is not the id of the payment it made.
\<close>

theorem initiated_payment:
  assumes ok: "st_outcomes (w_store w) = []"
    and o: "list_ex (\<lambda>r. o_id r = ip_order_id req) (orders (w_tables w))"
    and fresh: "\<not> list_ex (\<lambda>p. p_id p = v4 (Suc (st_drawn (w_store w)))) (payments (w_tables w))"
  shows "\<exists>w' url. api_initiate_payment v4 (api_gateways show_uuid) now req w =
      (w', Inr \<lparr>ipr_payment_id = v4 (Suc (st_drawn (w_store w))), ipr_gateway = ''Razorpay'',
        ipr_checkout_url = url, ipr_expires_at = now + minutes 15\<rparr>) \<and>
    url = ''https://mock-razorpay.example/checkout?order_id='' @ show_uuid (ip_order_id req) @
      ''&payment_id='' @ show_uuid (v4 (st_drawn (w_store w))) \<and>
    payments (w_tables w') = payments (w_tables w) @
      [\<lparr>p_id = v4 (Suc (st_drawn (w_store w))), p_order_id = ip_order_id req,
        p_gateway = ''Razorpay'', p_method = payment_method_str (ip_payment_method req),
        p_checkout_url = url, p_status = ''PENDING'', p_created_at = st_now (w_store w),
        p_updated_at = st_now (w_store w)\<rparr>]"
  using ok o fresh
  by (simp add: api_initiate_payment_def api_pick_razorpay io_bind_def io_map_err_def io_lift_def
      on_store_run new_v4_def create_payment_def execute_ok insert_payment_def ret_def)

theorem initiated_payment_witness:
  "\<exists>w' resp. api_initiate_payment sample_v4 (api_gateways (\<lambda>u. if u = 100 then ''A'' else ''B'')) 0
      \<lparr>ip_order_id = 1, ip_payment_method = Upi\<rparr> (sample_world [] []) = (w', Inr resp) \<and>
    ipr_payment_id resp = 101 \<and>
    ipr_checkout_url resp = ''https://mock-razorpay.example/checkout?order_id=B&payment_id=A''"
  using initiated_payment [of "sample_world [] []" "\<lparr>ip_order_id = 1, ip_payment_method = Upi\<rparr>" sample_v4
      "\<lambda>u. if u = 100 then ''A'' else ''B''" 0]
  by (auto simp: sample_world_def sample_tables_def sample_v4_def)

text \<open>
  Initiating a payment for an order that does not exist fails with 500 and leaves the
  tables as they are: the foreign key refuses the row, whatever the round trips do.
\<close>

theorem payment_for_unknown_order_fails:
  assumes "\<not> list_ex (\<lambda>r. o_id r = ip_order_id req) (orders (w_tables w))"
  shows "\<exists>w'. api_initiate_payment v4 gs now req w = (w', Inl (api_internal e)) \<and> w_tables w' = w_tables w"
proof -
  let ?s = "(w_store w)\<lparr>st_drawn := Suc (st_drawn (w_store w))\<rparr>"
  show ?thesis
  proof (cases "pick_checkout gs now (ip_order_id req) (v4 (st_drawn (w_store w))) (ip_payment_method req)")
    case (Inl e')
    then show ?thesis
      by (simp add: api_initiate_payment_def io_bind_def io_map_err_def io_lift_def on_store_run
          new_v4_def api_internal_def)
  next
    case (Inr c)
    have "\<exists>s' e'. create_payment v4 (ip_order_id req) (cs_gateway c) (ip_payment_method req) (cs_checkout_url c) ?s
        = (s', Inl e') \<and> st_tables s' = w_tables w"
      using assms by (auto simp: create_payment_def io_bind_def new_v4_def execute_def insert_payment_def
          Let_def split: prod.splits dest!: next_outcomeD)
    then obtain s' e' where "create_payment v4 (ip_order_id req) (cs_gateway c) (ip_payment_method req)
        (cs_checkout_url c) ?s = (s', Inl e')" and "st_tables s' = w_tables w" by blast
    with Inr show ?thesis
      by (simp add: api_initiate_payment_def io_bind_def io_map_err_def io_lift_def on_store_run
          new_v4_def api_internal_def)
  qed
qed

theorem payment_for_unknown_order_fails_witness:
  "\<exists>w'. api_initiate_payment sample_v4 (api_gateways (\<lambda>_. [])) 0 \<lparr>ip_order_id = 9, ip_payment_method = Card\<rparr>
      (sample_world [] []) = (w', Inl (api_internal (Message []))) \<and> w_tables w' = sample_tables"
  using payment_for_unknown_order_fails [of "\<lparr>ip_order_id = 9, ip_payment_method = Card\<rparr>" "sample_world [] []"
      sample_v4 "api_gateways (\<lambda>_. [])" 0 "Message []"]
  by (simp add: sample_world_def sample_tables_def)

section \<open>Webhooks\<close>

text \<open>
  On a stream that behaves as documented, \<open>POST /webhooks/:gateway\<close> either answers 202, and
  then exactly one entry was appended to the queue, with the event under the path's gateway as
  its payload, and the same payload was broadcast; or it answers 500 and broadcasts nothing. It
  never touches the database, and nothing in the event makes it refuse.
\<close>

theorem webhook_is_queued_then_broadcast:
  assumes S: "stream_ok R ''stream:webhooks'' entries"
    and h: "api_receive_webhook R C gateway event w = (w', res)"
  shows "w_store w' = w_store w \<and>
    ((res = Inr 202 \<and> (\<exists>payload i fs. ec_to_string C (event\<lparr>ev_gateway := gateway\<rparr>) = Inr payload \<and>
        fs ''payload'' = Some payload \<and>
        entries (w_redis w') = entries (w_redis w) @ [(i, fs)] \<and> w_ws w' = w_ws w @ [payload])) \<or>
     (res = Inl \<lparr>ae_code = 500, ae_message = ''internal server error''\<rparr> \<and> w_ws w' = w_ws w))"
proof (cases "ec_to_string C (event\<lparr>ev_gateway := gateway\<rparr>)")
  case (Inl e)
  with h show ?thesis
    by (auto simp: api_receive_webhook_def io_bind_def io_map_err_def io_lift_def api_internal_def)
next
  case (Inr payload)
  obtain r x where e: "enqueue R ''stream:webhooks'' payload (w_redis w) = (r, x)"
    by (cases "enqueue R ''stream:webhooks'' payload (w_redis w)")
  show ?thesis
  proof (cases x)
    case (Inl err)
    with h Inr e show ?thesis
      by (auto simp: api_receive_webhook_def io_bind_def io_map_err_def io_lift_def on_redis_run
          api_internal_def)
  next
    case u: (Inr u)
    from enqueue_appends [OF S, of payload "w_redis w" r] e u obtain i fs where
      "fs ''payload'' = Some payload" and "entries r = entries (w_redis w) @ [(i, fs)]" by auto
    with h Inr e u show ?thesis
      by (auto simp: api_receive_webhook_def io_bind_def io_map_err_def io_lift_def on_redis_run
          ws_send_def io_modify_def ret_def)
  qed
qed

theorem webhook_is_queued_then_broadcast_witness:
  "snd (api_receive_webhook memory_client (sample_codec sample_event) ''Razorpay'' sample_event
      (sample_world [] [])) \<in> {Inr 202, Inl \<lparr>ae_code = 500, ae_message = ''internal server error''\<rparr>}"
  using webhook_is_queued_then_broadcast [OF memory_stream_ok prod.collapse [symmetric],
      of "sample_codec sample_event" "''Razorpay''" sample_event "sample_world [] []"]
  by auto

end
