(* ===== verification/Service.thy ===== *)
theory Service
  imports Api
begin

text \<open>
  The payment service as a whole: API requests, turns of the worker's queue loop, reconciliation
  passes and the environment interleave in any order on one database and one Redis server. The
  schema's constraints are an invariant of every run.
\<close>

section \<open>Steps\<close>

text \<open>
  The state is the world and the worker's \<open>last_id\<close>. Each handler runs to its end before the
  next step: its own round trips may fail in every way, but another handler does not come
  between two of them. The environment advances the clock, decides the coming outcomes, and
  may change Redis in any way (keys expire, other clients write).
\<close>

inductive service_step ::
  "(nat \<Rightarrow> uuid) \<Rightarrow> 'r redis_client \<Rightarrow> event_codec \<Rightarrow> (uuid \<Rightarrow> string) \<Rightarrow>
     'r world \<times> string \<Rightarrow> 'r world \<times> string \<Rightarrow> bool"
  for v4 :: "nat \<Rightarrow> uuid" and R :: "'r redis_client" and C :: event_codec and sh :: "uuid \<Rightarrow> string" where
  create: "api_create_order v4 req w = (w', res) \<Longrightarrow> service_step v4 R C sh (w, l) (w', l)"
| initiate: "api_initiate_payment v4 (api_gateways sh) clock req' w = (w', res') \<Longrightarrow>
     service_step v4 R C sh (w, l) (w', l)"
| webhook: "api_receive_webhook R C gateway event w = (w', code) \<Longrightarrow> service_step v4 R C sh (w, l) (w', l)"
| get: "api_get_order oid w = (w', row) \<Longrightarrow> service_step v4 R C sh (w, l) (w', l)"
| forward: "service_step v4 R C sh (w, l) (forward_pubsub_to_ws connected subscribed msgs w, l)"
| turn: "process_turn v4 R C (w, l) = (w', l') \<Longrightarrow> service_step v4 R C sh (w, l) (w', l')"
| reconcile: "on_store (reconcile_once v4 sh) w = (w', done') \<Longrightarrow> service_step v4 R C sh (w, l) (w', l)"
| environment: "st_now (w_store w) \<le> now \<Longrightarrow> service_step v4 R C sh (w, l)
     (w\<lparr>w_store := (w_store w)\<lparr>st_now := now, st_outcomes := outcomes\<rparr>, w_redis := r\<rparr>, l)"

inductive reachable ::
  "(nat \<Rightarrow> uuid) \<Rightarrow> 'r redis_client \<Rightarrow> event_codec \<Rightarrow> (uuid \<Rightarrow> string) \<Rightarrow> 'r world \<times> string \<Rightarrow> bool"
  for v4 :: "nat \<Rightarrow> uuid" and R :: "'r redis_client" and C :: event_codec and sh :: "uuid \<Rightarrow> string" where
  start: "w_tables w = no_tables \<Longrightarrow> reachable v4 R C sh (w, initial_last_id)"
| step: "reachable v4 R C sh x \<Longrightarrow> service_step v4 R C sh x y \<Longrightarrow> reachable v4 R C sh y"

inductive_cases service_stepE: "service_step v4 R C sh x y"

lemma forward_tables [simp]: "w_store (forward_pubsub_to_ws a b ms w) = w_store w"
  by (simp add: forward_pubsub_to_ws_def split: sum.splits)

context repository_contract
begin

lemma service_step_conforms: "service_step v4 R C sh x y \<Longrightarrow> Q (w_tables (fst x)) (w_tables (fst y))"
proof (induction rule: service_step.induct)
  case (turn w l w' l')
  with process_turn_conforms [of w v4 R C l] show ?case by simp
next
  case (reconcile w w' done' l)
  from conforms_run [OF on_store_conforms [OF reconcile_once_conforms] reconcile] show ?case by simp
qed (auto simp: Q_refl dest!: conforms_run [OF api_create_order_conforms]
      conforms_run [OF api_initiate_payment_conforms] conforms_run [OF api_receive_webhook_conforms]
      conforms_run [OF api_get_order_conforms])

lemma service_run_conforms:
  "(service_step v4 R C sh)\<^sup>*\<^sup>* x y \<Longrightarrow> Q (w_tables (fst x)) (w_tables (fst y))"
  by (induction rule: rtranclp_induct) (auto intro: Q_refl Q_trans service_step_conforms)

end

lemma reachable_tables_ok: "reachable v4 R C sh x \<Longrightarrow> tables_ok (w_tables (fst x))"
proof (induction rule: reachable.induct)
  case (start w)
  then show ?case by simp
next
  case (step x y)
  with sd.service_step_conforms [OF step.hyps(2)] show ?case by (simp add: sound_step_def)
qed

lemma reachable_run:
  "(service_step v4 R C sh)\<^sup>*\<^sup>* x y \<Longrightarrow> reachable v4 R C sh x \<Longrightarrow> reachable v4 R C sh y"
  by (induction rule: rtranclp_induct) (auto intro: reachable.step)

section \<open>The database's casts\<close>

text \<open>No step of the service gives the database a cast.\<close>

abbreviation world_cast :: "'r world \<Rightarrow> jsonb_cast" where
  "world_cast w \<equiv> st_cast (w_store w)"

abbreviation keeps_cast :: "'r world \<Rightarrow> 'r world \<Rightarrow> bool" where
  "keeps_cast w w' \<equiv> world_cast w' = world_cast w"

interpretation kc: effect_preorder keeps_cast
  by unfold_locales auto

lemma on_store_cast: "conforms same_cast m \<Longrightarrow> conforms keeps_cast (on_store m)"
  unfolding on_store_def by (rule conforms_zoom) (simp add: conforms_def)

lemma on_redis_cast: "conforms keeps_cast (on_redis m)"
  unfolding on_redis_def by (rule conforms_zoom) simp

lemmas cast_rules = kc.conforms_combinators on_redis_cast on_store_cast repository_cast new_v4_cast fetch_cast

lemma handle_event_cast: "conforms keeps_cast (handle_event v4 R C payload)"
  unfolding handle_event_def by (intro cast_rules)

lemma process_events_cast:
  "process_events v4 R C events l w = (w', l', rs) \<Longrightarrow> keeps_cast w w'"
proof (induction events arbitrary: l w w' l' rs)
  case Nil
  then show ?case by simp
next
  case (Cons e events)
  obtain sid payload where e: "e = (sid, payload)" by (cases e)
  obtain w1 res where h: "handle_event v4 R C payload w = (w1, res)"
    by (cases "handle_event v4 R C payload w")
  obtain w2 l2 rs2 where p: "process_events v4 R C events sid w1 = (w2, l2, rs2)"
    by (cases "process_events v4 R C events sid w1")
  from Cons.IH [OF p] conforms_run [OF handle_event_cast h] Cons.prems e h p show ?case by simp
qed

lemma process_turn_cast:
  assumes "process_turn v4 R C (w, l) = (w', l')"
  shows "keeps_cast w w'"
proof -
  obtain w1 x where r: "on_redis (read_after R ''stream:webhooks'' l 50) w = (w1, x)"
    by (cases "on_redis (read_after R ''stream:webhooks'' l 50) w")
  from conforms_run [OF on_redis_cast r] have 1: "keeps_cast w w1" .
  show ?thesis
  proof (cases x)
    case (Inl e)
    with assms r 1 show ?thesis by (simp add: process_turn_def)
  next
    case (Inr events)
    obtain w2 l2 rs where p: "process_events v4 R C events l w1 = (w2, l2, rs)"
      by (cases "process_events v4 R C events l w1")
    from process_events_cast [OF p] 1 assms r Inr p show ?thesis by (simp add: process_turn_def)
  qed
qed

lemma reconcile_once_cast: "conforms same_cast (reconcile_once v4 sh)"
proof -
  have "conforms same_cast (reconcile_rows v4 sh rows)" for rows
    by (induction v4 sh rows rule: reconcile_rows.induct)
      (auto intro!: ct.conforms_combinators repository_cast)
  then show ?thesis
    unfolding reconcile_once_def by (intro ct.conforms_bind repository_cast)
qed

lemma ws_send_cast: "conforms keeps_cast (ws_send payload)"
  unfolding ws_send_def by (rule kc.conforms_modify) simp

lemma api_cast:
  "conforms keeps_cast (api_create_order v4 req)"
  "conforms keeps_cast (api_initiate_payment v4 gs clock req')"
  "conforms keeps_cast (api_receive_webhook R C g ev)"
  "conforms keeps_cast (api_get_order oid)"
  unfolding api_create_order_def api_initiate_payment_def api_receive_webhook_def api_get_order_def Let_def
  by (intro cast_rules ws_send_cast)+

lemma service_step_cast: "service_step v4 R C sh x y \<Longrightarrow> keeps_cast (fst x) (fst y)"
proof (induction rule: service_step.induct)
  case (turn w l w' l')
  from process_turn_cast [OF turn] show ?case by simp
next
  case (reconcile w w' done' l)
  from conforms_run [OF on_store_cast [OF reconcile_once_cast] reconcile] show ?case by simp
qed (auto dest!: api_cast [THEN conforms_run])

lemma service_run_cast: "(service_step v4 R C sh)\<^sup>*\<^sup>* x y \<Longrightarrow> keeps_cast (fst x) (fst y)"
  by (induction rule: rtranclp_induct) (auto dest: service_step_cast)

section \<open>A run of the service\<close>

text \<open>
  An order, a payment for it and a pass of the reconciliation on the in-memory server, from the
  empty database to the paid order: the run that the witnesses use.
\<close>

definition demo_event :: webhook_event where
  "demo_event = sample_event\<lparr>ev_order_id := 100, ev_payment_id := 102\<rparr>"

definition demo_order :: "string \<Rightarrow> order_row" where
  "demo_order st = \<lparr>o_id = 100, o_user_id = ''u1'', o_amount = 45000, o_currency = ''INR'',
     o_status = st, o_created_at = 1, o_updated_at = 1\<rparr>"

definition demo_payment :: "string \<Rightarrow> payment_row" where
  "demo_payment st = \<lparr>p_id = 102, p_order_id = 100, p_gateway = ''Razorpay'', p_method = ''UPI'',
     p_checkout_url = ''https://mock-razorpay.example/checkout?order_id=&payment_id='',
     p_status = st, p_created_at = 1, p_updated_at = 1\<rparr>"

definition demo_world :: "order_row list \<Rightarrow> payment_row list \<Rightarrow> settlement_row list \<Rightarrow> nat \<Rightarrow>
    memory_server world" where
  "demo_world rs ps xs drawn =
     \<lparr>w_store = \<lparr>st_tables = \<lparr>orders = rs, payments = ps, transactions = [], settlements = xs\<rparr>,
        st_now = 1, st_cast = None, st_outcomes = [], st_drawn = drawn\<rparr>, w_redis = empty_server, w_ws = []\<rparr>"

definition demo_settlement :: settlement_row where
  "demo_settlement = \<lparr>s_id = 103, s_payment_id = 102, s_gateway = ''Razorpay'', s_settlement_ref = ''settle-'',
     s_amount = 100, s_status = ''MATCHED'', s_created_at = 1\<rparr>"

definition demo_paid :: "memory_server world" where
  "demo_paid = demo_world [demo_order ''PAID''] [demo_payment ''SUCCESS''] [demo_settlement] 4"

lemma demo_create:
  "api_create_order sample_v4 \<lparr>co_user_id = ''u1'', co_amount = 45000, co_currency = ''INR''\<rparr>
     (demo_world [] [] [] 0) =
   (demo_world [demo_order ''PENDING''] [] [] 1, Inr \<lparr>cor_order_id = 100, cor_status = ''PENDING''\<rparr>)"
  by (simp add: api_create_order_def create_order_def io_bind_def io_map_err_def on_store_run
      new_v4_def execute_ok insert_order_def ret_def demo_world_def demo_order_def sample_v4_def)

lemma demo_initiate:
  "api_initiate_payment sample_v4 (api_gateways (\<lambda>_. [])) 0 \<lparr>ip_order_id = 100, ip_payment_method = Upi\<rparr>
     (demo_world [demo_order ''PENDING''] [] [] 1) =
   (demo_world [demo_order ''PENDING''] [demo_payment ''PENDING''] [] 3,
    Inr \<lparr>ipr_payment_id = 102, ipr_gateway = ''Razorpay'',
      ipr_checkout_url = ''https://mock-razorpay.example/checkout?order_id=&payment_id='',
      ipr_expires_at = minutes 15\<rparr>)"
  by (simp add: api_initiate_payment_def api_pick_razorpay create_payment_def io_bind_def io_map_err_def
      io_lift_def on_store_run new_v4_def execute_ok insert_payment_def ret_def demo_world_def
      demo_order_def demo_payment_def sample_v4_def)

lemma demo_reconcile:
  "on_store (reconcile_once sample_v4 (\<lambda>_. [])) (demo_world [demo_order ''PENDING''] [demo_payment ''PENDING''] [] 3) =
     (demo_paid, Inr ())"
  by (simp add: on_store_run reconcile_once_def pending_payments_def fetch_ok select_pending_def io_bind_def
      mark_payment_success_ok paid_tables_def insert_settlement_def new_v4_def execute_ok
      insert_settlement_row_def ret_def demo_world_def demo_order_def demo_payment_def demo_paid_def
      demo_settlement_def sample_v4_def)

text \<open>Its states are reachable.\<close>

abbreviation demo_reachable :: "memory_server world \<Rightarrow> bool" where
  "demo_reachable w \<equiv> reachable sample_v4 memory_client (sample_codec demo_event) (\<lambda>_. []) (w, initial_last_id)"

lemma demo_states_reachable:
  "demo_reachable (demo_world [] [] [] 0)"
  "demo_reachable (demo_world [demo_order ''PENDING''] [] [] 1)"
  "demo_reachable (demo_world [demo_order ''PENDING''] [demo_payment ''PENDING''] [] 3)"
  "demo_reachable demo_paid"
proof -
  show 0: "demo_reachable (demo_world [] [] [] 0)"
    by (rule reachable.start) (simp add: demo_world_def no_tables_def)
  show 1: "demo_reachable (demo_world [demo_order ''PENDING''] [] [] 1)"
    by (rule reachable.step [OF 0 service_step.create [OF demo_create]])
  show 2: "demo_reachable (demo_world [demo_order ''PENDING''] [demo_payment ''PENDING''] [] 3)"
    by (rule reachable.step [OF 1 service_step.initiate [OF demo_initiate]])
  show "demo_reachable demo_paid"
    by (rule reachable.step [OF 2 service_step.reconcile [OF demo_reconcile]])
qed

end
