(* ===== verification/Settlement.thy ===== *)
theory Settlement
  imports Service
begin

text \<open>
  How payments are settled on the program's own database, which refuses the log row of every webhook:
  by the reconciliation only. A relation that placing orders, starting payments and settling a
  pending payment together with its own order keep is kept by the whole service; the invariant that
  ties orders, payments and settlements together is one, and so is the strict ledger of \<open>Ledger\<close>.
\<close>

section \<open>What the reconciliation has to keep\<close>

text \<open>
  The reconciliation marks a payment that is pending, with its own order, and then adds a settlement
  of 100 for a payment that is successful, under the payment's gateway and a reference made of its id.
\<close>

locale reconciling_contract = order_contract Q for Q :: "tables \<Rightarrow> tables \<Rightarrow> bool" +
  fixes sh :: "uuid \<Rightarrow> string"
  assumes Q_own_paid: "p \<in> set (payments T) \<Longrightarrow> p_status p = ''PENDING'' \<Longrightarrow>
      Q T (paid_tables now (p_id p) (p_order_id p) T)"
    and Q_own_settlement: "p \<in> set (payments T) \<Longrightarrow> p_status p = ''SUCCESS'' \<Longrightarrow>
      insert_settlement_row sid (p_id p) (p_gateway p) (''settle-'' @ sh (p_id p)) 100 now T = Inr T' \<Longrightarrow> Q T T'"

text \<open>Rows that name distinct pending payments, each with its order and gateway.\<close>

definition own_row :: "tables \<Rightarrow> uuid \<times> uuid \<times> string \<Rightarrow> bool" where
  "own_row T row \<longleftrightarrow> (\<exists>p \<in> set (payments T). row = (p_id p, p_order_id p, p_gateway p) \<and> p_status p = ''PENDING'')"

definition own_rows :: "tables \<Rightarrow> (uuid \<times> uuid \<times> string) list \<Rightarrow> bool" where
  "own_rows T rows \<longleftrightarrow> distinct (map fst rows) \<and> list_all (own_row T) rows"

lemma own_rows_Nil [simp]: "own_rows T []"
  by (simp add: own_rows_def)

lemma own_rows_Cons [simp]:
  "own_rows T (row # rows) \<longleftrightarrow> own_row T row \<and> fst row \<notin> fst ` set rows \<and> own_rows T rows"
  by (auto simp: own_rows_def)

lemma own_rows_mono:
  assumes "own_rows T rows" and "\<And>row. row \<in> set rows \<Longrightarrow> own_row T row \<Longrightarrow> own_row T' row"
  shows "own_rows T' rows"
  using assms by (auto simp: own_rows_def list_all_iff)

lemma own_row_frame: "payments T' = payments T \<Longrightarrow> own_row T' row = own_row T row"
  by (simp add: own_row_def)

lemma own_row_after_paid:
  assumes "own_row T row" and "fst row \<noteq> pid"
  shows "own_row (paid_tables now pid oid T) row"
proof -
  from assms(1) obtain p where p: "p \<in> set (payments T)" "row = (p_id p, p_order_id p, p_gateway p)"
    "p_status p = ''PENDING''" unfolding own_row_def by blast
  with assms(2) have "p \<in> set (payments (paid_tables now pid oid T))"
    by (force simp: paid_tables_def)
  with p show ?thesis unfolding own_row_def by blast
qed

lemma selected_rows_own:
  assumes "distinct (map p_id (payments T))"
  shows "own_rows T (select_pending T)"
proof -
  have "distinct (map p_id (pending_rows T))"
    using assms by (simp add: pending_rows_def distinct_map_filter)
  moreover have "mset (map p_id (sort_key p_created_at (pending_rows T))) = mset (map p_id (pending_rows T))"
    by simp
  ultimately have "distinct (map p_id (sort_key p_created_at (pending_rows T)))"
    by (metis mset_eq_imp_distinct_iff)
  then have "distinct (map p_id (chosen_rows T))"
    by (simp add: chosen_rows_def take_map [symmetric] distinct_take)
  moreover have "map fst (select_pending T) = map p_id (chosen_rows T)"
    by (simp add: select_pending_eq)
  moreover have "list_all (own_row T) (select_pending T)"
    using chosen_rows_subset [of T]
    by (auto simp: select_pending_eq list_all_iff own_row_def pending_rows_def)
  ultimately show ?thesis by (simp add: own_rows_def)
qed

lemma insert_settlement_payments:
  "insert_settlement_row sid pid g sref a now T = Inr T' \<Longrightarrow> payments T' = payments T"
  by (auto simp: insert_settlement_row_def split: if_splits)

lemma paid_own_payment:
  assumes "p \<in> set (payments T)" and "p_id p = pid"
  shows "\<exists>p' \<in> set (payments (paid_tables now pid oid T)). p_id p' = p_id p \<and> p_order_id p' = p_order_id p \<and>
    p_gateway p' = p_gateway p \<and> p_status p' = ''SUCCESS''"
proof -
  let ?p = "p\<lparr>p_status := ''SUCCESS'', p_updated_at := now\<rparr>"
  from assms have "?p \<in> set (payments (paid_tables now pid oid T))" by (force simp: paid_tables_def)
  then show ?thesis by (rule rev_bexI) simp
qed

context reconciling_contract
begin

lemma insert_settlement_keeps:
  assumes "p \<in> set (payments (st_tables s))" and "p_status p = ''SUCCESS''"
    and i: "insert_settlement v4 sh (p_id p) (p_gateway p) 100 s = (s', r)"
  shows "Q (st_tables s) (st_tables s') \<and> payments (st_tables s') = payments (st_tables s)"
proof -
  let ?q = "insert_settlement_row (v4 (st_drawn s)) (p_id p) (p_gateway p) (''settle-'' @ sh (p_id p)) 100"
  let ?s = "s\<lparr>st_drawn := Suc (st_drawn s)\<rparr>"
  obtain f s1 where n: "next_outcome ?s = (f, s1)" by (cases "next_outcome ?s")
  have "execute ?q ?s = (s', r)" using i by (simp add: insert_settlement_def io_bind_def new_v4_def)
  then have "st_tables s' = st_tables s \<or> ?q (st_now s1) (st_tables s) = Inr (st_tables s')"
    using n next_outcomeD [OF n] by (auto simp: execute_def split: if_splits sum.splits)
  then show ?thesis
    using Q_own_settlement [OF assms(1,2)] insert_settlement_payments Q_refl by (elim disjE) fastforce+
qed

lemma reconcile_rows_keeps:
  "own_rows (st_tables s) rows \<Longrightarrow> reconcile_rows v4 sh rows s = (s', r) \<Longrightarrow> Q (st_tables s) (st_tables s')"
proof (induction rows arbitrary: s)
  case Nil
  then show ?case by (simp add: ret_def Q_refl)
next
  case (Cons row rows)
  from Cons.prems(1) obtain p where p: "p \<in> set (payments (st_tables s))"
    "row = (p_id p, p_order_id p, p_gateway p)" "p_status p = ''PENDING''"
    and new: "p_id p \<notin> fst ` set rows" and own: "own_rows (st_tables s) rows"
    by (auto simp: own_row_def)
  obtain s1 r1 where m: "mark_payment_success (p_id p) (p_order_id p) s = (s1, r1)"
    by (cases "mark_payment_success (p_id p) (p_order_id p) s")
  show ?case
  proof (cases r1)
    case (Inl e)
    with Cons.prems(2) p(2) m have "s' = s1" by (simp add: io_bind_def)
    with m show ?thesis
      by (cases rule: mark_payment_success_cases) (simp_all add: Q_refl Q_own_paid [OF p(1,3)])
  next
    case u: (Inr u)
    with m have s1: "st_tables s1 = paid_tables (st_now s) (p_id p) (p_order_id p) (st_tables s)"
      by (cases rule: mark_payment_success_cases) auto
    then have 1: "Q (st_tables s) (st_tables s1)" using Q_own_paid [OF p(1,3)] by simp
    from paid_own_payment [OF p(1) refl] s1 obtain p' where p': "p' \<in> set (payments (st_tables s1))"
      "p_id p' = p_id p" "p_gateway p' = p_gateway p" "p_status p' = ''SUCCESS''" by metis
    obtain s2 r2 where i: "insert_settlement v4 sh (p_id p') (p_gateway p') 100 s1 = (s2, r2)"
      by (cases "insert_settlement v4 sh (p_id p') (p_gateway p') 100 s1")
    from insert_settlement_keeps [OF p'(1,4) i]
    have 2: "Q (st_tables s1) (st_tables s2)" and ps: "payments (st_tables s2) = payments (st_tables s1)"
      by simp_all
    show ?thesis
    proof (cases r2)
      case (Inl e)
      with Cons.prems(2) p(2) m u i p'(2,3) have "s' = s2" by (simp add: io_bind_def)
      with Q_trans [OF 1 2] show ?thesis by simp
    next
      case (Inr v)
      with Cons.prems(2) p(2) m u i p'(2,3) have rest: "reconcile_rows v4 sh rows s2 = (s', r)"
        by (simp add: io_bind_def)
      have "own_rows (st_tables s2) rows"
      proof (rule own_rows_mono [OF own])
        fix row' assume "row' \<in> set rows" and o: "own_row (st_tables s) row'"
        with new have "fst row' \<noteq> p_id p" by (metis image_eqI)
        from own_row_after_paid [OF o this] show "own_row (st_tables s2) row'"
          by (simp add: own_row_frame [OF ps] s1)
      qed
      from Q_trans [OF Q_trans [OF 1 2] Cons.IH [OF this rest]] show ?thesis .
    qed
  qed
qed

lemma reconcile_once_keeps:
  assumes "distinct (map p_id (payments (st_tables s)))" and r: "reconcile_once v4 sh s = (s', r)"
  shows "Q (st_tables s) (st_tables s')"
proof -
  obtain f s1 where n: "next_outcome s = (f, s1)" by (cases "next_outcome s")
  note t = next_outcomeD [OF n]
  show ?thesis
  proof (cases "f = IoOk")
    case False
    with r n t show ?thesis
      by (simp add: reconcile_once_def pending_payments_def io_bind_def fetch_def Q_refl)
  next
    case True
    with r n t have "reconcile_rows v4 sh (select_pending (st_tables s1)) s1 = (s', r)"
      by (simp add: reconcile_once_def pending_payments_def io_bind_def fetch_def)
    from reconcile_rows_keeps [OF _ this] selected_rows_own [OF assms(1)] t show ?thesis by simp
  qed
qed

end

section \<open>What the whole service keeps\<close>

lemma process_events_refused:
  "world_cast w = None \<Longrightarrow> process_events v4 R C events l w = (w', l', rs) \<Longrightarrow> w_tables w' = w_tables w"
proof (induction events arbitrary: l w w' l' rs)
  case Nil
  then show ?case by simp
next
  case (Cons e events)
  obtain sid payload where e: "e = (sid, payload)" by (cases e)
  obtain w1 res where h: "handle_event v4 R C payload w = (w1, res)"
    by (cases "handle_event v4 R C payload w")
  obtain w2 l2 rs2 where p: "process_events v4 R C events sid w1 = (w2, l2, rs2)"
    by (cases "process_events v4 R C events sid w1")
  from handle_event_refused [OF Cons.prems(1) h] have "w_tables w1 = w_tables w" "world_cast w1 = None"
    by simp_all
  with Cons.IH [OF this(2) p] Cons.prems(2) e h p show ?case by simp
qed

lemma process_turn_refused:
  assumes "world_cast w = None" and t: "process_turn v4 R C (w, l) = (w', l')"
  shows "w_tables w' = w_tables w"
proof -
  obtain w1 x where r: "on_redis (read_after R ''stream:webhooks'' l 50) w = (w1, x)"
    by (cases "on_redis (read_after R ''stream:webhooks'' l 50) w")
  then have "w_store w1 = w_store w" by (auto simp: on_redis_run split: prod.splits)
  with assms(1) have 1: "world_cast w1 = None" "w_tables w1 = w_tables w" by simp_all
  show ?thesis
  proof (cases x)
    case (Inl e)
    with t r 1 show ?thesis by (simp add: process_turn_def)
  next
    case (Inr events)
    obtain w2 l2 rs where p: "process_events v4 R C events l w1 = (w2, l2, rs)"
      by (cases "process_events v4 R C events l w1")
    from process_events_refused [OF 1(1) p] 1(2) t r Inr p show ?thesis by (simp add: process_turn_def)
  qed
qed

context reconciling_contract
begin

lemma service_step_keeps:
  "service_step v4 R C sh x y \<Longrightarrow> tables_ok (w_tables (fst x)) \<Longrightarrow> world_cast (fst x) = None \<Longrightarrow>
     Q (w_tables (fst x)) (w_tables (fst y))"
proof (induction rule: service_step.induct)
  case (turn w l w' l')
  with process_turn_refused [of w v4 R C l w' l'] show ?case by (simp add: Q_refl)
next
  case (reconcile w w' done' l)
  obtain s' where "reconcile_once v4 sh (w_store w) = (s', done')" and "w' = w\<lparr>w_store := s'\<rparr>"
    using reconcile.hyps by (auto simp: on_store_run split: prod.splits)
  with reconcile_once_keeps [of "w_store w" v4 s' done'] reconcile.prems(1) show ?case
    by (simp add: tables_ok_defs)
qed (auto simp: Q_refl dest!: conforms_run [OF api_create_order_conforms]
      conforms_run [OF api_initiate_payment_conforms] conforms_run [OF api_receive_webhook_conforms]
      conforms_run [OF api_get_order_conforms])

lemma service_run_keeps:
  assumes "(service_step v4 R C sh)\<^sup>*\<^sup>* x y" and "tables_ok (w_tables (fst x))"
    and "world_cast (fst x) = None"
  shows "Q (w_tables (fst x)) (w_tables (fst y))"
  using assms(1)
proof (induction rule: rtranclp_induct)
  case base
  show ?case by (rule Q_refl)
next
  case (step y z)
  from sd.service_run_conforms [OF step.hyps(1)] assms(2) have "tables_ok (w_tables (fst y))"
    by (simp add: sound_step_def)
  moreover from service_run_cast [OF step.hyps(1)] assms(3) have "world_cast (fst y) = None" by simp
  ultimately have "Q (w_tables (fst y)) (w_tables (fst z))" by (rule service_step_keeps [OF step.hyps(2)])
  with step.IH show ?case by (rule Q_trans)
qed

lemma reachable_keeps:
  "reachable v4 R C sh x \<Longrightarrow> world_cast (fst x) = None \<Longrightarrow> Q no_tables (w_tables (fst x))"
proof (induction rule: reachable.induct)
  case (start w)
  then show ?case by (simp add: Q_refl)
next
  case (step x y)
  from service_step_cast [OF step.hyps(2)] step.prems have c: "world_cast (fst x) = None" by simp
  from service_step_keeps [OF step.hyps(2) reachable_tables_ok [OF step.hyps(1)] c]
  show ?case by (rule Q_trans [OF step.IH [OF c]])
qed

end

section \<open>Paid orders, successful payments, settlements\<close>

definition paid_by :: "payment_row \<Rightarrow> order_row \<Rightarrow> bool" where
  "paid_by p r \<longleftrightarrow> p_order_id p = o_id r \<and> p_status p = ''SUCCESS''"

definition settles :: "(uuid \<Rightarrow> string) \<Rightarrow> payment_row \<Rightarrow> settlement_row \<Rightarrow> bool" where
  "settles sh p x \<longleftrightarrow> p_id p = s_payment_id x \<and> p_gateway p = s_gateway x \<and> p_status p = ''SUCCESS'' \<and>
     s_settlement_ref x = ''settle-'' @ sh (p_id p) \<and> s_amount x = 100"

text \<open>
  An order is paid if and only if one of its payments is successful; each settlement is that of a
  successful payment; no webhook is logged.
\<close>

definition settled_ok :: "(uuid \<Rightarrow> string) \<Rightarrow> tables \<Rightarrow> bool" where
  "settled_ok sh T \<longleftrightarrow> transactions T = [] \<and>
     (\<forall>r \<in> set (orders T). o_status r = ''PAID'' \<longleftrightarrow> (\<exists>p \<in> set (payments T). paid_by p r)) \<and>
     (\<forall>x \<in> set (settlements T). \<exists>p \<in> set (payments T). settles sh p x)"

definition settled_step :: "(uuid \<Rightarrow> string) \<Rightarrow> tables \<Rightarrow> tables \<Rightarrow> bool" where
  "settled_step sh T T' \<longleftrightarrow> (tables_ok T \<longrightarrow> tables_ok T' \<and> (settled_ok sh T \<longrightarrow> settled_ok sh T'))"

lemma settled_stepI:
  assumes "sound_step T T'" and "tables_ok T \<Longrightarrow> settled_ok sh T \<Longrightarrow> settled_ok sh T'"
  shows "settled_step sh T T'"
  using assms by (auto simp: settled_step_def sound_step_def)

lemma insert_order_settled:
  assumes i: "insert_order oid u a c now T = Inr T'" and T: "tables_ok T" and S: "settled_ok sh T"
  shows "settled_ok sh T'"
proof -
  let ?r = "\<lparr>o_id = oid, o_user_id = u, o_amount = a, o_currency = c, o_status = ''PENDING'',
    o_created_at = now, o_updated_at = now\<rparr>"
  from i have T': "T' = T\<lparr>orders := orders T @ [?r]\<rparr>" and new: "oid \<notin> o_id ` set (orders T)"
    by (auto simp: insert_order_def list_ex_image split: if_splits)
  have "\<not> paid_by p ?r" if "p \<in> set (payments T)" for p
    using that new T by (auto simp: paid_by_def tables_ok_defs list_all_iff)
  with S show ?thesis by (simp add: T' settled_ok_def)
qed

lemma insert_payment_settled:
  assumes i: "insert_payment pid oid g m url now T = Inr T'" and S: "settled_ok sh T"
  shows "settled_ok sh T'"
proof -
  from i obtain p where T': "T' = T\<lparr>payments := payments T @ [p]\<rparr>" and "p_status p = ''PENDING''"
    by (auto simp: insert_payment_def split: if_splits)
  then have "\<not> paid_by p r" and "\<not> settles sh p x" for r x by (simp_all add: paid_by_def settles_def)
  with S show ?thesis by (simp add: T' settled_ok_def)
qed

lemma insert_settlement_settled:
  assumes i: "insert_settlement_row sid (p_id p) (p_gateway p) (''settle-'' @ sh (p_id p)) 100 now T = Inr T'"
    and p: "p \<in> set (payments T)" "p_status p = ''SUCCESS''" and S: "settled_ok sh T"
  shows "settled_ok sh T'"
proof -
  let ?x = "\<lparr>s_id = sid, s_payment_id = p_id p, s_gateway = p_gateway p,
    s_settlement_ref = ''settle-'' @ sh (p_id p), s_amount = 100, s_status = ''MATCHED'', s_created_at = now\<rparr>"
  from i have "T' = T \<or> T' = T\<lparr>settlements := settlements T @ [?x]\<rparr>"
    by (auto simp: insert_settlement_row_def split: if_splits)
  moreover from p have "\<exists>p \<in> set (payments T). settles sh p ?x"
    by (intro bexI [of _ p]) (simp_all add: settles_def)
  ultimately show ?thesis using S by (auto simp: settled_ok_def)
qed

lemma paid_tables_paid_by:
  assumes T: "tables_ok T" and p: "p \<in> set (payments T)"
  shows "(\<exists>q \<in> set (payments (paid_tables now (p_id p) (p_order_id p) T)). paid_by q r) \<longleftrightarrow>
    o_id r = p_order_id p \<or> (\<exists>q \<in> set (payments T). paid_by q r)"
proof -
  have own: "q = p" if "q \<in> set (payments T)" "p_id q = p_id p" for q
    using T that p by (auto simp: tables_ok_defs distinct_map inj_on_def)
  let ?f = "\<lambda>q. if p_id q = p_id p then q\<lparr>p_status := ''SUCCESS'', p_updated_at := now\<rparr> else q"
  have f: "paid_by (?f q) r \<longleftrightarrow> p_order_id q = o_id r \<and> (p_id q = p_id p \<or> p_status q = ''SUCCESS'')" for q
    by (simp add: paid_by_def)
  have "payments (paid_tables now (p_id p) (p_order_id p) T) = map ?f (payments T)"
    by (simp add: paid_tables_def)
  then have "(\<exists>q \<in> set (payments (paid_tables now (p_id p) (p_order_id p) T)). paid_by q r) \<longleftrightarrow>
      (\<exists>q \<in> set (payments T). paid_by (?f q) r)" by (simp only: set_map bex_simps)
  also have "\<dots> \<longleftrightarrow>
      (\<exists>q \<in> set (payments T). p_order_id q = o_id r \<and> (p_id q = p_id p \<or> p_status q = ''SUCCESS''))"
    by (simp only: f)
  also have "\<dots> \<longleftrightarrow> o_id r = p_order_id p \<or> (\<exists>q \<in> set (payments T). paid_by q r)"
    using p own unfolding paid_by_def by metis
  finally show ?thesis .
qed

lemma paid_tables_settles:
  assumes "\<exists>q \<in> set (payments T). settles sh q x"
  shows "\<exists>q \<in> set (payments (paid_tables now pid oid T)). settles sh q x"
proof -
  from assms obtain q where q: "q \<in> set (payments T)" "settles sh q x" by blast
  let ?f = "\<lambda>p. if p_id p = pid then p\<lparr>p_status := ''SUCCESS'', p_updated_at := now\<rparr> else p"
  from q(2) have "settles sh (?f q) x" by (simp add: settles_def)
  moreover from q(1) have "?f q \<in> set (payments (paid_tables now pid oid T))"
    unfolding paid_tables_def by (simp add: image_iff) blast
  ultimately show ?thesis by blast
qed

lemma paid_tables_settled:
  assumes T: "tables_ok T" and p: "p \<in> set (payments T)" and S: "settled_ok sh T"
  shows "settled_ok sh (paid_tables now (p_id p) (p_order_id p) T)"
  unfolding settled_ok_def paid_tables_paid_by [OF T p] paid_tables_frame
proof (intro conjI ballI)
  from S show "transactions T = []" by (simp add: settled_ok_def)
next
  fix r assume "r \<in> set (orders (paid_tables now (p_id p) (p_order_id p) T))"
  then obtain r0 where r0: "r0 \<in> set (orders T)"
    and r: "r = (if o_id r0 = p_order_id p then r0\<lparr>o_status := ''PAID'', o_updated_at := now\<rparr> else r0)"
    by (auto simp: paid_tables_def)
  from S r0 have "o_status r0 = ''PAID'' \<longleftrightarrow> (\<exists>q \<in> set (payments T). paid_by q r0)"
    by (simp add: settled_ok_def)
  moreover have "paid_by q r = paid_by q r0" for q by (simp add: r paid_by_def)
  ultimately show "o_status r = ''PAID'' \<longleftrightarrow> o_id r = p_order_id p \<or> (\<exists>q \<in> set (payments T). paid_by q r)"
    by (cases "o_id r0 = p_order_id p") (simp_all add: r)
next
  fix x assume "x \<in> set (settlements T)"
  with S have "\<exists>q \<in> set (payments T). settles sh q x" by (simp add: settled_ok_def)
  then show "\<exists>q \<in> set (payments (paid_tables now (p_id p) (p_order_id p) T)). settles sh q x"
    by (rule paid_tables_settles)
qed

interpretation st: reconciling_contract "settled_step sh" sh for sh
proof unfold_locales
  show "settled_step sh T T" for T by (simp add: settled_step_def)
  show "settled_step sh T U \<Longrightarrow> settled_step sh U V \<Longrightarrow> settled_step sh T V" for T U V
    by (auto simp: settled_step_def)
  show "insert_order oid u a c now T = Inr T' \<Longrightarrow> settled_step sh T T'" for oid u a c now T T'
    using sound_statementD [OF insert_order_sound] insert_order_settled by (blast intro: settled_stepI)
  show "insert_payment pid oid g (payment_method_str m) url now T = Inr T' \<Longrightarrow> settled_step sh T T'"
    for pid oid g m url now T T'
    using sound_statementD [OF insert_payment_sound [OF payment_method_str_range]] insert_payment_settled
    by (blast intro: settled_stepI)
  show "p \<in> set (payments T) \<Longrightarrow> settled_step sh T (paid_tables now (p_id p) (p_order_id p) T)" for p T now
    using paid_tables_sound paid_tables_settled by (blast intro: settled_stepI)
  show "p \<in> set (payments T) \<Longrightarrow> p_status p = ''SUCCESS'' \<Longrightarrow>
      insert_settlement_row sid (p_id p) (p_gateway p) (''settle-'' @ sh (p_id p)) 100 now T = Inr T' \<Longrightarrow>
      settled_step sh T T'" for p T sid now T'
    using sound_statementD [OF insert_settlement_row_sound] insert_settlement_settled
    by (blast intro: settled_stepI)
qed

lemma reachable_settled_ok:
  assumes "reachable v4 R C sh x" and "world_cast (fst x) = None"
  shows "settled_ok sh (w_tables (fst x))"
proof -
  have "settled_ok sh no_tables" by (simp add: settled_ok_def no_tables_def)
  with st.reachable_keeps [OF assms] show ?thesis by (simp add: settled_step_def)
qed

lemma one_settlement_each:
  assumes "settled_ok sh T" and "tables_ok T"
  shows "distinct (map s_payment_id (settlements T))"
proof -
  have "s_settlement_ref x = ''settle-'' @ sh (s_payment_id x)" if "x \<in> set (settlements T)" for x
    using assms(1) that by (auto simp: settled_ok_def settles_def)
  then have "map s_settlement_ref (settlements T) =
      map (\<lambda>pid. ''settle-'' @ sh pid) (map s_payment_id (settlements T))" by simp
  with assms(2) show ?thesis by (metis distinct_map tables_ok_def settlements_ok_def)
qed

text \<open>
  C3: In every state that the service reaches on a database as the migrations make it, whatever
  interleaves and whatever fails: an order is PAID if and only if one of its payments is SUCCESS; each
  settlement is that of a SUCCESS payment, under the payment's gateway and a reference made of its id,
  with the amount 100 whatever the order's amount is; no payment is settled twice; and no webhook is
  logged.
\<close>

theorem orders_are_paid_by_their_payments:
  assumes "reachable v4 R C sh (w, l)" and "st_cast (w_store w) = None"
  shows "list_all (\<lambda>r. o_status r = ''PAID'' \<longleftrightarrow>
      list_ex (\<lambda>p. p_order_id p = o_id r \<and> p_status p = ''SUCCESS'') (payments (w_tables w))) (orders (w_tables w)) \<and>
    list_all (\<lambda>x. s_amount x = 100 \<and> s_settlement_ref x = ''settle-'' @ sh (s_payment_id x) \<and>
      list_ex (\<lambda>p. p_id p = s_payment_id x \<and> p_gateway p = s_gateway x \<and> p_status p = ''SUCCESS'')
        (payments (w_tables w))) (settlements (w_tables w)) \<and>
    distinct (map s_payment_id (settlements (w_tables w))) \<and>
    transactions (w_tables w) = []"
proof -
  have S: "settled_ok sh (w_tables w)" using reachable_settled_ok [OF assms(1)] assms(2) by simp
  have T: "tables_ok (w_tables w)" using reachable_tables_ok [OF assms(1)] by simp
  from one_settlement_each [OF S T] S show ?thesis
    by (fastforce simp: settled_ok_def paid_by_def settles_def list_all_iff list_ex_iff)
qed

theorem orders_are_paid_by_their_payments_witness:
  "list_all (\<lambda>r. o_status r = ''PAID'' \<longleftrightarrow>
      list_ex (\<lambda>p. p_order_id p = o_id r \<and> p_status p = ''SUCCESS'') (payments (w_tables demo_paid)))
     (orders (w_tables demo_paid)) \<and> orders (w_tables demo_paid) = [demo_order ''PAID'']"
proof -
  have "st_cast (w_store demo_paid) = None" and "orders (w_tables demo_paid) = [demo_order ''PAID'']"
    by (simp_all add: demo_paid_def demo_world_def)
  with orders_are_paid_by_their_payments [OF demo_states_reachable(4)] show ?thesis by blast
qed

section \<open>From the request to the paid order\<close>

lemma initiated_payment_row:
  assumes "api_initiate_payment v4 gs clock req w = (w', Inr resp)"
  shows "\<exists>p \<in> set (payments (w_tables w')). p_id p = ipr_payment_id resp \<and> p_order_id p = ip_order_id req"
  using assms
  by (auto simp: api_initiate_payment_def create_payment_def io_bind_def io_map_err_def io_lift_def on_store_run
      new_v4_def execute_def insert_payment_def ret_def Let_def map_sum_eq_Inl map_sum_eq_Inr
      split: prod.splits sum.splits if_splits)

lemma evolves_payment:
  assumes "evolves T T'" and "p \<in> set (payments T)"
  shows "\<exists>p' \<in> set (payments T'). p_id p' = p_id p \<and> p_order_id p' = p_order_id p"
proof -
  from assms(1) have "grows payment_adv (payments T) (payments T')" by (simp add: evolves_def)
  from grows_in [OF this assms(2)] obtain p' where "p' \<in> set (payments T')" "payment_adv p p'" .
  then show ?thesis by (auto simp: payment_adv_def)
qed

text \<open>A pass that takes all pending payments leaves the order of every payment paid.\<close>

lemma pass_pays_order:
  assumes T: "tables_ok (st_tables s)" and S: "settled_ok sh (st_tables s)"
    and ok: "st_outcomes s = []" and few: "length (pending_rows (st_tables s)) \<le> 100"
    and p: "p \<in> set (payments (st_tables s))"
    and c: "reconcile_once v4 sh s = (s', res)"
  shows "res = Inr () \<and> st_outcomes s' = [] \<and> select_order (p_order_id p) (st_tables s') = Some (p_order_id p, ''PAID'')"
proof -
  let ?ids = "p_order_id ` set (chosen_rows (st_tables s))"
  from reconcile_once_ok [OF ok, of v4 sh] c have r: "res = Inr ()"
    and o: "orders (st_tables s') = mark_orders (st_now s) ?ids (orders (st_tables s))" by auto
  have ans: "st_outcomes s' = []" using conforms_run [OF reconcile_once_answered c] ok by simp
  from T p obtain r0 where r0: "r0 \<in> set (orders (st_tables s))" "o_id r0 = p_order_id p"
    by (auto simp: tables_ok_defs list_all_iff)
  have paid: "p_order_id p \<in> ?ids \<or> o_status r1 = ''PAID''"
    if "r1 \<in> set (orders (st_tables s))" "o_id r1 = p_order_id p" for r1
  proof (cases "is_pending p")
    case True
    with p few have "p \<in> set (chosen_rows (st_tables s))" by (simp add: chosen_rows_def pending_rows_def)
    then show ?thesis by blast
  next
    case False
    with T p have "paid_by p r1" using that(2) by (auto simp: tables_ok_defs list_all_iff paid_by_def)
    with S p that(1) show ?thesis by (auto simp: settled_ok_def)
  qed
  let ?f = "\<lambda>r. if o_id r \<in> ?ids then r\<lparr>o_status := ''PAID'', o_updated_at := st_now s\<rparr> else r"
  have all: "list_all (\<lambda>r. o_id r = p_order_id p \<longrightarrow> o_status r = ''PAID'') (orders (st_tables s'))"
    unfolding o mark_orders_def list_all_iff
  proof (intro ballI impI)
    fix r assume "r \<in> set (map ?f (orders (st_tables s)))" and id: "o_id r = p_order_id p"
    then obtain r1 where r1: "r1 \<in> set (orders (st_tables s))" "r = ?f r1" by (simp only: set_map) blast
    with id have "o_id r1 = p_order_id p" by (cases "o_id r1 \<in> ?ids") simp_all
    with paid [OF r1(1) this] r1(2) show "o_status r = ''PAID''" by (cases "o_id r1 \<in> ?ids") simp_all
  qed
  have "?f r0 \<in> set (orders (st_tables s'))" using r0(1) unfolding o mark_orders_def by (simp only: set_map) blast
  moreover have "o_id (?f r0) = p_order_id p" using r0(2) by (cases "o_id r0 \<in> ?ids") simp_all
  ultimately show ?thesis using r ans select_order_paid [OF _ _ all] by blast
qed

text \<open>
  C1: End to end, on a database as the migrations make it: once \<open>POST /payments/initiate\<close> has answered
  for an order, then whatever the service does next and whatever fails, the first pass of the
  reconciliation that starts with at most 100 payments pending and has all its round trips answered
  succeeds, and \<open>GET /orders/:id\<close>, if answered, then shows the order PAID. No webhook and no gateway
  has a part in it.
\<close>

theorem initiated_payment_gets_paid:
  assumes "reachable v4 R C sh (w0, l0)" and "st_cast (w_store w0) = None"
    and i: "api_initiate_payment v4 (api_gateways sh) clock req w0 = (w1, Inr resp)"
    and run: "(service_step v4 R C sh)\<^sup>*\<^sup>* (w1, l0) (w2, l2)"
    and ok: "st_outcomes (w_store w2) = []"
    and few: "length (filter (\<lambda>p. p_status p = ''PENDING'') (payments (w_tables w2))) \<le> 100"
    and c: "on_store (reconcile_once v4 sh) w2 = (w3, res)"
  shows "res = Inr () \<and> snd (api_get_order (ip_order_id req) w3) = Inr (ip_order_id req, ''PAID'')"
proof -
  note step = service_step.initiate [OF i]
  have r2: "reachable v4 R C sh (w2, l2)" by (rule reachable_run [OF run reachable.step [OF assms(1) step]])
  have cast: "world_cast w2 = None"
    using service_run_cast [OF run] service_step_cast [where R = R and C = C, OF step] assms(2) by simp
  have T: "tables_ok (w_tables w2)" using reachable_tables_ok [OF r2] by simp
  have S: "settled_ok sh (w_tables w2)" using reachable_settled_ok [OF r2] cast by simp
  have "tables_ok (w_tables w1)"
    using reachable_tables_ok [OF reachable.step [OF assms(1) step]] by simp
  with sd.service_run_conforms [OF run] have "evolves (w_tables w1) (w_tables w2)" by (simp add: sound_step_def)
  with initiated_payment_row [OF i] obtain p where p: "p \<in> set (payments (w_tables w2))" "p_order_id p = ip_order_id req"
    using evolves_payment by metis
  obtain s' where s': "reconcile_once v4 sh (w_store w2) = (s', res)" and w3: "w3 = w2\<lparr>w_store := s'\<rparr>"
    using c by (auto simp: on_store_run split: prod.splits)
  from few have "length (pending_rows (w_tables w2)) \<le> 100" by (simp add: pending_rows_def)
  from pass_pays_order [OF T S ok this p(1) s'] p(2) w3 show ?thesis
    by (simp add: api_get_order_def io_bind_def io_map_err_def on_store_run fetch_ok ret_def)
qed

theorem initiated_payment_gets_paid_witness:
  "snd (api_get_order 100 demo_paid) = Inr (100, ''PAID'')"
proof -
  let ?w2 = "demo_world [demo_order ''PENDING''] [demo_payment ''PENDING''] [] 3"
  have 1: "st_cast (w_store (demo_world [demo_order ''PENDING''] [] [] 1)) = None"
    "st_outcomes (w_store ?w2) = []" "length (filter (\<lambda>p. p_status p = ''PENDING'') (payments (w_tables ?w2))) \<le> 100"
    by (simp_all add: demo_world_def)
  from initiated_payment_gets_paid [OF demo_states_reachable(2) 1(1) demo_initiate rtranclp.rtrancl_refl 1(2,3) demo_reconcile]
  show ?thesis by simp
qed

end
