(* ===== verification/Ledger.thy ===== *)
theory Ledger
  imports Settlement
begin

text \<open>
  The payment service against an abstract ledger of orders and payments. Whatever the service
  does to its tables is a sequence of ledger events: an order is placed, a payment is started for a
  placed order, a payment is settled together with its own order, or a payment and an order that
  do not belong together are marked in one stroke, as a webhook may name them. On a database that
  refuses webhooks the last kind never happens, and a payment is settled once. The ledger knows
  nothing of statements, transactions, retries and failed round trips.
\<close>

section \<open>The ledger\<close>

record ledger_order =
  lo_user :: string
  lo_amount :: i64
  lo_currency :: string
  lo_paid :: bool

record ledger_payment =
  lp_order :: uuid
  lp_gateway :: string
  lp_method :: string
  lp_paid :: bool

record ledger =
  l_orders :: "uuid \<Rightarrow> ledger_order option"
  l_payments :: "uuid \<Rightarrow> ledger_payment option"

datatype ledger_event =
    Place uuid string i64 string
  | Start uuid uuid string string
  | Settle uuid uuid
  | Mark uuid uuid

text \<open>The payment with the first id is one for the order with the second.\<close>

definition own_payment :: "ledger \<Rightarrow> uuid \<Rightarrow> uuid \<Rightarrow> bool" where
  "own_payment L pid oid \<longleftrightarrow> (case l_payments L pid of None \<Rightarrow> False | Some p \<Rightarrow> lp_order p = oid)"

text \<open>Whichever of the two exists becomes paid.\<close>

definition mark_both :: "uuid \<Rightarrow> uuid \<Rightarrow> ledger \<Rightarrow> ledger" where
  "mark_both pid oid L =
     L\<lparr>l_payments := (l_payments L)(pid := map_option (\<lambda>p. p\<lparr>lp_paid := True\<rparr>) (l_payments L pid)),
       l_orders := (l_orders L)(oid := map_option (\<lambda>r. r\<lparr>lo_paid := True\<rparr>) (l_orders L oid))\<rparr>"

text \<open>
  An event of the ledger, where it is enabled: a settlement is one of a payment with its own order,
  a marking is one of any other two ids.
\<close>

fun ledger_apply :: "ledger_event \<Rightarrow> ledger \<Rightarrow> ledger option" where
  "ledger_apply (Place oid user amount currency) L =
     (if l_orders L oid \<noteq> None then None
      else Some (L\<lparr>l_orders := (l_orders L)(oid :=
        Some \<lparr>lo_user = user, lo_amount = amount, lo_currency = currency, lo_paid = False\<rparr>)\<rparr>))"
| "ledger_apply (Start pid oid gateway meth) L =
     (if l_payments L pid \<noteq> None \<or> l_orders L oid = None then None
      else Some (L\<lparr>l_payments := (l_payments L)(pid :=
        Some \<lparr>lp_order = oid, lp_gateway = gateway, lp_method = meth, lp_paid = False\<rparr>)\<rparr>))"
| "ledger_apply (Settle pid oid) L = (if own_payment L pid oid then Some (mark_both pid oid L) else None)"
| "ledger_apply (Mark pid oid) L = (if own_payment L pid oid then None else Some (mark_both pid oid L))"

fun ledger_run :: "ledger_event list \<Rightarrow> ledger \<Rightarrow> ledger option" where
  "ledger_run [] L = Some L"
| "ledger_run (e # es) L = (case ledger_apply e L of None \<Rightarrow> None | Some L' \<Rightarrow> ledger_run es L')"

definition no_ledger :: ledger where
  "no_ledger = \<lparr>l_orders = (\<lambda>_. None), l_payments = (\<lambda>_. None)\<rparr>"

lemma ledger_run_append:
  "ledger_run (es @ es') L = (case ledger_run es L of None \<Rightarrow> None | Some L' \<Rightarrow> ledger_run es' L')"
  by (induction es arbitrary: L) (auto split: option.splits)

text \<open>
  What every run of the ledger guarantees: payments belong to placed orders, nothing placed or
  started is changed except by being paid, and nothing is paid but by a settlement or a marking
  that names it.
\<close>

definition ledger_ok :: "ledger \<Rightarrow> bool" where
  "ledger_ok L \<longleftrightarrow> (\<forall>pid p. l_payments L pid = Some p \<longrightarrow> l_orders L (lp_order p) \<noteq> None)"

lemma ledger_apply_ok: "ledger_apply e L = Some L' \<Longrightarrow> ledger_ok L \<Longrightarrow> ledger_ok L'"
  by (cases e) (auto simp: ledger_ok_def mark_both_def split: if_splits)

lemma ledger_run_ok: "ledger_run es L = Some L' \<Longrightarrow> ledger_ok L \<Longrightarrow> ledger_ok L'"
  by (induction es arbitrary: L) (auto split: option.splits intro: ledger_apply_ok)

lemma ledger_apply_order:
  "ledger_apply e L = Some L' \<Longrightarrow> l_orders L oid = Some r \<Longrightarrow>
     \<exists>r'. l_orders L' oid = Some r' \<and> lo_amount r' = lo_amount r \<and> lo_user r' = lo_user r \<and>
       lo_currency r' = lo_currency r \<and>
       lo_paid r' = (lo_paid r \<or> (\<exists>pid. e = Settle pid oid \<or> e = Mark pid oid))"
  by (cases e) (auto simp: mark_both_def split: if_splits)

lemma ledger_run_order:
  "ledger_run es L = Some L' \<Longrightarrow> l_orders L oid = Some r \<Longrightarrow>
     \<exists>r'. l_orders L' oid = Some r' \<and> lo_amount r' = lo_amount r \<and> lo_user r' = lo_user r \<and>
       lo_currency r' = lo_currency r \<and>
       lo_paid r' = (lo_paid r \<or> (\<exists>pid. Settle pid oid \<in> set es \<or> Mark pid oid \<in> set es))"
proof (induction es arbitrary: L r)
  case Nil
  then show ?case by simp
next
  case (Cons e es)
  then obtain L1 where 1: "ledger_apply e L = Some L1" "ledger_run es L1 = Some L'"
    by (auto split: option.splits)
  from ledger_apply_order [OF 1(1) Cons.prems(2)] obtain r1 where r1: "l_orders L1 oid = Some r1"
    "lo_amount r1 = lo_amount r" "lo_user r1 = lo_user r" "lo_currency r1 = lo_currency r"
    "lo_paid r1 = (lo_paid r \<or> (\<exists>pid. e = Settle pid oid \<or> e = Mark pid oid))" by blast
  from Cons.IH [OF 1(2) r1(1)] r1(2-5) show ?case by auto
qed

section \<open>The tables as a ledger\<close>

definition order_entry :: "order_row \<Rightarrow> ledger_order" where
  "order_entry r = \<lparr>lo_user = o_user_id r, lo_amount = o_amount r, lo_currency = o_currency r,
     lo_paid = (o_status r = ''PAID'')\<rparr>"

definition payment_entry :: "payment_row \<Rightarrow> ledger_payment" where
  "payment_entry p = \<lparr>lp_order = p_order_id p, lp_gateway = p_gateway p, lp_method = p_method p,
     lp_paid = (p_status p = ''SUCCESS'')\<rparr>"

definition ledger_of :: "tables \<Rightarrow> ledger" where
  "ledger_of T =
     \<lparr>l_orders = (\<lambda>oid. map_option order_entry (find (\<lambda>r. o_id r = oid) (orders T))),
      l_payments = (\<lambda>pid. map_option payment_entry (find (\<lambda>p. p_id p = pid) (payments T)))\<rparr>"

lemma ledger_of_no_tables [simp]: "ledger_of no_tables = no_ledger"
  by (simp add: ledger_of_def no_tables_def no_ledger_def)

lemma ledger_of_frame:
  "orders T' = orders T \<Longrightarrow> payments T' = payments T \<Longrightarrow> ledger_of T' = ledger_of T"
  by (simp add: ledger_of_def)

text \<open>\<open>T'\<close> is what some ledger events make of \<open>T\<close>.\<close>

definition ledger_refines :: "tables \<Rightarrow> tables \<Rightarrow> bool" where
  "ledger_refines T T' \<longleftrightarrow> (\<exists>es. ledger_run es (ledger_of T) = Some (ledger_of T'))"

lemma ledger_refines_refl: "ledger_refines T T"
  unfolding ledger_refines_def by (rule exI [of _ "[]"]) simp

lemma ledger_refines_trans:
  assumes "ledger_refines T U" and "ledger_refines U V"
  shows "ledger_refines T V"
proof -
  from assms obtain es es' where "ledger_run es (ledger_of T) = Some (ledger_of U)"
    "ledger_run es' (ledger_of U) = Some (ledger_of V)" unfolding ledger_refines_def by blast
  then have "ledger_run (es @ es') (ledger_of T) = Some (ledger_of V)" by (simp add: ledger_run_append)
  then show ?thesis unfolding ledger_refines_def by blast
qed

lemma ledger_refines_event: "ledger_apply e (ledger_of T) = Some (ledger_of T') \<Longrightarrow> ledger_refines T T'"
  unfolding ledger_refines_def by (rule exI [of _ "[e]"]) simp

lemma insert_order_ledger:
  assumes "insert_order oid u a c now T = Inr T'"
  shows "ledger_apply (Place oid u a c) (ledger_of T) = Some (ledger_of T')"
proof -
  from assms have new: "find (\<lambda>r. o_id r = oid) (orders T) = None"
    by (auto simp: insert_order_def find_None_key list_ex_image split: if_splits)
  with assms show ?thesis
    by (auto simp: insert_order_def ledger_of_def order_entry_def find_append fun_eq_iff
        split: if_splits option.splits)
qed

lemma insert_payment_ledger:
  assumes "insert_payment pid oid g m url now T = Inr T'"
  shows "ledger_apply (Start pid oid g m) (ledger_of T) = Some (ledger_of T')"
proof -
  from assms have new: "find (\<lambda>p. p_id p = pid) (payments T) = None"
    and ex: "find (\<lambda>r. o_id r = oid) (orders T) \<noteq> None"
    by (auto simp: insert_payment_def find_None_key list_ex_image split: if_splits)
  with assms show ?thesis
    by (auto simp: insert_payment_def ledger_of_def payment_entry_def find_append fun_eq_iff
        split: if_splits option.splits)
qed

lemma paid_tables_marks_both: "ledger_of (paid_tables now pid oid T) = mark_both pid oid (ledger_of T)"
proof -
  let ?f = "\<lambda>p. if p_id p = pid then p\<lparr>p_status := ''SUCCESS'', p_updated_at := now\<rparr> else p"
  let ?g = "\<lambda>r. if o_id r = oid then r\<lparr>o_status := ''PAID'', o_updated_at := now\<rparr> else r"
  have p: "map_option payment_entry (find (\<lambda>p. p_id p = x) (map ?f (payments T))) =
      (if x = pid then map_option (\<lambda>p. p\<lparr>lp_paid := True\<rparr>) (map_option payment_entry (find (\<lambda>p. p_id p = x) (payments T)))
       else map_option payment_entry (find (\<lambda>p. p_id p = x) (payments T)))" for x
    by (subst find_map_key) (auto simp: option.map_comp payment_entry_def dest!: find_SomeD intro!: option.map_cong)
  have r: "map_option order_entry (find (\<lambda>r. o_id r = x) (map ?g (orders T))) =
      (if x = oid then map_option (\<lambda>r. r\<lparr>lo_paid := True\<rparr>) (map_option order_entry (find (\<lambda>r. o_id r = x) (orders T)))
       else map_option order_entry (find (\<lambda>r. o_id r = x) (orders T)))" for x
    by (subst find_map_key) (auto simp: option.map_comp order_entry_def dest!: find_SomeD intro!: option.map_cong)
  show ?thesis
    by (simp add: ledger_of_def paid_tables_def mark_both_def p r fun_eq_iff)
qed

lemma paid_tables_ledger:
  "ledger_apply (if own_payment (ledger_of T) pid oid then Settle pid oid else Mark pid oid) (ledger_of T) =
     Some (ledger_of (paid_tables now pid oid T))"
  by (simp add: paid_tables_marks_both)

lemma insert_transaction_ledger:
  "insert_transaction cast tid pid g txn ev st raw now T = Inr T' \<Longrightarrow> ledger_of T' = ledger_of T"
  by (rule ledger_of_frame) (auto simp: insert_transaction_def split: if_splits)

lemma insert_settlement_ledger:
  "insert_settlement_row sid pid g sref a now T = Inr T' \<Longrightarrow> ledger_of T' = ledger_of T"
  by (rule ledger_of_frame) (auto simp: insert_settlement_row_def split: if_splits)

lemma ledger_refines_same: "ledger_of T' = ledger_of T \<Longrightarrow> ledger_refines T T'"
  unfolding ledger_refines_def by (rule exI [of _ "[]"]) simp

interpretation lg: repository_contract ledger_refines
  by unfold_locales
    (auto intro: ledger_refines_refl ledger_refines_trans ledger_refines_same
      ledger_refines_event [OF insert_order_ledger] ledger_refines_event [OF insert_payment_ledger]
      ledger_refines_event [OF paid_tables_ledger] insert_transaction_ledger insert_settlement_ledger)

section \<open>The service refines the strict ledger\<close>

text \<open>
  In the strict ledger nothing is marked, and only a payment that is not yet paid is settled.
\<close>

fun strict_event :: "ledger_event \<Rightarrow> ledger \<Rightarrow> bool" where
  "strict_event (Place oid user amount currency) L = True"
| "strict_event (Start pid oid gateway meth) L = True"
| "strict_event (Settle pid oid) L = (case l_payments L pid of None \<Rightarrow> False | Some p \<Rightarrow> \<not> lp_paid p)"
| "strict_event (Mark pid oid) L = False"

fun strict_run :: "ledger_event list \<Rightarrow> ledger \<Rightarrow> ledger option" where
  "strict_run [] L = Some L"
| "strict_run (e # es) L =
     (if strict_event e L then (case ledger_apply e L of None \<Rightarrow> None | Some L' \<Rightarrow> strict_run es L') else None)"

lemma strict_run_append:
  "strict_run (es @ es') L = (case strict_run es L of None \<Rightarrow> None | Some L' \<Rightarrow> strict_run es' L')"
  by (induction es arbitrary: L) (auto split: option.splits)

text \<open>What it guarantees: an order is paid if and only if a payment for it is.\<close>

definition balanced :: "ledger \<Rightarrow> bool" where
  "balanced L \<longleftrightarrow> ledger_ok L \<and> (\<forall>oid r. l_orders L oid = Some r \<longrightarrow>
     (lo_paid r \<longleftrightarrow> (\<exists>pid p. l_payments L pid = Some p \<and> lp_order p = oid \<and> lp_paid p)))"

lemma balancedD:
  "balanced L \<Longrightarrow> l_orders L oid = Some r \<Longrightarrow>
     lo_paid r \<longleftrightarrow> (\<exists>pid p. l_payments L pid = Some p \<and> lp_order p = oid \<and> lp_paid p)"
  by (simp add: balanced_def)

lemma settle_balanced:
  assumes B: "balanced L" and own: "own_payment L pid oid"
  shows "balanced (mark_both pid oid L)"
proof -
  from own obtain p where p: "l_payments L pid = Some p" "lp_order p = oid"
    by (auto simp: own_payment_def split: option.splits)
  have "ledger_ok (mark_both pid oid L)"
    using B own ledger_apply_ok [of "Settle pid oid" L] by (simp add: balanced_def)
  moreover have "lo_paid r \<longleftrightarrow> (\<exists>pid' q. l_payments (mark_both pid oid L) pid' = Some q \<and> lp_order q = oid' \<and> lp_paid q)"
    if r: "l_orders (mark_both pid oid L) oid' = Some r" for oid' r
  proof (cases "oid' = oid")
    case True
    with r have "lo_paid r" by (auto simp: mark_both_def)
    moreover have "l_payments (mark_both pid oid L) pid = Some (p\<lparr>lp_paid := True\<rparr>)"
      using p(1) by (simp add: mark_both_def)
    ultimately show ?thesis using p(2) True by force
  next
    case False
    with r have "l_orders L oid' = Some r" by (simp add: mark_both_def)
    moreover have "(\<exists>pid' q. l_payments (mark_both pid oid L) pid' = Some q \<and> lp_order q = oid' \<and> lp_paid q) \<longleftrightarrow>
        (\<exists>pid' q. l_payments L pid' = Some q \<and> lp_order q = oid' \<and> lp_paid q)"
    proof
      assume "\<exists>pid' q. l_payments (mark_both pid oid L) pid' = Some q \<and> lp_order q = oid' \<and> lp_paid q"
      then obtain pid' q where q: "l_payments (mark_both pid oid L) pid' = Some q" "lp_order q = oid'" "lp_paid q"
        by blast
      with False p have "pid' \<noteq> pid" by (auto simp: mark_both_def)
      with q show "\<exists>pid' q. l_payments L pid' = Some q \<and> lp_order q = oid' \<and> lp_paid q"
        by (auto simp: mark_both_def)
    next
      assume "\<exists>pid' q. l_payments L pid' = Some q \<and> lp_order q = oid' \<and> lp_paid q"
      then obtain pid' q where q: "l_payments L pid' = Some q" "lp_order q = oid'" "lp_paid q" by blast
      with False p have "pid' \<noteq> pid" by auto
      with q(1) have "l_payments (mark_both pid oid L) pid' = Some q" by (simp add: mark_both_def)
      with q(2,3) show "\<exists>pid' q. l_payments (mark_both pid oid L) pid' = Some q \<and> lp_order q = oid' \<and> lp_paid q"
        by blast
    qed
    ultimately show ?thesis using balancedD [OF B] by simp
  qed
  ultimately show ?thesis by (simp add: balanced_def)
qed

lemma strict_event_balanced:
  assumes "strict_event e L" and a: "ledger_apply e L = Some L'" and B: "balanced L"
  shows "balanced L'"
proof (cases e)
  case (Place oid user amount currency)
  from ledger_apply_ok [OF a] B have "ledger_ok L'" by (simp add: balanced_def)
  moreover from Place a have new: "l_orders L oid = None" and L': "l_payments L' = l_payments L"
    "l_orders L' = (l_orders L)(oid \<mapsto> \<lparr>lo_user = user, lo_amount = amount, lo_currency = currency, lo_paid = False\<rparr>)"
    by (auto split: if_splits)
  moreover have "lp_order p \<noteq> oid" if "l_payments L pid = Some p" for pid p
    using B new that unfolding balanced_def ledger_ok_def by metis
  ultimately show ?thesis using balancedD [OF B] by (auto simp: balanced_def split: if_splits)
next
  case (Start pid oid gateway meth)
  from ledger_apply_ok [OF a] B have "ledger_ok L'" by (simp add: balanced_def)
  moreover from Start a have new: "l_payments L pid = None" and L': "l_orders L' = l_orders L"
    "l_payments L' = (l_payments L)(pid \<mapsto> \<lparr>lp_order = oid, lp_gateway = gateway, lp_method = meth, lp_paid = False\<rparr>)"
    by (auto split: if_splits)
  moreover from new L' have "l_payments L' pid' = Some q \<and> lp_order q = oid' \<and> lp_paid q \<longleftrightarrow>
      l_payments L pid' = Some q \<and> lp_order q = oid' \<and> lp_paid q" for pid' q oid'
    by (cases "pid' = pid") auto
  ultimately show ?thesis using balancedD [OF B] by (simp add: balanced_def)
next
  case (Settle pid oid)
  with a settle_balanced [OF B, of pid oid] show ?thesis by (auto split: if_splits)
next
  case (Mark pid oid)
  with assms(1) show ?thesis by simp
qed

lemma strict_run_balanced: "strict_run es L = Some L' \<Longrightarrow> balanced L \<Longrightarrow> balanced L'"
  by (induction es arbitrary: L) (auto split: if_splits option.splits intro: strict_event_balanced)

lemma no_ledger_balanced: "balanced no_ledger"
  by (simp add: balanced_def ledger_ok_def no_ledger_def)

text \<open>\<open>T'\<close> is what a run of the strict ledger makes of \<open>T\<close>, and is within the constraints.\<close>

definition strict_step :: "tables \<Rightarrow> tables \<Rightarrow> bool" where
  "strict_step T T' \<longleftrightarrow>
     (tables_ok T \<longrightarrow> tables_ok T' \<and> (\<exists>es. strict_run es (ledger_of T) = Some (ledger_of T')))"

lemma strict_step_event:
  assumes "sound_step T T'"
    and "tables_ok T \<Longrightarrow> strict_event e (ledger_of T) \<and> ledger_apply e (ledger_of T) = Some (ledger_of T')"
  shows "strict_step T T'"
  using assms unfolding strict_step_def sound_step_def by (auto intro!: exI [of _ "[e]"])

lemma strict_step_same:
  assumes "sound_step T T'" and "ledger_of T' = ledger_of T"
  shows "strict_step T T'"
  using assms unfolding strict_step_def sound_step_def by (auto intro!: exI [of _ "[]"])

lemma strict_step_trans:
  assumes "strict_step T U" and "strict_step U V"
  shows "strict_step T V"
  unfolding strict_step_def
proof
  assume "tables_ok T"
  with assms obtain es es' where "tables_ok V" "strict_run es (ledger_of T) = Some (ledger_of U)"
    "strict_run es' (ledger_of U) = Some (ledger_of V)" unfolding strict_step_def by blast
  then show "tables_ok V \<and> (\<exists>es. strict_run es (ledger_of T) = Some (ledger_of V))"
    by (intro conjI exI [of _ "es @ es'"]) (simp_all add: strict_run_append)
qed

lemma ledger_of_payment:
  assumes "tables_ok T" and "p \<in> set (payments T)"
  shows "l_payments (ledger_of T) (p_id p) = Some (payment_entry p)"
  using assms find_distinct_key [of p_id "payments T" p] by (simp add: ledger_of_def tables_ok_defs)

lemma own_paid_strict:
  assumes "p \<in> set (payments T)" and "p_status p = ''PENDING''"
  shows "strict_step T (paid_tables now (p_id p) (p_order_id p) T)"
proof (rule strict_step_event [OF paid_tables_sound, where e = "Settle (p_id p) (p_order_id p)"])
  assume "tables_ok T"
  from ledger_of_payment [OF this assms(1)] assms(2)
  show "strict_event (Settle (p_id p) (p_order_id p)) (ledger_of T) \<and>
      ledger_apply (Settle (p_id p) (p_order_id p)) (ledger_of T) =
        Some (ledger_of (paid_tables now (p_id p) (p_order_id p) T))"
    by (simp add: own_payment_def payment_entry_def paid_tables_marks_both)
qed

interpretation sl: reconciling_contract strict_step sh for sh :: "uuid \<Rightarrow> string"
proof unfold_locales
  show "strict_step T T" for T by (rule strict_step_same) simp_all
  show "strict_step T U \<Longrightarrow> strict_step U V \<Longrightarrow> strict_step T V" for T U V by (rule strict_step_trans)
  show "insert_order oid u a c now T = Inr T' \<Longrightarrow> strict_step T T'" for oid u a c now T T'
    by (rule strict_step_event [OF sound_statementD [OF insert_order_sound], where e = "Place oid u a c"])
      (simp_all del: ledger_apply.simps add: insert_order_ledger)
  show "insert_payment pid oid g (payment_method_str m) url now T = Inr T' \<Longrightarrow> strict_step T T'"
    for pid oid g m url now T T'
    by (rule strict_step_event [OF sound_statementD [OF insert_payment_sound [OF payment_method_str_range]],
        where e = "Start pid oid g (payment_method_str m)"])
      (simp_all del: ledger_apply.simps add: insert_payment_ledger)
  show "p \<in> set (payments T) \<Longrightarrow> p_status p = ''PENDING'' \<Longrightarrow>
      strict_step T (paid_tables now (p_id p) (p_order_id p) T)" for p T now
    by (rule own_paid_strict)
  show "insert_settlement_row sid (p_id p) (p_gateway p) (''settle-'' @ sh (p_id p)) 100 now T = Inr T' \<Longrightarrow>
      strict_step T T'" for p T sid now T'
    by (rule strict_step_same [OF sound_statementD [OF insert_settlement_row_sound] insert_settlement_ledger])
qed

text \<open>
  C10: Along every run of the service on a database as the migrations make it, whatever interleaves
  and whatever fails, what happens to the orders and payments is a run of the strict ledger: each order
  is placed once with its user, amount and currency, each payment is started once for an order that
  exists, and statuses change only by settlements, each of which makes a payment that was not yet
  paid and its own order paid in one stroke. From the empty database it is a run of the empty ledger.
\<close>

theorem service_refines_strict_ledger:
  assumes "reachable v4 R C sh x" and "(service_step v4 R C sh)\<^sup>*\<^sup>* x y"
    and "st_cast (w_store (fst x)) = None"
  shows "(\<exists>es. strict_run es (ledger_of (w_tables (fst x))) = Some (ledger_of (w_tables (fst y)))) \<and>
         (\<exists>es. strict_run es no_ledger = Some (ledger_of (w_tables (fst x))))"
proof -
  have T: "tables_ok (w_tables (fst x))" by (rule reachable_tables_ok [OF assms(1)])
  from sl.service_run_keeps [OF assms(2) T assms(3)] T
  have "\<exists>es. strict_run es (ledger_of (w_tables (fst x))) = Some (ledger_of (w_tables (fst y)))"
    by (simp add: strict_step_def)
  moreover from sl.reachable_keeps [OF assms(1,3)]
  have "\<exists>es. strict_run es no_ledger = Some (ledger_of (w_tables (fst x)))"
    by (simp add: strict_step_def)
  ultimately show ?thesis by blast
qed

theorem service_refines_strict_ledger_witness:
  "\<exists>es. strict_run es no_ledger = Some (ledger_of (w_tables demo_paid))"
proof -
  have "st_cast (w_store demo_paid) = None" by (simp add: demo_paid_def demo_world_def)
  with service_refines_strict_ledger [OF demo_states_reachable(4) rtranclp.rtrancl_refl] show ?thesis by simp
qed

section \<open>Handlers that overlap\<close>

text \<open>
  PostgreSQL serialises single calls of the repository, not handlers: between two calls of one
  handler come the calls of others. \<open>repo_call\<close> is any call on the database that the program
  makes, with any arguments; a run of the program is a list of them in the order in which they
  reach the database, whichever handlers they belong to. \<open>Elapse\<close> advances the clock and
  decides the outcomes of the next round trips.
\<close>

datatype repo_call =
    CallCreateOrder string i64 string
  | CallCreatePayment uuid string payment_method string
  | CallMarkPaymentSuccess uuid uuid
  | CallLogTransaction webhook_event
  | CallPendingPayments
  | CallInsertSettlement uuid string i64
  | CallGetOrder uuid
  | CallNewUuid
  | Elapse timestamp "io_outcome list"

fun run_call :: "(nat \<Rightarrow> uuid) \<Rightarrow> event_codec \<Rightarrow> (uuid \<Rightarrow> string) \<Rightarrow> repo_call \<Rightarrow> store \<Rightarrow> store" where
  "run_call v4 C sh (CallCreateOrder user amount currency) s = fst (create_order v4 user amount currency s)"
| "run_call v4 C sh (CallCreatePayment oid gateway meth url) s = fst (create_payment v4 oid gateway meth url s)"
| "run_call v4 C sh (CallMarkPaymentSuccess pid oid) s = fst (mark_payment_success pid oid s)"
| "run_call v4 C sh (CallLogTransaction event) s = fst (log_transaction v4 C event s)"
| "run_call v4 C sh CallPendingPayments s = fst (pending_payments s)"
| "run_call v4 C sh (CallInsertSettlement pid gateway amount) s = fst (insert_settlement v4 sh pid gateway amount s)"
| "run_call v4 C sh (CallGetOrder oid) s = fst (fetch (select_order oid) s)"
| "run_call v4 C sh CallNewUuid s = fst (new_v4 v4 s :: store \<times> (app_error + uuid))"
| "run_call v4 C sh (Elapse t outcomes) s = s\<lparr>st_now := st_now s + t, st_outcomes := outcomes\<rparr>"

definition run_calls :: "(nat \<Rightarrow> uuid) \<Rightarrow> event_codec \<Rightarrow> (uuid \<Rightarrow> string) \<Rightarrow> repo_call list \<Rightarrow> store \<Rightarrow> store" where
  "run_calls v4 C sh calls s = fold (run_call v4 C sh) calls s"

context repository_contract
begin

lemma run_call_conforms: "Q (st_tables s) (st_tables (run_call v4 C sh c s))"
  by (cases c) (simp_all add: Q_refl conformsD [OF fetch_conforms] conformsD [OF new_v4_conforms]
      repository_conforms [THEN conformsD])

lemma run_calls_conform: "Q (st_tables s) (st_tables (run_calls v4 C sh calls s))"
  unfolding run_calls_def
  by (induction calls arbitrary: s) (auto intro: Q_refl Q_trans run_call_conforms)

end

text \<open>
  C2: However the calls of any number of concurrent handlers interleave on the database, and
  whichever of them fail: the schema's constraints hold afterwards, no paid order or successful
  payment is taken back, and the tables are what a run of the ledger makes of the tables before:
  every change is an order placed, a payment started, a payment settled with its own order, or a
  payment and an order marked together whose ids do not belong together.
\<close>

theorem overlapping_handlers_refine_ledger:
  assumes "tables_ok (st_tables s)"
  shows "tables_ok (st_tables (run_calls v4 C sh calls s)) \<and>
    evolves (st_tables s) (st_tables (run_calls v4 C sh calls s)) \<and>
    (\<exists>es. ledger_run es (ledger_of (st_tables s)) = Some (ledger_of (st_tables (run_calls v4 C sh calls s))))"
  using sd.run_calls_conform [of s v4 C sh calls] lg.run_calls_conform [of s v4 C sh calls] assms
  by (simp add: sound_step_def ledger_refines_def)

theorem overlapping_handlers_refine_ledger_witness:
  "\<exists>es. ledger_run es (ledger_of sample_tables) = Some (ledger_of (st_tables
     (run_calls sample_v4 (sample_codec sample_event) (\<lambda>_. [])
       [CallLogTransaction sample_event, CallCreateOrder ''u2'' 1 ''INR'', Elapse 3 [IoOk, IoLost],
        CallMarkPaymentSuccess 2 1, CallMarkPaymentSuccess 2 1] (w_store (sample_world [] [])))))"
proof -
  have t: "st_tables (w_store (sample_world [] [])) = sample_tables" by (simp add: sample_world_def)
  with sample_tables_ok have "tables_ok (st_tables (w_store (sample_world [] [])))" by simp
  from overlapping_handlers_refine_ledger [OF this, of sample_v4 "sample_codec sample_event" "\<lambda>_. []"] t
  show ?thesis by simp
qed

section \<open>The words in the columns\<close>

text \<open>
  C27: In every reachable state the text columns are typed: each status and method column holds
  the word of a constructor of its Rust enum, so it parses. The failed statuses of orders and
  payments are never stored: only a webhook's log row can say \<open>FAILED\<close>.
\<close>

theorem stored_words_are_typed:
  assumes "reachable v4 R C sh (w, l)"
  shows "list_all (\<lambda>r. order_status_of (o_status r) \<in> {Some OrderPending, Some OrderPaid}) (orders (w_tables w)) \<and>
    list_all (\<lambda>p. payment_status_of (p_status p) \<in> {Some PaymentPending, Some PaymentSuccess} \<and>
      payment_method_of (p_method p) \<noteq> None) (payments (w_tables w)) \<and>
    list_all (\<lambda>t. payment_status_of (t_status t) \<noteq> None) (transactions (w_tables w))"
  using reachable_tables_ok [OF assms]
  by (auto simp: tables_ok_defs list_all_iff order_status_of_def payment_status_of_def payment_method_of_def)

theorem stored_words_are_typed_witness:
  "list_all (\<lambda>r. order_status_of (o_status r) \<in> {Some OrderPending, Some OrderPaid}) (orders (w_tables demo_paid))"
  using stored_words_are_typed [OF demo_states_reachable(4)] by (rule conjunct1)

end
