(* ===== verification/Delivery.thy ===== *)
theory Delivery
  imports Worker "HOL-Library.Sublist"
begin

text \<open>
  From the queue to the worker: however webhooks are queued and turns of the worker interleave,
  and whichever calls fail, the worker takes the queued payloads in order, each exactly once.
\<close>

section \<open>Runs\<close>

text \<open>
  A step of a run is a webhook being queued, as \<open>receive_webhook\<close> does it, or a turn of the
  worker. \<open>turn_events\<close> are the events that a turn reads and hands to \<open>handle_event\<close>; a run
  collects them.
\<close>

datatype queue_step = Receive string | Turn

definition turn_events :: "'r redis_client \<Rightarrow> 'r world \<times> string \<Rightarrow> (string \<times> string) list" where
  "turn_events R wl =
     (case snd (on_redis (read_after R ''stream:webhooks'' (snd wl) 50) (fst wl)) of
        Inr events \<Rightarrow> events
      | Inl _ \<Rightarrow> [])"

fun queue_run ::
  "(nat \<Rightarrow> uuid) \<Rightarrow> 'r redis_client \<Rightarrow> event_codec \<Rightarrow> queue_step list \<Rightarrow> 'r world \<times> string \<Rightarrow>
     ('r world \<times> string) \<times> (string \<times> string) list" where
  "queue_run v4 R C [] wl = (wl, [])"
| "queue_run v4 R C (Turn # steps) wl =
     (let (wl', log) = queue_run v4 R C steps (process_turn v4 R C wl) in (wl', turn_events R wl @ log))"
| "queue_run v4 R C (Receive payload # steps) wl =
     queue_run v4 R C steps
       (fst (on_redis (enqueue R ''stream:webhooks'' payload) (fst wl)), snd wl)"

text \<open>The payloads that a run receives.\<close>

fun received :: "queue_step list \<Rightarrow> string list" where
  "received [] = []"
| "received (Receive payload # steps) = payload # received steps"
| "received (Turn # steps) = received steps"

section \<open>What the stream must be safe from\<close>

text \<open>
  The other commands leave the stream as it is, and an \<open>XADD\<close> whose reply is lost has added its
  entry or not.
\<close>

definition stream_kept :: "'r redis_client \<Rightarrow> string \<Rightarrow> ('r \<Rightarrow> stream_entry list) \<Rightarrow> bool" where
  "stream_kept R stream entries \<longleftrightarrow>
     (\<forall>k v r. entries (fst (rd_set_nx R k v r)) = entries r) \<and>
     (\<forall>k t r. entries (fst (rd_expire R k t r)) = entries r) \<and>
     (\<forall>c m r. entries (fst (rd_publish R c m r)) = entries r) \<and>
     (\<forall>fs r r' e. rd_xadd R stream fs r = (r', Inl e) \<longrightarrow> entries r' = entries r \<or>
        (\<exists>i. i \<noteq> ''0-0'' \<and> i \<notin> fst ` set (entries r) \<and> entries r' = entries r @ [(i, map_of fs)]))"

definition queue_ok :: "stream_entry list \<Rightarrow> bool" where
  "queue_ok es \<longleftrightarrow> distinct (map fst es) \<and> ''0-0'' \<notin> fst ` set es \<and> all_payloads es"

lemma queue_ok_append:
  "queue_ok es \<Longrightarrow> i \<noteq> ''0-0'' \<Longrightarrow> i \<notin> fst ` set es \<Longrightarrow> fs ''payload'' \<noteq> None \<Longrightarrow> queue_ok (es @ [(i, fs)])"
  by (auto simp: queue_ok_def all_payloads_def)

lemma xadd_entries:
  assumes S: "stream_ok R stream entries" and K: "stream_kept R stream entries"
    and x: "rd_xadd R stream fs r = (r', res)"
  shows "entries r' = entries r \<or>
     (\<exists>i. i \<noteq> ''0-0'' \<and> i \<notin> fst ` set (entries r) \<and> entries r' = entries r @ [(i, map_of fs)])"
proof (cases res)
  case (Inl e)
  with x have "rd_xadd R stream fs r = (r', Inl e)" by simp
  with K [unfolded stream_kept_def, THEN conjunct2, THEN conjunct2, THEN conjunct2] show ?thesis by metis
next
  case (Inr i)
  with x have "rd_xadd R stream fs r = (r', Inr i)" by simp
  with S [unfolded stream_ok_def, THEN conjunct2, THEN conjunct1] show ?thesis by metis
qed

text \<open>The text that was written into an entry.\<close>

abbreviation entry_text :: "stream_entry \<Rightarrow> string" where
  "entry_text e \<equiv> snd (payload_of id e)"

lemma enqueue_entries:
  assumes S: "stream_ok R stream entries" and K: "stream_kept R stream entries"
    and q: "queue_ok (entries r)" and e: "enqueue R stream p r = (r', res)"
  shows "queue_ok (entries r') \<and> (\<exists>new. entries r' = entries r @ new \<and> (new = [] \<or> map entry_text new = [p]))"
proof -
  obtain r1 x1 where c: "rd_connect R r = (r1, x1)" by (cases "rd_connect R r")
  from S have "entries (fst (rd_connect R r)) = entries r" unfolding stream_ok_def by blast
  with c have 1: "entries r1 = entries r" by simp
  obtain r2 x2 where x: "rd_xadd R stream [(''payload'', p)] r1 = (r2, x2)"
    by (cases "rd_xadd R stream [(''payload'', p)] r1")
  have "r' = r1 \<or> r' = r2"
    using e c x by (cases x1; cases x2) (auto simp: enqueue_def io_map_err_def io_bind_def ret_def)
  with 1 xadd_entries [OF S K x] consider "entries r' = entries r"
    | i where "i \<noteq> ''0-0''" "i \<notin> fst ` set (entries r)"
        "entries r' = entries r @ [(i, map_of [(''payload'', p)])]" by auto
  then show ?thesis
  proof cases
    case 1
    with q show ?thesis by simp
  next
    case (2 i)
    from queue_ok_append [OF q 2(1,2), of "map_of [(''payload'', p)]"] 2(3) show ?thesis
      by (simp add: payload_of_def)
  qed
qed

text \<open>Handling an event does not touch the stream.\<close>

definition same_stream :: "('r \<Rightarrow> stream_entry list) \<Rightarrow> 'r world \<Rightarrow> 'r world \<Rightarrow> bool" where
  "same_stream entries w w' \<longleftrightarrow> entries (w_redis w') = entries (w_redis w)"

interpretation sm: effect_preorder "same_stream entries" for entries :: "'r \<Rightarrow> stream_entry list"
  by unfold_locales (auto simp: same_stream_def)

lemma on_store_same_stream: "conforms (same_stream entries) (on_store m)"
  unfolding on_store_def by (rule conforms_zoom) (simp add: same_stream_def)

lemma on_redis_same_stream:
  "(\<And>r. entries (fst (m r)) = entries r) \<Longrightarrow> conforms (same_stream entries) (on_redis m)"
  unfolding on_redis_def by (rule conforms_zoom) (simp add: same_stream_def)

lemma keeps_entries_bind:
  fixes m :: "('r, 'e, 'a) io"
  assumes "\<And>r. entries (fst (m r)) = entries r" and "\<And>a r. entries (fst (f a r)) = entries r"
  shows "entries (fst (io_bind m f r)) = entries r"
proof -
  obtain r' x where "m r = (r', x)" by (cases "m r")
  with assms(1) [of r] assms(2) [of _ r'] show ?thesis by (cases x) (simp_all add: io_bind_def)
qed

lemma handle_event_same_stream:
  fixes R :: "'r redis_client"
  assumes "stream_ok R ''stream:webhooks'' entries" and "stream_kept R ''stream:webhooks'' entries"
  shows "conforms (same_stream entries) (handle_event v4 R C payload)"
proof -
  have c: "entries (fst (rd_connect R r)) = entries r" for r
    using assms(1) unfolding stream_ok_def by blast
  have k: "entries (fst (rd_set_nx R k v r)) = entries r" "entries (fst (rd_expire R k t r)) = entries r"
    "entries (fst (rd_publish R ch m r)) = entries r" for k v t ch m r
    using assms(2) unfolding stream_kept_def by blast+
  have e: "entries (fst (io_map_err h m r)) = entries (fst (m r))" for h :: "string \<Rightarrow> app_error" and m :: "('r, string, 'x) io" and r
    by (simp add: io_map_err_def case_prod_beta)
  have "entries (fst (mark_if_absent R key ttl r)) = entries r" for key ttl r
    unfolding mark_if_absent_def e
    by (intro keeps_entries_bind) (simp_all add: c k ret_def)
  moreover have "entries (fst (publish_payment_confirmed R p r)) = entries r" for p r
    unfolding publish_payment_confirmed_def e
    by (intro keeps_entries_bind) (simp_all add: c k ret_def)
  ultimately show ?thesis
    unfolding handle_event_def
    by (intro sm.conforms_combinators on_store_same_stream on_redis_same_stream)
qed

lemma process_events_same_stream:
  assumes "stream_ok R ''stream:webhooks'' entries" and "stream_kept R ''stream:webhooks'' entries"
    and "process_events v4 R C events l w = (w', l', rs)"
  shows "same_stream entries w w' \<and> l' = (if events = [] then l else fst (last events))"
  using assms(3)
proof (induction events arbitrary: l w rs)
  case Nil
  then show ?case by (simp add: sm.R_refl)
next
  case (Cons e events)
  obtain i p where e: "e = (i, p)" by (cases e)
  obtain w1 x where h: "handle_event v4 R C p w = (w1, x)" by (cases "handle_event v4 R C p w")
  obtain w2 l2 rs2 where t: "process_events v4 R C events i w1 = (w2, l2, rs2)"
    by (cases "process_events v4 R C events i w1")
  from Cons.prems e h t have r: "w' = w2" "l' = l2" by simp_all
  from conforms_run [OF handle_event_same_stream [OF assms(1,2)] h] Cons.IH [OF t [folded r]]
  show ?case using e r sm.R_trans [of entries w w1 w2] by auto
qed

section \<open>Windows of a list\<close>

lemma last_window: "0 < n \<Longrightarrow> m + n \<le> length xs \<Longrightarrow> last (take n (drop m xs)) = xs ! (m + n - 1)"
  by (cases "length xs - m = n") (auto simp: last_conv_nth min_def)

lemma window_append: "take (k + n) (drop m xs) = take k (drop m xs) @ take n (drop (m + k) xs)"
  by (simp add: take_add add.commute)

lemma last_payload: "xs \<noteq> [] \<Longrightarrow> fst (last (map (payload_of render) xs)) = fst (last xs)"
  by (simp add: last_map payload_of_def)

section \<open>The position of the worker\<close>

text \<open>\<open>l\<close> is the id of the last of the first \<open>m\<close> entries.\<close>

definition at_entry :: "nat \<Rightarrow> string \<Rightarrow> stream_entry list \<Rightarrow> bool" where
  "at_entry m l es \<longleftrightarrow> m \<le> length es \<and> l = (if m = 0 then ''0-0'' else fst (es ! (m - 1)))"

lemma at_entry_after: "queue_ok es \<Longrightarrow> at_entry m l es \<Longrightarrow> after_id l es = drop m es"
proof (cases m)
  case 0
  then show "at_entry m l es \<Longrightarrow> ?thesis" by (simp add: at_entry_def after_id_def)
next
  case (Suc n)
  assume q: "queue_ok es" and "at_entry m l es"
  with Suc have n: "n < length es" "l = fst (es ! n)" by (simp_all add: at_entry_def)
  with q have "fst (es ! n) \<noteq> ''0-0''" by (metis image_eqI nth_mem queue_ok_def)
  with after_id_nth [of es n] q n Suc show ?thesis by (simp add: queue_ok_def)
qed

lemma at_entry_append: "at_entry m l es \<Longrightarrow> at_entry m l (es @ new)"
  by (auto simp: at_entry_def nth_append)

lemma turn_reads:
  assumes S: "stream_ok R ''stream:webhooks'' entries" and K: "stream_kept R ''stream:webhooks'' entries"
    and q: "queue_ok (entries (w_redis w))" and a: "at_entry m l (entries (w_redis w))"
    and t: "process_turn v4 R C (w, l) = (w', l')"
  shows "entries (w_redis w') = entries (w_redis w) \<and>
     (\<exists>n. turn_events R (w, l) = map (payload_of (rd_value_text R)) (take n (drop m (entries (w_redis w)))) \<and>
        m + n \<le> length (entries (w_redis w)) \<and> at_entry (m + n) l' (entries (w_redis w)) \<and>
        (n = min 50 (length (entries (w_redis w)) - m) \<or>
         (\<exists>e. snd (read_after R ''stream:webhooks'' l 50 (w_redis w)) = Inl e)))"
proof -
  let ?es = "entries (w_redis w)"
  obtain r1 x where r: "read_after R ''stream:webhooks'' l 50 (w_redis w) = (r1, x)"
    by (cases "read_after R ''stream:webhooks'' l 50 (w_redis w)")
  from q have "all_payloads ?es" by (simp add: queue_ok_def)
  from read_after_reads [OF S this r] at_entry_after [OF q a]
  have 1: "entries r1 = ?es" and out: "\<And>o'. x = Inr o' \<Longrightarrow> o' = map (payload_of (rd_value_text R)) (take 50 (drop m ?es))" by auto
  let ?w1 = "w\<lparr>w_redis := r1\<rparr>"
  show ?thesis
  proof (cases x)
    case (Inl e)
    with t r have "w' = ?w1" "l' = l" "turn_events R (w, l) = []"
      by (simp_all add: process_turn_def turn_events_def on_redis_def zoom_def)
    with Inl r a 1 show ?thesis by (intro conjI exI [of _ 0]) (auto simp: at_entry_def)
  next
    case (Inr evs)
    with out have evs: "evs = map (payload_of (rd_value_text R)) (take 50 (drop m ?es))" by simp
    obtain w2 l2 rs where p: "process_events v4 R C evs l ?w1 = (w2, l2, rs)"
      by (cases "process_events v4 R C evs l ?w1")
    with t r Inr have w': "w' = w2" "l' = l2" and te: "turn_events R (w, l) = evs"
      by (simp_all add: process_turn_def turn_events_def on_redis_def zoom_def)
    from process_events_same_stream [OF S K p] 1
    have es: "entries (w_redis w2) = ?es" and l2: "l2 = (if evs = [] then l else fst (last evs))"
      by (simp_all add: same_stream_def)
    let ?n = "min 50 (length ?es - m)"
    have take: "take 50 (drop m ?es) = take ?n (drop m ?es)" by (simp add: min_def)
    have m: "m \<le> length ?es" using a by (simp add: at_entry_def)
    have "at_entry (m + ?n) l2 ?es"
    proof (cases "evs = []")
      case True
      with evs m have "m = length ?es" by simp
      with True l2 a show ?thesis by simp
    next
      case False
      with evs have lt: "m < length ?es" by simp
      then have "0 < ?n" "m + ?n \<le> length ?es" by simp_all
      then have "last (take ?n (drop m ?es)) = ?es ! (m + ?n - 1)" by (rule last_window)
      moreover have "l2 = fst (last (take ?n (drop m ?es)))"
        using False l2 unfolding evs take by (simp only: if_False last_payload map_is_Nil_conv simp_thms)
      ultimately have "l2 = fst (?es ! (m + ?n - 1))" by simp
      moreover from \<open>0 < ?n\<close> have "m + ?n \<noteq> 0" by linarith
      ultimately show ?thesis using \<open>m + ?n \<le> length ?es\<close> by (simp only: at_entry_def if_False simp_thms)
    qed
    with w' te evs take es m show ?thesis by (intro conjI exI [of _ ?n]) auto
  qed
qed

text \<open>
  What a run does that starts behind the first \<open>m\<close> of the entries \<open>es\<close>: entries \<open>new\<close> are
  added and the next \<open>n\<close> are read.
\<close>

definition delivers ::
  "(string \<Rightarrow> string) \<Rightarrow> nat \<Rightarrow> stream_entry list \<Rightarrow> stream_entry list \<Rightarrow> string \<Rightarrow> (string \<times> string) list \<Rightarrow> string list \<Rightarrow> bool" where
  "delivers render m es es' l' log texts \<longleftrightarrow>
     (\<exists>n new. es' = es @ new \<and> subseq (map entry_text new) texts \<and> at_entry (m + n) l' es' \<and>
        log = map (payload_of render) (take n (drop m es')))"

lemma delivers_refl: "at_entry m l es \<Longrightarrow> delivers render m es es l [] []"
  unfolding delivers_def by (rule exI [of _ 0], rule exI [of _ "[]"]) simp

lemma delivers_receive:
  assumes "delivers render m (es @ new) es' l' log texts" and "new = [] \<or> map entry_text new = [p]"
  shows "delivers render m es es' l' log (p # texts)"
proof -
  from assms(1) obtain n later where d: "es' = (es @ new) @ later" "subseq (map entry_text later) texts"
      "at_entry (m + n) l' es'" "log = map (payload_of render) (take n (drop m es'))"
    unfolding delivers_def by blast
  from assms(2) d(2) have "subseq (map entry_text (new @ later)) (p # texts)"
    by (elim disjE) (simp_all add: list_emb_Cons)
  with d show ?thesis unfolding delivers_def
    by (intro exI [of _ n] exI [of _ "new @ later"] conjI) (simp_all only: append_assoc)
qed

lemma delivers_turn:
  assumes "delivers render (m + k) es es' l' log texts" and "m + k \<le> length es"
  shows "delivers render m es es' l' (map (payload_of render) (take k (drop m es)) @ log) texts"
proof -
  from assms(1) obtain n new where d: "es' = es @ new" "subseq (map entry_text new) texts"
      "at_entry (m + k + n) l' es'" "log = map (payload_of render) (take n (drop (m + k) es'))"
    unfolding delivers_def by blast
  have "take k (drop m es) = take k (drop m es')" using assms(2) d(1) by simp
  then have "map (payload_of render) (take k (drop m es)) @ log = map (payload_of render) (take (k + n) (drop m es'))"
    by (simp only: d(4) window_append map_append)
  with d show ?thesis unfolding delivers_def
    by (intro exI [of _ "k + n"] exI [of _ new] conjI) (simp_all only: add.assoc)
qed

lemma queue_run_delivers:
  assumes S: "stream_ok R ''stream:webhooks'' entries" and K: "stream_kept R ''stream:webhooks'' entries"
    and "queue_ok (entries (w_redis w))" and "at_entry m l (entries (w_redis w))"
    and "queue_run v4 R C steps (w, l) = ((w', l'), log)"
  shows "queue_ok (entries (w_redis w')) \<and>
    delivers (rd_value_text R) m (entries (w_redis w)) (entries (w_redis w')) l' log (received steps)"
  using assms(3-5)
proof (induction steps arbitrary: w l m log)
  case Nil
  then show ?case by (simp add: delivers_refl)
next
  case (Cons s steps)
  show ?case
  proof (cases s)
    case (Receive p)
    obtain r1 x where e: "enqueue R ''stream:webhooks'' p (w_redis w) = (r1, x)"
      by (cases "enqueue R ''stream:webhooks'' p (w_redis w)")
    let ?w = "w\<lparr>w_redis := r1\<rparr>"
    from enqueue_entries [OF S K Cons.prems(1) e] obtain new where q: "queue_ok (entries (w_redis ?w))"
      and new: "entries (w_redis ?w) = entries (w_redis w) @ new" "new = [] \<or> map entry_text new = [p]" by auto
    from at_entry_append [OF Cons.prems(2)] new(1) have a: "at_entry m l (entries (w_redis ?w))" by simp
    from Cons.prems(3) Receive e have "queue_run v4 R C steps (?w, l) = ((w', l'), log)"
      by (simp add: on_redis_def zoom_def)
    from Cons.IH [OF q a this] have i: "queue_ok (entries (w_redis w'))"
      "delivers (rd_value_text R) m (entries (w_redis w) @ new) (entries (w_redis w')) l' log (received steps)"
      by (simp_all only: new(1))
    from i(1) delivers_receive [OF i(2) new(2)] show ?thesis by (simp only: Receive received.simps)
  next
    case Turn
    obtain w1 l1 where t: "process_turn v4 R C (w, l) = (w1, l1)" by (cases "process_turn v4 R C (w, l)")
    obtain wl2 log2 where r: "queue_run v4 R C steps (w1, l1) = (wl2, log2)"
      by (cases "queue_run v4 R C steps (w1, l1)")
    with Cons.prems(3) Turn t have wl2: "wl2 = (w', l')" and log: "log = turn_events R (w, l) @ log2" by simp_all
    from turn_reads [OF S K Cons.prems(1,2) t] obtain k where
      k: "entries (w_redis w1) = entries (w_redis w)" "m + k \<le> length (entries (w_redis w))"
        "turn_events R (w, l) = map (payload_of (rd_value_text R)) (take k (drop m (entries (w_redis w))))"
        "at_entry (m + k) l1 (entries (w_redis w))" by auto
    from Cons.prems(1) k(1,4) have "queue_ok (entries (w_redis w1))" "at_entry (m + k) l1 (entries (w_redis w1))"
      by simp_all
    from Cons.IH [OF this r [unfolded wl2]] have i: "queue_ok (entries (w_redis w'))"
      "delivers (rd_value_text R) (m + k) (entries (w_redis w)) (entries (w_redis w')) l' log2 (received steps)"
      by (simp_all only: k(1))
    from i(1) delivers_turn [OF i(2) k(2)] show ?thesis by (simp only: Turn received.simps log k(3))
  qed
qed

section \<open>Each webhook once\<close>


text \<open>\<open>k\<close> turns in a row whose reads of the queue are answered; these read 50 entries each.\<close>

fun reads_answered ::
  "(nat \<Rightarrow> uuid) \<Rightarrow> 'r redis_client \<Rightarrow> event_codec \<Rightarrow> nat \<Rightarrow> 'r world \<times> string \<Rightarrow> bool" where
  "reads_answered v4 R C 0 wl = True"
| "reads_answered v4 R C (Suc k) wl =
     ((case snd (read_after R ''stream:webhooks'' (snd wl) 50 (w_redis (fst wl))) of
         Inl _ \<Rightarrow> False | Inr _ \<Rightarrow> True) \<and>
      reads_answered v4 R C k (process_turn v4 R C wl))"

lemma answered_turns:
  assumes S: "stream_ok R ''stream:webhooks'' entries" and K: "stream_kept R ''stream:webhooks'' entries"
    and "queue_ok (entries (w_redis w))" and "at_entry m l (entries (w_redis w))"
    and "reads_answered v4 R C k (w, l)"
    and "queue_run v4 R C (replicate k Turn) (w, l) = ((w', l'), log)"
  shows "entries (w_redis w') = entries (w_redis w) \<and>
    log = map (payload_of (rd_value_text R)) (take (50 * k) (drop m (entries (w_redis w))))"
  using assms(3-6)
proof (induction k arbitrary: w l m log)
  case 0
  then show ?case by simp
next
  case (Suc k)
  let ?es = "entries (w_redis w)"
  obtain w1 l1 where t: "process_turn v4 R C (w, l) = (w1, l1)" by (cases "process_turn v4 R C (w, l)")
  obtain wl2 log2 where r: "queue_run v4 R C (replicate k Turn) (w1, l1) = (wl2, log2)"
    by (cases "queue_run v4 R C (replicate k Turn) (w1, l1)")
  with Suc.prems(4) t have wl2: "wl2 = (w', l')" and log: "log = turn_events R (w, l) @ log2" by simp_all
  let ?n = "min 50 (length ?es - m)"
  from Suc.prems(3) t have ans: "\<exists>out. snd (read_after R ''stream:webhooks'' l 50 (w_redis w)) = Inr out"
    and later: "reads_answered v4 R C k (w1, l1)" by (auto split: sum.splits)
  from turn_reads [OF S K Suc.prems(1,2) t] ans have
    1: "entries (w_redis w1) = ?es" "turn_events R (w, l) = map (payload_of (rd_value_text R)) (take ?n (drop m ?es))"
      "at_entry (m + ?n) l1 ?es" by auto
  with Suc.prems(1) have "queue_ok (entries (w_redis w1))" "at_entry (m + ?n) l1 (entries (w_redis w1))"
    by simp_all
  from Suc.IH [OF this later r [unfolded wl2]] have i: "entries (w_redis w') = ?es"
    "log2 = map (payload_of (rd_value_text R)) (take (50 * k) (drop (m + ?n) ?es))" by (simp_all only: 1(1))
  have "take ?n (drop m ?es) @ take (50 * k) (drop (m + ?n) ?es) = take (50 * Suc k) (drop m ?es)"
    by (cases "50 \<le> length ?es - m") (simp_all add: window_append [of 50 "50 * k" m ?es, simplified] min_def)
  with i log 1(2) show ?case by (simp only: map_append [symmetric])
qed


section \<open>On the in-memory server\<close>

lemma memory_stream_kept: "stream_kept memory_client stream (memory_entries stream)"
  by (auto simp: stream_kept_def memory_client_def memory_entries_def ret_def Let_def)

lemma memory_read_answered: "\<exists>r' out. read_after memory_client stream l n r = (r', Inr out)"
  by (simp add: read_after_def io_map_err_def io_bind_def memory_client_def ret_def)

lemma memory_reads_answered: "reads_answered v4 memory_client C k wl"
proof (induction k arbitrary: wl)
  case (Suc k)
  obtain r' out where "read_after memory_client ''stream:webhooks'' (snd wl) 50 (w_redis (fst wl)) = (r', Inr out)"
    using memory_read_answered by blast
  with Suc show ?case by simp
qed simp

lemma sample_stream_empty: "memory_entries ''stream:webhooks'' (w_redis (sample_world outcomes ks)) = []"
  by (simp add: sample_world_def memory_entries_def)



end
