(* ===== verification/Startup.thy ===== *)
theory Startup
  imports Api
begin

text \<open>
  How the two processes of the payment service start: \<open>main\<close> of \<open>apps/api\<close> and of \<open>apps/worker\<close>, with
  the constructors of the adapters. The environment, connecting to PostgreSQL, checking a Redis
  URL, parsing an address and binding a socket are library calls and parameters. A process starts
  or ends with the first error; the order of the calls is the code's.
\<close>

section \<open>The adapters' constructors\<close>

text \<open>
  \<open>redis::Client::open\<close> only checks the URL; the connections are made by each command. A client
  is known by its URL.
\<close>

record webhook_queue =
  wq_client :: string
  wq_stream :: string

definition webhook_queue_new :: "(string \<Rightarrow> string + unit) \<Rightarrow> string \<Rightarrow> string \<Rightarrow> string + webhook_queue" where
  "webhook_queue_new open_client redis_url stream =
     res_bind (open_client redis_url) (\<lambda>_. Inr \<lparr>wq_client = redis_url, wq_stream = stream\<rparr>)"

definition idempotency_store_new :: "(string \<Rightarrow> string + unit) \<Rightarrow> string \<Rightarrow> string + string" where
  "idempotency_store_new open_client redis_url = res_bind (open_client redis_url) (\<lambda>_. Inr redis_url)"

definition realtime_publisher_new :: "(string \<Rightarrow> string + unit) \<Rightarrow> string \<Rightarrow> string + string" where
  "realtime_publisher_new open_client redis_url = res_bind (open_client redis_url) (\<lambda>_. Inr redis_url)"

section \<open>The processes\<close>

record payment_platform =
  pp_env :: "string \<Rightarrow> string option"
  pp_connect_db :: "string \<Rightarrow> string + unit"
  pp_open_client :: "string \<Rightarrow> string + unit"
  pp_parse_addr :: "string \<Rightarrow> string + unit"
  pp_bind :: "string \<Rightarrow> string + unit"

text \<open>
  What the API has when it starts to serve: the database it uses, its queue, the client of its
  Pub/Sub forwarder, its gateways, the capacity of its broadcast channel and its address.
\<close>

record api_process =
  ap_database :: string
  ap_queue :: webhook_queue
  ap_forwarder :: string
  ap_gateways :: "gateway list"
  ap_ws_capacity :: nat
  ap_addr :: string

record worker_process =
  wp_database :: string
  wp_queue :: webhook_queue
  wp_idempotency :: string
  wp_realtime :: string

definition database_url :: "payment_platform \<Rightarrow> string + string" where
  "database_url P = ok_or ''DATABASE_URL missing'' (pp_env P ''DATABASE_URL'')"

definition redis_url :: "payment_platform \<Rightarrow> string" where
  "redis_url P = unwrap_or ''redis://127.0.0.1:6379'' (pp_env P ''REDIS_URL'')"

definition api_addr :: "payment_platform \<Rightarrow> string" where
  "api_addr P = unwrap_or ''0.0.0.0:8080'' (pp_env P ''API_ADDR'')"

definition api_main :: "payment_platform \<Rightarrow> (uuid \<Rightarrow> string) \<Rightarrow> string + api_process" where
  "api_main P show_uuid =
     res_bind (database_url P) (\<lambda>db_url.
     res_bind (pp_connect_db P db_url) (\<lambda>_.
     res_bind (webhook_queue_new (pp_open_client P) (redis_url P) ''stream:webhooks'') (\<lambda>queue.
     res_bind (pp_open_client P (redis_url P)) (\<lambda>_.
     res_bind (pp_parse_addr P (api_addr P)) (\<lambda>_.
     res_bind (pp_bind P (api_addr P)) (\<lambda>_.
     Inr \<lparr>ap_database = db_url, ap_queue = queue, ap_forwarder = redis_url P,
          ap_gateways = api_gateways show_uuid, ap_ws_capacity = 1024, ap_addr = api_addr P\<rparr>))))))"

definition worker_main :: "payment_platform \<Rightarrow> string + worker_process" where
  "worker_main P =
     res_bind (database_url P) (\<lambda>db_url.
     res_bind (pp_connect_db P db_url) (\<lambda>_.
     res_bind (webhook_queue_new (pp_open_client P) (redis_url P) ''stream:webhooks'') (\<lambda>queue.
     res_bind (idempotency_store_new (pp_open_client P) (redis_url P)) (\<lambda>idempotency.
     res_bind (realtime_publisher_new (pp_open_client P) (redis_url P)) (\<lambda>realtime.
     Inr \<lparr>wp_database = db_url, wp_queue = queue, wp_idempotency = idempotency, wp_realtime = realtime\<rparr>)))))"

lemmas startup_defs = api_main_def worker_main_def webhook_queue_new_def idempotency_store_new_def
  realtime_publisher_new_def

section \<open>What the processes agree on\<close>

text \<open>
  An API and a worker that start in the same environment work on the same database, the same
  Redis server and the same stream, and the worker publishes confirmations on the server that the
  API listens to. The worker starts whenever the API does, and without a database URL neither.
\<close>

lemma processes_agree:
  "api_main P sh = Inr api \<Longrightarrow> worker_main P = Inr worker \<Longrightarrow>
      ap_database api = wp_database worker \<and> ap_queue api = wp_queue worker \<and>
      ap_forwarder api = wp_realtime worker \<and> wp_idempotency worker = wq_client (ap_queue api)"
  by (auto simp: startup_defs res_bind_eq_Inr)

lemma no_database_url:
  "pp_env P ''DATABASE_URL'' = None \<Longrightarrow>
     api_main P sh = Inl ''DATABASE_URL missing'' \<and> worker_main P = Inl ''DATABASE_URL missing''"
  by (simp add: startup_defs database_url_def)

lemma worker_starts_if_api_does: "api_main P sh = Inr api \<Longrightarrow> \<exists>worker. worker_main P = Inr worker"
  by (auto simp: startup_defs res_bind_eq_Inr)

end
