(* ===== verification/Pubsub.thy ===== *)
theory Pubsub
  imports Prelude
begin

text \<open>
  The message broker of the realtime gateway (\<open>approach-2/src/broker\<close>): the trait \<open>PubSub\<close> as a
  record of operations with its contract as a locale, and \<open>RedisPubSub\<close> with the listener
  tasks that it spawns. The tasks run concurrently: what each can do next is a step of a
  transition relation, and the properties hold in every state the steps reach.

  The Redis client and the text of a UUID are third-party code and parameters. The id that
  \<open>Uuid::new_v4\<close> draws for a subscription is an argument of \<open>subscribe\<close>; that it is new is the
  one thing assumed of it.
\<close>

section \<open>The trait\<close>

record topic_event =
  te_topic :: string
  te_event :: bytes

record 'b pubsub_ops =
  ps_publish :: "string \<Rightarrow> bytes \<Rightarrow> ('b, string, unit) io"
  ps_publish_bulk :: "(string \<times> bytes) list \<Rightarrow> ('b, string, unit) io"
  ps_subscribe :: "uuid \<Rightarrow> string list \<Rightarrow> ('b, string, uuid) io"
  ps_add_subscription :: "string \<Rightarrow> uuid \<Rightarrow> ('b, string, unit) io"
  ps_remove_subscription :: "string \<Rightarrow> uuid \<Rightarrow> ('b, string, unit) io"
  ps_unsubscribe :: "uuid \<Rightarrow> ('b, string, unit) io"
  ps_active_topic_listeners :: "'b \<Rightarrow> u64"
  ps_drop :: "uuid \<Rightarrow> 'b \<Rightarrow> 'b"

text \<open>
  \<open>ps_drop\<close> is what dropping the \<open>Subscription\<close> value does: its receiver goes with it.

  The contract: \<open>topics s id\<close> is \<open>None\<close> for an id that has no subscription and otherwise the
  set of channels added to it. Adding refuses a channel that is there, removing one that is not;
  a refused or failed operation leaves the sets alone; unsubscribing always answers.
\<close>

locale pubsub =
  fixes P :: "'b pubsub_ops"
    and topics :: "'b \<Rightarrow> uuid \<Rightarrow> string set option"
    and inv :: "'b \<Rightarrow> bool"
    and fresh :: "uuid \<Rightarrow> 'b \<Rightarrow> bool"
  assumes publish_inv: "inv s \<Longrightarrow> inv (fst (ps_publish P ch d s))"
    and subscribe_inv: "inv s \<Longrightarrow> fresh i s \<Longrightarrow> inv (fst (ps_subscribe P i chs s))"
    and add_inv: "inv s \<Longrightarrow> inv (fst (ps_add_subscription P ch i s))"
    and remove_inv: "inv s \<Longrightarrow> inv (fst (ps_remove_subscription P ch i s))"
    and unsubscribe_inv: "inv s \<Longrightarrow> inv (fst (ps_unsubscribe P i s))"
    and drop_inv: "inv s \<Longrightarrow> inv (ps_drop P i s)"
    and drop_topics: "inv s \<Longrightarrow> topics (ps_drop P i s) = topics s"
    and publish_topics: "inv s \<Longrightarrow> topics (fst (ps_publish P ch d s)) = topics s"
    and subscribe_ok: "inv s \<Longrightarrow> fresh i s \<Longrightarrow> ps_subscribe P i chs s = (s', Inr j) \<Longrightarrow>
          j = i \<and> topics s' = (topics s)(i \<mapsto> {})"
    and add_ok: "inv s \<Longrightarrow> ps_add_subscription P ch i s = (s', Inr ()) \<Longrightarrow>
          \<exists>T. topics s i = Some T \<and> ch \<notin> T \<and> topics s' = (topics s)(i \<mapsto> insert ch T)"
    and add_err: "inv s \<Longrightarrow> ps_add_subscription P ch i s = (s', Inl e) \<Longrightarrow> topics s' = topics s"
    and remove_ok: "inv s \<Longrightarrow> topics s i = Some T \<Longrightarrow> ch \<in> T \<Longrightarrow>
          \<exists>s'. ps_remove_subscription P ch i s = (s', Inr ()) \<and> topics s' = (topics s)(i \<mapsto> T - {ch})"
    and remove_err: "inv s \<Longrightarrow> (case topics s i of None \<Rightarrow> True | Some T \<Rightarrow> ch \<notin> T) \<Longrightarrow>
          \<exists>s' e. ps_remove_subscription P ch i s = (s', Inl e) \<and> topics s' = topics s"
    and unsubscribe_ok: "inv s \<Longrightarrow>
          \<exists>s'. ps_unsubscribe P i s = (s', Inr ()) \<and> topics s' = (topics s)(i := None)"
begin

lemma add_again_refused:
  assumes "inv s" and "ps_add_subscription P ch i s = (s1, Inr ())"
  shows "\<exists>s2 e. ps_add_subscription P ch i s1 = (s2, Inl e)"
proof -
  from add_ok [OF assms] obtain T where T: "topics s1 i = Some (insert ch T)" by auto
  from add_inv [OF assms(1), of ch i] assms(2) have "inv s1" by simp
  obtain s2 r where a: "ps_add_subscription P ch i s1 = (s2, r)"
    by (cases "ps_add_subscription P ch i s1")
  with add_ok [OF \<open>inv s1\<close>, of ch i s2] T show ?thesis by (cases r) auto
qed

lemma remove_added:
  assumes "inv s" and "ps_add_subscription P ch i s = (s1, Inr ())"
  shows "\<exists>s2. ps_remove_subscription P ch i s1 = (s2, Inr ()) \<and> topics s2 = topics s"
proof -
  from add_ok [OF assms] obtain T where T: "topics s i = Some T" "ch \<notin> T"
    "topics s1 = (topics s)(i \<mapsto> insert ch T)" by blast
  from add_inv [OF assms(1), of ch i] assms(2) have "inv s1" by simp
  from remove_ok [OF this, of i "insert ch T" ch] T obtain s2
    where "ps_remove_subscription P ch i s1 = (s2, Inr ())"
      and "topics s2 = (topics s)(i \<mapsto> insert ch T - {ch})" by auto
  moreover have "(topics s)(i \<mapsto> insert ch T - {ch}) = topics s"
    using T by (auto simp: fun_eq_iff)
  ultimately show ?thesis by simp
qed

end

section \<open>The state of \<open>RedisPubSub\<close>\<close>

text \<open>
  A spawned listener task: the subscription whose event channel it feeds, the Redis channels of
  its connection, whether it is one that \<open>add_subscription\<close> spawned, whether a control message
  waits for it (or its sender is gone), and whether it still runs.
\<close>

record listener =
  ls_sub :: uuid
  ls_channels :: "string list"
  ls_is_topic :: bool
  ls_shutdown :: bool
  ls_alive :: bool

text \<open>
  A control sender is the index of the task that holds the receiver; \<open>None\<close> when the receiver
  was dropped before a task got it.
\<close>

record active_subscription =
  as_control :: "nat option"
  as_topic_controls :: "(string \<times> nat) list"

text \<open>
  \<open>rp_mailboxes\<close> holds the unread events of each subscription whose receiver exists.
\<close>

record 'r redis_pubsub =
  rp_redis :: 'r
  rp_subs :: "uuid \<Rightarrow> active_subscription option"
  rp_tasks :: "listener list"
  rp_mailboxes :: "uuid \<Rightarrow> topic_event list option"
  rp_active :: u64

record 'r redis_pubsub_client =
  rc_get_async_pubsub :: "('r, string, unit) io"
  rc_subscribe :: "string \<Rightarrow> ('r, string, unit) io"
  rc_publish :: "string \<Rightarrow> bytes \<Rightarrow> ('r, string, unit) io"
  rc_uuid_text :: "uuid \<Rightarrow> string"

definition redis_pubsub_new :: "'r \<Rightarrow> 'r redis_pubsub" where
  "redis_pubsub_new r = \<lparr>rp_redis = r, rp_subs = (\<lambda>_. None), rp_tasks = [],
     rp_mailboxes = (\<lambda>_. None), rp_active = 0\<rparr>"

section \<open>Its operations\<close>

definition on_redis :: "('r, 'e, 'a) io \<Rightarrow> ('r redis_pubsub, 'e, 'a) io" where
  "on_redis m = zoom rp_redis (\<lambda>r s. s\<lparr>rp_redis := r\<rparr>) m"

definition redis_publish :: "'r redis_pubsub_client \<Rightarrow> string \<Rightarrow> bytes \<Rightarrow> ('r redis_pubsub, string, unit) io" where
  "redis_publish R channel data = on_redis (rc_publish R channel data)"

fun redis_publish_bulk :: "'r redis_pubsub_client \<Rightarrow> (string \<times> bytes) list \<Rightarrow> ('r redis_pubsub, string, unit) io" where
  "redis_publish_bulk R [] = ret ()"
| "redis_publish_bulk R ((channel, data) # requests) =
     io_bind (on_redis (rc_publish R channel data)) (\<lambda>_. redis_publish_bulk R requests)"

text \<open>Opening a connection and subscribing it to channels, one after the other.\<close>

definition open_pubsub :: "'r redis_pubsub_client \<Rightarrow> ('r redis_pubsub, string, unit) io" where
  "open_pubsub R =
     io_map_err (\<lambda>_. ''failed to get pubsub connection'') (on_redis (rc_get_async_pubsub R))"

fun subscribe_channels :: "'r redis_pubsub_client \<Rightarrow> string list \<Rightarrow> ('r redis_pubsub, string, unit) io" where
  "subscribe_channels R [] = ret ()"
| "subscribe_channels R (ch # chs) =
     io_bind (on_redis (rc_subscribe R ch)) (\<lambda>_. subscribe_channels R chs)"

definition register :: "uuid \<Rightarrow> 'r redis_pubsub \<Rightarrow> 'r redis_pubsub" where
  "register i s = s\<lparr>rp_subs := (rp_subs s)(i \<mapsto> \<lparr>as_control = None, as_topic_controls = []\<rparr>),
                    rp_mailboxes := (rp_mailboxes s)(i \<mapsto> [])\<rparr>"

text \<open>The receiver is dropped with the \<open>Subscription\<close> that holds it.\<close>

definition drop_subscription :: "uuid \<Rightarrow> 'r redis_pubsub \<Rightarrow> 'r redis_pubsub" where
  "drop_subscription i s = s\<lparr>rp_mailboxes := (rp_mailboxes s)(i := None)\<rparr>"

definition spawn_main :: "uuid \<Rightarrow> string list \<Rightarrow> 'r redis_pubsub \<Rightarrow> 'r redis_pubsub" where
  "spawn_main i channels s =
     s\<lparr>rp_subs := (rp_subs s)(i := map_option (\<lambda>a. a\<lparr>as_control := Some (length (rp_tasks s))\<rparr>) (rp_subs s i)),
       rp_tasks := rp_tasks s @ [\<lparr>ls_sub = i, ls_channels = channels, ls_is_topic = False,
                                  ls_shutdown = False, ls_alive = True\<rparr>]\<rparr>"

definition redis_subscribe :: "'r redis_pubsub_client \<Rightarrow> uuid \<Rightarrow> string list \<Rightarrow> ('r redis_pubsub, string, uuid) io" where
  "redis_subscribe R sub_id channels =
     io_bind (io_modify (register sub_id)) (\<lambda>_.
     io_bind (io_try (io_bind (open_pubsub R) (\<lambda>_. subscribe_channels R channels))) (\<lambda>connected.
     case connected of
       Inl e \<Rightarrow> io_bind (io_modify (drop_subscription sub_id)) (\<lambda>_. throw e)
     | Inr _ \<Rightarrow> io_bind (io_modify (spawn_main sub_id channels)) (\<lambda>_. ret sub_id)))"

definition spawn_topic :: "string \<Rightarrow> uuid \<Rightarrow> 'r redis_pubsub \<Rightarrow> 'r redis_pubsub" where
  "spawn_topic channel i s =
     s\<lparr>rp_subs := (rp_subs s)(i := map_option
           (\<lambda>a. a\<lparr>as_topic_controls := as_topic_controls a @ [(channel, length (rp_tasks s))]\<rparr>) (rp_subs s i)),
       rp_active := fetch_add1 (rp_active s),
       rp_tasks := rp_tasks s @ [\<lparr>ls_sub = i, ls_channels = [channel], ls_is_topic = True,
                                  ls_shutdown = False, ls_alive = True\<rparr>]\<rparr>"

definition redis_add_subscription :: "'r redis_pubsub_client \<Rightarrow> string \<Rightarrow> uuid \<Rightarrow> ('r redis_pubsub, string, unit) io" where
  "redis_add_subscription R channel sub_id =
     io_bind (io_gets rp_subs) (\<lambda>subs.
     case subs sub_id of
       None \<Rightarrow> throw (''subscription '' @ rc_uuid_text R sub_id @ '' not found'')
     | Some entry \<Rightarrow>
         if channel \<in> fst ` set (as_topic_controls entry)
         then throw (''subscription '' @ rc_uuid_text R sub_id @ '' already subscribed to '' @ channel)
         else io_bind (open_pubsub R) (\<lambda>_.
              io_bind (on_redis (rc_subscribe R channel)) (\<lambda>_.
              io_modify (spawn_topic channel sub_id))))"

text \<open>Sending \<open>Shutdown\<close>; if the task is gone the message is lost, which the code ignores.\<close>

definition send_shutdown :: "nat \<Rightarrow> listener list \<Rightarrow> listener list" where
  "send_shutdown i ts = (if i < length ts then ts[i := (ts ! i)\<lparr>ls_shutdown := True\<rparr>] else ts)"

definition remove_topic :: "string \<Rightarrow> uuid \<Rightarrow> active_subscription \<Rightarrow> nat \<Rightarrow> 'r redis_pubsub \<Rightarrow> 'r redis_pubsub" where
  "remove_topic channel sub_id entry control s =
     s\<lparr>rp_subs := (rp_subs s)(sub_id \<mapsto> entry\<lparr>as_topic_controls :=
           filter (\<lambda>c. fst c \<noteq> channel) (as_topic_controls entry)\<rparr>),
       rp_tasks := send_shutdown control (rp_tasks s)\<rparr>"

definition redis_remove_subscription :: "'r redis_pubsub_client \<Rightarrow> string \<Rightarrow> uuid \<Rightarrow> ('r redis_pubsub, string, unit) io" where
  "redis_remove_subscription R channel sub_id =
     io_bind (io_gets rp_subs) (\<lambda>subs.
     case subs sub_id of
       None \<Rightarrow> throw (''subscription '' @ rc_uuid_text R sub_id @ '' not found'')
     | Some entry \<Rightarrow>
         (case map_of (as_topic_controls entry) channel of
            None \<Rightarrow> throw (''subscription '' @ rc_uuid_text R sub_id @ '' is not subscribed to '' @ channel)
          | Some control \<Rightarrow> io_modify (remove_topic channel sub_id entry control)))"

definition entry_tasks :: "active_subscription \<Rightarrow> nat list" where
  "entry_tasks entry =
     (case as_control entry of None \<Rightarrow> [] | Some i \<Rightarrow> [i]) @ map snd (as_topic_controls entry)"

definition redis_unsubscribe :: "uuid \<Rightarrow> ('r redis_pubsub, string, unit) io" where
  "redis_unsubscribe sub_id =
     io_bind (io_gets rp_subs) (\<lambda>subs.
     case subs sub_id of
       None \<Rightarrow> ret ()
     | Some entry \<Rightarrow> io_modify (\<lambda>s. s\<lparr>rp_subs := (rp_subs s)(sub_id := None),
                                      rp_tasks := fold send_shutdown (entry_tasks entry) (rp_tasks s)\<rparr>))"

definition redis_pubsub_ops :: "'r redis_pubsub_client \<Rightarrow> 'r redis_pubsub pubsub_ops" where
  "redis_pubsub_ops R =
     \<lparr>ps_publish = redis_publish R, ps_publish_bulk = redis_publish_bulk R,
      ps_subscribe = redis_subscribe R, ps_add_subscription = redis_add_subscription R,
      ps_remove_subscription = redis_remove_subscription R, ps_unsubscribe = redis_unsubscribe,
      ps_active_topic_listeners = rp_active, ps_drop = drop_subscription\<rparr>"

section \<open>The listener tasks\<close>

text \<open>
  A task ends by its loop returning; a topic listener then counts itself out. A message is passed
  on to the subscription's receiver, and a task whose receiver is gone ends.
\<close>

definition listener_exit :: "nat \<Rightarrow> 'r redis_pubsub \<Rightarrow> 'r redis_pubsub" where
  "listener_exit i s =
     s\<lparr>rp_tasks := (rp_tasks s)[i := (rp_tasks s ! i)\<lparr>ls_alive := False\<rparr>],
       rp_active := (if ls_is_topic (rp_tasks s ! i) then fetch_sub1 (rp_active s) else rp_active s)\<rparr>"

definition listener_message :: "nat \<Rightarrow> string \<Rightarrow> bytes \<Rightarrow> 'r redis_pubsub \<Rightarrow> 'r redis_pubsub" where
  "listener_message i channel payload s =
     (let sub = ls_sub (rp_tasks s ! i) in
      case rp_mailboxes s sub of
        Some q \<Rightarrow> s\<lparr>rp_mailboxes := (rp_mailboxes s)(sub \<mapsto> q @ [\<lparr>te_topic = channel, te_event = payload\<rparr>])\<rparr>
      | None \<Rightarrow> listener_exit i s)"

text \<open>\<open>event_rx.recv()\<close> of a subscription that has an unread event.\<close>

definition take_event :: "uuid \<Rightarrow> 'r redis_pubsub \<Rightarrow> 'r redis_pubsub" where
  "take_event i s = s\<lparr>rp_mailboxes := (rp_mailboxes s)(i := map_option tl (rp_mailboxes s i))\<rparr>"

definition fresh_id :: "uuid \<Rightarrow> 'r redis_pubsub \<Rightarrow> bool" where
  "fresh_id i s \<longleftrightarrow> rp_subs s i = None \<and> rp_mailboxes s i = None \<and> i \<notin> ls_sub ` set (rp_tasks s)"

text \<open>
  One step: a call of an operation, or a move of a task, of the consumer of a subscription, or of
  the connection of a task, which Redis may close at any time.
\<close>

inductive pubsub_step :: "'r redis_pubsub_client \<Rightarrow> 'r redis_pubsub \<Rightarrow> 'r redis_pubsub \<Rightarrow> bool"
  for R where
  call_publish: "pubsub_step R s (fst (redis_publish R ch d s))"
| call_publish_bulk: "pubsub_step R s (fst (redis_publish_bulk R reqs s))"
| call_subscribe: "fresh_id i s \<Longrightarrow> pubsub_step R s (fst (redis_subscribe R i chs s))"
| call_add: "pubsub_step R s (fst (redis_add_subscription R ch i s))"
| call_remove: "pubsub_step R s (fst (redis_remove_subscription R ch i s))"
| call_unsubscribe: "pubsub_step R s (fst (redis_unsubscribe i s))"
| message: "n < length (rp_tasks s) \<Longrightarrow> ls_alive (rp_tasks s ! n) \<Longrightarrow> ch \<in> set (ls_channels (rp_tasks s ! n)) \<Longrightarrow>
    pubsub_step R s (listener_message n ch d s)"
| control: "n < length (rp_tasks s) \<Longrightarrow> ls_alive (rp_tasks s ! n) \<Longrightarrow> ls_shutdown (rp_tasks s ! n) \<Longrightarrow>
    pubsub_step R s (listener_exit n s)"
| stream_end: "n < length (rp_tasks s) \<Longrightarrow> ls_alive (rp_tasks s ! n) \<Longrightarrow> pubsub_step R s (listener_exit n s)"
| receive: "pubsub_step R s (take_event i s)"
| receiver_dropped: "pubsub_step R s (drop_subscription i s)"

inductive pubsub_reachable :: "'r redis_pubsub_client \<Rightarrow> 'r redis_pubsub \<Rightarrow> bool" for R where
  start: "pubsub_reachable R (redis_pubsub_new r)"
| step: "pubsub_reachable R s \<Longrightarrow> pubsub_step R s s' \<Longrightarrow> pubsub_reachable R s'"

section \<open>The invariant of the tasks\<close>

definition active_topic_tasks :: "listener list \<Rightarrow> nat" where
  "active_topic_tasks ts = length (filter (\<lambda>t. ls_alive t \<and> ls_is_topic t) ts)"

text \<open>The entry of a subscription names tasks of its own that were not told to stop.\<close>

definition task_ok :: "listener list \<Rightarrow> uuid \<Rightarrow> bool \<Rightarrow> nat \<Rightarrow> bool" where
  "task_ok ts i topic n \<longleftrightarrow>
     n < length ts \<and> ls_sub (ts ! n) = i \<and> ls_is_topic (ts ! n) = topic \<and> \<not> ls_shutdown (ts ! n)"

definition entry_ok :: "listener list \<Rightarrow> uuid \<Rightarrow> active_subscription \<Rightarrow> bool" where
  "entry_ok ts i a \<longleftrightarrow>
     distinct (map fst (as_topic_controls a)) \<and>
     (\<forall>c\<in>set (as_topic_controls a). task_ok ts i True (snd c) \<and> ls_channels (ts ! snd c) = [fst c]) \<and>
     (\<forall>n. as_control a = Some n \<longrightarrow> task_ok ts i False n)"

text \<open>A task that was not told to stop is the one that its subscription's entry names.\<close>

definition owned :: "(uuid \<Rightarrow> active_subscription option) \<Rightarrow> nat \<Rightarrow> listener \<Rightarrow> bool" where
  "owned subs n t \<longleftrightarrow> (\<exists>a. subs (ls_sub t) = Some a \<and>
     (if ls_is_topic t then (hd (ls_channels t), n) \<in> set (as_topic_controls a) else as_control a = Some n))"

definition pubsub_inv :: "'r redis_pubsub \<Rightarrow> bool" where
  "pubsub_inv s \<longleftrightarrow>
     rp_active s = of_nat (active_topic_tasks (rp_tasks s)) \<and>
     (\<forall>i a. rp_subs s i = Some a \<longrightarrow> entry_ok (rp_tasks s) i a) \<and>
     (\<forall>n<length (rp_tasks s). \<not> ls_shutdown (rp_tasks s ! n) \<longrightarrow> owned (rp_subs s) n (rp_tasks s ! n))"

lemma pubsub_inv_cong:
  assumes "rp_active s' = rp_active s" and "rp_subs s' = rp_subs s" and "rp_tasks s' = rp_tasks s"
  shows "pubsub_inv s' = pubsub_inv s"
  using assms by (simp add: pubsub_inv_def)

lemma inv_new: "pubsub_inv (redis_pubsub_new r)"
  by (simp add: pubsub_inv_def redis_pubsub_new_def active_topic_tasks_def)

lemma inv_mailbox [simp]:
  "pubsub_inv (drop_subscription i s) = pubsub_inv s" "pubsub_inv (take_event i s) = pubsub_inv s"
  "pubsub_inv (s\<lparr>rp_mailboxes := m\<rparr>) = pubsub_inv s" "pubsub_inv (s\<lparr>rp_redis := r\<rparr>) = pubsub_inv s"
  by (rule pubsub_inv_cong; simp add: drop_subscription_def take_event_def)+

lemma task_ok_append: "task_ok ts i b n \<Longrightarrow> task_ok (ts @ us) i b n \<and> (ts @ us) ! n = ts ! n"
  by (auto simp: task_ok_def nth_append)

lemma entry_ok_append: "entry_ok ts i a \<Longrightarrow> entry_ok (ts @ us) i a"
  using task_ok_append [of ts i] by (auto simp: entry_ok_def)

lemma inv_register:
  assumes "pubsub_inv s" and "fresh_id i s"
  shows "pubsub_inv (register i s)"
proof -
  have "owned (rp_subs (register i s)) n (rp_tasks s ! n)"
    if "n < length (rp_tasks s)" "owned (rp_subs s) n (rp_tasks s ! n)" for n
    using that assms(2) by (auto simp: owned_def register_def fresh_id_def)
  with assms(1) show ?thesis
    by (auto simp: pubsub_inv_def register_def entry_ok_def)
qed

lemma inv_spawn_main:
  assumes inv: "pubsub_inv s" and i: "rp_subs s i = Some a" "as_control a = None"
  shows "pubsub_inv (spawn_main i chs s)"
proof -
  let ?ts = "rp_tasks s" and ?s = "spawn_main i chs s"
  let ?a = "a\<lparr>as_control := Some (length ?ts)\<rparr>"
  have subs: "rp_subs ?s = (rp_subs s)(i \<mapsto> ?a)" using i by (simp add: spawn_main_def)
  have "entry_ok (rp_tasks ?s) j b" if j: "rp_subs ?s j = Some b" for j b
  proof (cases "j = i")
    case True
    with j subs have b: "b = ?a" by simp
    from inv i have "entry_ok ?ts i a" by (simp add: pubsub_inv_def)
    from entry_ok_append [OF this] have "entry_ok (rp_tasks ?s) i a" by (simp add: spawn_main_def)
    with True b show ?thesis by (simp add: entry_ok_def task_ok_def spawn_main_def)
  next
    case False
    with j subs inv have "entry_ok ?ts j b" by (simp add: pubsub_inv_def)
    from entry_ok_append [OF this] show ?thesis by (simp add: spawn_main_def)
  qed
  moreover have "owned (rp_subs ?s) n (rp_tasks ?s ! n)"
    if n: "n < length (rp_tasks ?s)" "\<not> ls_shutdown (rp_tasks ?s ! n)" for n
  proof (cases "n = length ?ts")
    case True
    then show ?thesis using subs by (simp add: owned_def spawn_main_def)
  next
    case False
    with n inv have "owned (rp_subs s) n (?ts ! n)" and nth: "rp_tasks ?s ! n = ?ts ! n"
      by (auto simp: pubsub_inv_def spawn_main_def nth_append)
    then show ?thesis using i subs by (auto simp: owned_def split: if_splits)
  qed
  ultimately show ?thesis
    using inv by (simp add: pubsub_inv_def) (simp add: spawn_main_def active_topic_tasks_def)
qed

lemma inv_spawn_topic:
  assumes inv: "pubsub_inv s" and i: "rp_subs s i = Some a" "ch \<notin> fst ` set (as_topic_controls a)"
  shows "pubsub_inv (spawn_topic ch i s)"
proof -
  let ?ts = "rp_tasks s" and ?s = "spawn_topic ch i s"
  let ?a = "a\<lparr>as_topic_controls := as_topic_controls a @ [(ch, length ?ts)]\<rparr>"
  have subs: "rp_subs ?s = (rp_subs s)(i \<mapsto> ?a)" using i by (simp add: spawn_topic_def)
  have "entry_ok (rp_tasks ?s) j b" if j: "rp_subs ?s j = Some b" for j b
  proof (cases "j = i")
    case True
    with j subs have b: "b = ?a" by simp
    from inv i have "entry_ok ?ts i a" by (simp add: pubsub_inv_def)
    from entry_ok_append [OF this] have "entry_ok (rp_tasks ?s) i a" by (simp add: spawn_topic_def)
    with True b i(2) show ?thesis by (simp add: entry_ok_def) (simp add: task_ok_def spawn_topic_def)
  next
    case False
    with j subs inv have "entry_ok ?ts j b" by (simp add: pubsub_inv_def)
    from entry_ok_append [OF this] show ?thesis by (simp add: spawn_topic_def)
  qed
  moreover have "owned (rp_subs ?s) n (rp_tasks ?s ! n)"
    if n: "n < length (rp_tasks ?s)" "\<not> ls_shutdown (rp_tasks ?s ! n)" for n
  proof (cases "n = length ?ts")
    case True
    then show ?thesis using subs by (simp add: owned_def spawn_topic_def)
  next
    case False
    with n inv have "owned (rp_subs s) n (?ts ! n)" and nth: "rp_tasks ?s ! n = ?ts ! n"
      by (auto simp: pubsub_inv_def spawn_topic_def nth_append)
    then show ?thesis using i subs by (auto simp: owned_def split: if_splits)
  qed
  ultimately show ?thesis
    using inv by (simp add: pubsub_inv_def) (simp add: spawn_topic_def active_topic_tasks_def fetch_add1_def)
qed

lemma length_send_shutdown [simp]: "length (fold send_shutdown ns ts) = length ts"
  by (induction ns arbitrary: ts) (auto simp: send_shutdown_def)

lemma nth_send_shutdown:
  "n < length ts \<Longrightarrow> fold send_shutdown ns ts ! n =
     (if n \<in> set ns then (ts ! n)\<lparr>ls_shutdown := True\<rparr> else ts ! n)"
  by (induction ns arbitrary: ts) (auto simp: send_shutdown_def nth_list_update)

lemma filter_update_same:
  "n < length ts \<Longrightarrow> P x = P (ts ! n) \<Longrightarrow> length (filter P (ts[n := x])) = length (filter P ts)"
proof (induction ts arbitrary: n)
  case (Cons t ts)
  then show ?case by (cases n) auto
qed simp

lemma active_send_shutdown [simp]: "active_topic_tasks (fold send_shutdown ns ts) = active_topic_tasks ts"
  by (induction ns arbitrary: ts) (auto simp: send_shutdown_def active_topic_tasks_def filter_update_same)

lemma task_ok_shutdown: "task_ok ts i b n \<Longrightarrow> n \<notin> set ns \<Longrightarrow> task_ok (fold send_shutdown ns ts) i b n"
  by (simp add: task_ok_def nth_send_shutdown)

lemma entry_ok_shutdown:
  assumes "entry_ok ts i a" and "set (entry_tasks a) \<inter> set ns = {}"
  shows "entry_ok (fold send_shutdown ns ts) i a"
proof -
  have "task_ok (fold send_shutdown ns ts) i True (snd c) \<and> ls_channels (fold send_shutdown ns ts ! snd c) = [fst c]"
    if c: "c \<in> set (as_topic_controls a)" for c
  proof -
    from c assms(2) have "snd c \<notin> set ns" by (force simp: entry_tasks_def)
    with c assms(1) show ?thesis
      by (auto simp: entry_ok_def task_ok_shutdown nth_send_shutdown task_ok_def)
  qed
  moreover have "task_ok (fold send_shutdown ns ts) i False n" if "as_control a = Some n" for n
    using that assms by (intro task_ok_shutdown) (auto simp: entry_ok_def entry_tasks_def)
  ultimately show ?thesis using assms(1) by (simp add: entry_ok_def)
qed

lemma entry_tasks_sub: "entry_ok ts i a \<Longrightarrow> n \<in> set (entry_tasks a) \<Longrightarrow> n < length ts \<and> ls_sub (ts ! n) = i"
  by (auto simp: entry_ok_def entry_tasks_def task_ok_def split: option.splits)

text \<open>Shrinking one entry and stopping the tasks that it no longer names keeps the invariant.\<close>

lemma inv_shrink:
  assumes inv: "pubsub_inv s" and i: "rp_subs s i = Some a"
    and ns: "set ns \<subseteq> set (entry_tasks a)"
    and subs: "\<And>j. j \<noteq> i \<Longrightarrow> subs j = rp_subs s j"
    and entry: "\<And>b. subs i = Some b \<Longrightarrow> entry_ok (fold send_shutdown ns (rp_tasks s)) i b"
    and own: "\<And>n. n < length (rp_tasks s) \<Longrightarrow> n \<notin> set ns \<Longrightarrow> ls_sub (rp_tasks s ! n) = i \<Longrightarrow>
         \<not> ls_shutdown (rp_tasks s ! n) \<Longrightarrow> owned (rp_subs s) n (rp_tasks s ! n) \<Longrightarrow> owned subs n (rp_tasks s ! n)"
  shows "pubsub_inv (s\<lparr>rp_subs := subs, rp_tasks := fold send_shutdown ns (rp_tasks s)\<rparr>)"
proof -
  let ?ts = "rp_tasks s" and ?us = "fold send_shutdown ns (rp_tasks s)"
  have ok: "entry_ok ?ts j b" if "rp_subs s j = Some b" for j b
    using inv that by (simp add: pubsub_inv_def)
  have "entry_ok ?us j b" if j: "subs j = Some b" for j b
  proof (cases "j = i")
    case False
    with j subs have b: "rp_subs s j = Some b" by simp
    have "set (entry_tasks b) \<inter> set ns = {}"
    proof (rule ccontr)
      assume "set (entry_tasks b) \<inter> set ns \<noteq> {}"
      then obtain n where "n \<in> set (entry_tasks b)" "n \<in> set (entry_tasks a)" using ns by auto
      with entry_tasks_sub [OF ok [OF b]] entry_tasks_sub [OF ok [OF i]] False show False by blast
    qed
    with ok [OF b] show ?thesis by (rule entry_ok_shutdown)
  qed (use j entry in simp)
  moreover have "owned subs n (?us ! n)" if n: "n < length ?ts" "\<not> ls_shutdown (?us ! n)" for n
  proof -
    from n have "n \<notin> set ns" by (auto simp: nth_send_shutdown)
    with n have us: "?us ! n = ?ts ! n" and alive: "\<not> ls_shutdown (?ts ! n)"
      by (simp_all add: nth_send_shutdown)
    from inv n alive have o: "owned (rp_subs s) n (?ts ! n)" by (simp add: pubsub_inv_def)
    have "owned subs n (?ts ! n)"
    proof (cases "ls_sub (?ts ! n) = i")
      case True
      from own [OF n(1) \<open>n \<notin> set ns\<close> True alive o] show ?thesis .
    next
      case False
      with o subs show ?thesis by (simp add: owned_def)
    qed
    with us show ?thesis by simp
  qed
  ultimately show ?thesis using inv by (simp add: pubsub_inv_def)
qed

lemma map_of_controls:
  "map_of (as_topic_controls a) ch = Some n \<Longrightarrow> (ch, n) \<in> set (as_topic_controls a)"
  by (rule map_of_SomeD)

lemma inv_remove_topic:
  assumes inv: "pubsub_inv s" and i: "rp_subs s i = Some a" "map_of (as_topic_controls a) ch = Some n"
  shows "pubsub_inv (remove_topic ch i a n s)"
proof -
  let ?b = "a\<lparr>as_topic_controls := filter (\<lambda>c. fst c \<noteq> ch) (as_topic_controls a)\<rparr>"
  let ?ts = "rp_tasks s"
  from inv i(1) have ok: "entry_ok ?ts i a" by (simp add: pubsub_inv_def)
  from i(2) have c: "(ch, n) \<in> set (as_topic_controls a)" by (rule map_of_SomeD)
  with ok have n: "ls_channels (?ts ! n) = [ch]" "task_ok ?ts i True n" by (auto simp: entry_ok_def)
  have "entry_ok ?ts i ?b"
    using ok by (auto simp: entry_ok_def distinct_map_filter)
  moreover have "n \<notin> set (entry_tasks ?b)"
  proof
    assume "n \<in> set (entry_tasks ?b)"
    then consider "as_control a = Some n" | ch' where "ch' \<noteq> ch" "(ch', n) \<in> set (as_topic_controls a)"
      by (auto simp: entry_tasks_def split: option.splits)
    then show False
      using ok n by cases (auto simp: entry_ok_def task_ok_def)
  qed
  ultimately have e: "entry_ok (fold send_shutdown [n] ?ts) i ?b" by (intro entry_ok_shutdown) simp_all
  have "pubsub_inv (s\<lparr>rp_subs := (rp_subs s)(i \<mapsto> ?b), rp_tasks := fold send_shutdown [n] ?ts\<rparr>)"
  proof (rule inv_shrink [OF inv i(1)])
    show "set [n] \<subseteq> set (entry_tasks a)" using c by (force simp: entry_tasks_def)
    fix m assume m: "m < length ?ts" "m \<notin> set [n]" "ls_sub (?ts ! m) = i" "owned (rp_subs s) m (?ts ! m)"
    show "owned ((rp_subs s)(i \<mapsto> ?b)) m (?ts ! m)"
    proof (cases "ls_is_topic (?ts ! m)")
      case True
      with m i have k: "(hd (ls_channels (?ts ! m)), m) \<in> set (as_topic_controls a)" by (simp add: owned_def)
      have "hd (ls_channels (?ts ! m)) \<noteq> ch"
      proof
        assume "hd (ls_channels (?ts ! m)) = ch"
        with k c ok have "m = n" by (auto simp: entry_ok_def dest: eq_key_imp_eq_value)
        with m show False by simp
      qed
      with k True m show ?thesis by (simp add: owned_def)
    next
      case False
      with m i show ?thesis by (simp add: owned_def)
    qed
  qed (use e in auto)
  then show ?thesis by (simp add: remove_topic_def)
qed

lemma inv_unsubscribe:
  assumes inv: "pubsub_inv s"
  shows "pubsub_inv (fst (redis_unsubscribe i s))"
proof (cases "rp_subs s i")
  case None
  with inv show ?thesis by (simp add: redis_unsubscribe_def io_defs)
next
  case (Some a)
  have "pubsub_inv (s\<lparr>rp_subs := (rp_subs s)(i := None),
      rp_tasks := fold send_shutdown (entry_tasks a) (rp_tasks s)\<rparr>)"
  proof (rule inv_shrink [OF inv Some])
    fix n assume n: "n \<notin> set (entry_tasks a)" "ls_sub (rp_tasks s ! n) = i" "owned (rp_subs s) n (rp_tasks s ! n)"
    from n(2,3) Some have "n \<in> set (entry_tasks a)"
      by (force simp: owned_def entry_tasks_def split: if_splits)
    with n(1) show "owned ((rp_subs s)(i := None)) n (rp_tasks s ! n)" by simp
  qed simp_all
  with Some show ?thesis by (simp add: redis_unsubscribe_def io_defs)
qed

lemma active_exit:
  "n < length ts \<Longrightarrow> ls_alive (ts ! n) \<Longrightarrow>
     active_topic_tasks ts = active_topic_tasks (ts[n := (ts ! n)\<lparr>ls_alive := False\<rparr>]) +
       (if ls_is_topic (ts ! n) then 1 else 0)"
proof (induction ts arbitrary: n)
  case (Cons t ts)
  then show ?case by (cases n) (auto simp: active_topic_tasks_def)
qed simp

lemma inv_exit:
  assumes inv: "pubsub_inv s" and n: "n < length (rp_tasks s)" "ls_alive (rp_tasks s ! n)"
  shows "pubsub_inv (listener_exit n s)"
proof -
  let ?ts = "rp_tasks s" and ?us = "(rp_tasks s)[n := (rp_tasks s ! n)\<lparr>ls_alive := False\<rparr>]"
  have nth: "?us ! m = (if m = n then (?ts ! n)\<lparr>ls_alive := False\<rparr> else ?ts ! m)" if "m < length ?ts" for m
    using that by (simp add: nth_list_update)
  note count = active_exit [OF n]
  have "task_ok ?us i b m \<and> ls_channels (?us ! m) = ls_channels (?ts ! m)" if "task_ok ?ts i b m" for i b m
    using that by (cases "m = n") (simp_all add: task_ok_def)
  then have "entry_ok ?us i a" if "entry_ok ?ts i a" for i a
    using that by (auto simp: entry_ok_def)
  moreover have "owned (rp_subs s) m (?us ! m)" if "m < length ?ts" "\<not> ls_shutdown (?us ! m)" for m
    using that inv nth [of m] by (auto simp: pubsub_inv_def owned_def split: if_splits)
  ultimately show ?thesis
    using inv count by (auto simp: pubsub_inv_def listener_exit_def fetch_sub1_def)
qed

section \<open>Every step keeps it\<close>

text \<open>What the calls of Redis leave alone.\<close>

definition same_core :: "'r redis_pubsub \<Rightarrow> 'r redis_pubsub \<Rightarrow> bool" where
  "same_core s t \<longleftrightarrow> (\<exists>r. t = s\<lparr>rp_redis := r\<rparr>)"

interpretation core: effect_preorder same_core
proof unfold_locales
  fix s :: "'r redis_pubsub" show "same_core s s"
    unfolding same_core_def by (rule exI [of _ "rp_redis s"]) simp
qed (auto simp: same_core_def)

lemma conforms_on_redis: "conforms same_core (on_redis m)"
  by (auto simp: on_redis_def same_core_def intro!: conforms_zoom)

lemma conforms_open: "conforms same_core (open_pubsub R)"
  unfolding open_pubsub_def by (intro core.conforms_map_err conforms_on_redis)

lemma conforms_subscribe_channels: "conforms same_core (subscribe_channels R chs)"
  by (induction chs) (simp_all add: core.conforms_combinators conforms_on_redis)

lemma conforms_publish_bulk: "conforms same_core (redis_publish_bulk R reqs)"
proof (induction reqs)
  case (Cons r reqs)
  then show ?case by (cases r) (simp add: core.conforms_combinators conforms_on_redis)
qed (simp add: core.conforms_combinators)

lemma same_coreD:
  assumes "same_core s t"
  shows "pubsub_inv t = pubsub_inv s" "rp_subs t = rp_subs s" "rp_tasks t = rp_tasks s"
    "rp_mailboxes t = rp_mailboxes s" "rp_active t = rp_active s"
  using assms by (auto simp: same_core_def)

lemma inv_on_redis: "pubsub_inv (fst (on_redis m s)) = pubsub_inv s"
  by (rule same_coreD(1) [OF conformsD [OF conforms_on_redis]])

text \<open>The outcomes of \<open>subscribe\<close> and \<open>add_subscription\<close>.\<close>

lemma redis_subscribe_cases:
  assumes "redis_subscribe R i chs s = (s', res)"
  obtains (failed) t e where "same_core (register i s) t" "s' = drop_subscription i t" "res = Inl e"
    | (subscribed) t where "same_core (register i s) t" "s' = spawn_main i chs t" "res = Inr i"
proof -
  let ?m = "io_bind (open_pubsub R) (\<lambda>_. subscribe_channels R chs)"
  obtain t x where m: "?m (register i s) = (t, x)" by (cases "?m (register i s)")
  have "conforms same_core ?m"
    by (intro core.conforms_bind conforms_open conforms_subscribe_channels)
  from conforms_run [OF this m] have c: "same_core (register i s) t" .
  show thesis
  proof (cases x)
    case (Inl e)
    with m assms have "s' = drop_subscription i t" "res = Inl e"
      by (simp_all add: redis_subscribe_def io_bind_def [of "io_try _"] io_bind_def [of "io_modify _"]
          io_try_def io_modify_def throw_def)
    with c failed show thesis by blast
  next
    case (Inr u)
    with m assms have "s' = spawn_main i chs t" "res = Inr i"
      by (simp_all add: redis_subscribe_def io_bind_def [of "io_try _"] io_bind_def [of "io_modify _"]
          io_try_def io_modify_def ret_def)
    with c subscribed show thesis by blast
  qed
qed

lemma redis_add_cases:
  assumes "redis_add_subscription R ch i s = (s', res)"
  obtains (unknown) e where "rp_subs s i = None" "s' = s" "res = Inl e"
    | (present) a e where "rp_subs s i = Some a" "ch \<in> fst ` set (as_topic_controls a)" "s' = s" "res = Inl e"
    | (failed) a e where "rp_subs s i = Some a" "ch \<notin> fst ` set (as_topic_controls a)" "same_core s s'" "res = Inl e"
    | (added) a t where "rp_subs s i = Some a" "ch \<notin> fst ` set (as_topic_controls a)" "same_core s t"
        "s' = spawn_topic ch i t" "res = Inr ()"
proof -
  let ?m = "io_bind (open_pubsub R) (\<lambda>_. io_bind (on_redis (rc_subscribe R ch)) (\<lambda>_. ret ()))"
  obtain t x where m: "?m s = (t, x)" by (cases "?m s")
  have "conforms same_core ?m"
    by (intro core.conforms_bind conforms_open conforms_on_redis core.conforms_ret)
  from conforms_run [OF this m] have c: "same_core s t" .
  show thesis
  proof (cases "rp_subs s i")
    case None
    with assms have "s' = s" "\<exists>e. res = Inl e" by (auto simp: redis_add_subscription_def io_defs)
    with None unknown show thesis by blast
  next
    case (Some a)
    show thesis
    proof (cases "ch \<in> fst ` set (as_topic_controls a)")
      case True
      with Some assms have "s' = s" "\<exists>e. res = Inl e" by (auto simp: redis_add_subscription_def io_defs)
      with Some True present show thesis by blast
    next
      case False
      have "io_bind (open_pubsub R) (\<lambda>_. io_bind (on_redis (rc_subscribe R ch)) (\<lambda>_. io_modify (spawn_topic ch i)))
          = io_bind ?m (\<lambda>_. io_modify (spawn_topic ch i))"
        by (simp add: io_bind_assoc)
      moreover from Some False assms have "io_bind (open_pubsub R)
          (\<lambda>_. io_bind (on_redis (rc_subscribe R ch)) (\<lambda>_. io_modify (spawn_topic ch i))) s = (s', res)"
        by (simp add: redis_add_subscription_def io_bind_def [of "io_gets _"] io_gets_def)
      ultimately have r: "io_bind ?m (\<lambda>_. io_modify (spawn_topic ch i)) s = (s', res)" by simp
      show thesis
      proof (cases x)
        case (Inl e)
        have "(s', res) = (t, Inl e)"
          by (rule trans [OF r [symmetric] io_bind_Inl [of ?m, OF m [unfolded Inl]]])
        then have "s' = t" "res = Inl e" by simp_all
        with Some False c failed show thesis by blast
      next
        case (Inr u)
        have "(s', res) = io_modify (spawn_topic ch i) t"
          by (rule trans [OF r [symmetric] io_bind_Inr [of ?m, OF m [unfolded Inr]]])
        then have "s' = spawn_topic ch i t" "res = Inr ()" by (simp_all add: io_modify_def)
        with Some False c added show thesis by blast
      qed
    qed
  qed
qed

lemma inv_subscribe:
  assumes "pubsub_inv s" and "fresh_id i s"
  shows "pubsub_inv (fst (redis_subscribe R i chs s))"
proof -
  obtain s' res where m: "redis_subscribe R i chs s = (s', res)" by (cases "redis_subscribe R i chs s")
  note reg = inv_register [OF assms]
  have entry: "rp_subs (register i s) i = Some \<lparr>as_control = None, as_topic_controls = []\<rparr>"
    by (simp add: register_def)
  from m have "pubsub_inv s'"
  proof (cases rule: redis_subscribe_cases)
    case (failed t e)
    with same_coreD(1) [OF failed(1)] reg show ?thesis by simp
  next
    case (subscribed t)
    from same_coreD(1) [OF subscribed(1)] reg have "pubsub_inv t" by simp
    moreover from same_coreD(2) [OF subscribed(1)] entry
    have "rp_subs t i = Some \<lparr>as_control = None, as_topic_controls = []\<rparr>" by simp
    ultimately have "pubsub_inv (spawn_main i chs t)" by (rule inv_spawn_main) simp
    with subscribed show ?thesis by simp
  qed
  with m show ?thesis by simp
qed

lemma inv_add:
  assumes "pubsub_inv s"
  shows "pubsub_inv (fst (redis_add_subscription R ch i s))"
proof -
  obtain s' res where m: "redis_add_subscription R ch i s = (s', res)"
    by (cases "redis_add_subscription R ch i s")
  from m have "pubsub_inv s'"
  proof (cases rule: redis_add_cases)
    case (added a t)
    from same_coreD(1,2) [OF added(3)] assms added(1) have "pubsub_inv t" "rp_subs t i = Some a" by simp_all
    from inv_spawn_topic [OF this added(2)] added show ?thesis by simp
  qed (use assms same_coreD(1) in auto)
  with m show ?thesis by simp
qed

lemma inv_remove:
  assumes "pubsub_inv s"
  shows "pubsub_inv (fst (redis_remove_subscription R ch i s))"
  using assms inv_remove_topic [OF assms, of i]
  by (simp add: redis_remove_subscription_def io_defs split: option.splits)

lemma inv_step:
  assumes "pubsub_step R s s'" and "pubsub_inv s"
  shows "pubsub_inv s'"
  using assms
proof cases
  case (call_publish ch d)
  from conformsD [OF conforms_on_redis] have "same_core s s'"
    unfolding call_publish redis_publish_def .
  from same_coreD(1) [OF this] assms(2) show ?thesis by simp
next
  case (call_publish_bulk reqs)
  from conformsD [OF conforms_publish_bulk] have "same_core s s'" unfolding call_publish_bulk .
  from same_coreD(1) [OF this] assms(2) show ?thesis by simp
next
  case (message n ch d)
  with assms(2) inv_exit [of s n] show ?thesis
    by (simp add: listener_message_def Let_def split: option.splits)
qed (simp_all add: inv_subscribe inv_add inv_remove inv_unsubscribe inv_exit assms(2))

lemma inv_reachable: "pubsub_reachable R s \<Longrightarrow> pubsub_inv s"
  by (induction rule: pubsub_reachable.induct) (auto intro: inv_new inv_step)

section \<open>\<open>RedisPubSub\<close> keeps the contract\<close>

definition sub_topics :: "'r redis_pubsub \<Rightarrow> uuid \<Rightarrow> string set option" where
  "sub_topics s i = map_option (\<lambda>a. fst ` set (as_topic_controls a)) (rp_subs s i)"

lemma sub_topics_core: "same_core s t \<Longrightarrow> sub_topics t = sub_topics s"
  by (rule ext) (simp add: sub_topics_def same_coreD)

lemma sub_topics_register: "rp_subs t = rp_subs (register i s) \<Longrightarrow> sub_topics t = (sub_topics s)(i \<mapsto> {})"
  by (rule ext) (simp add: sub_topics_def register_def)

lemma sub_topics_spawn_main [simp]: "sub_topics (spawn_main i chs s) = sub_topics s"
  by (rule ext) (cases "rp_subs s i"; simp add: sub_topics_def spawn_main_def)

lemma sub_topics_spawn_topic:
  "rp_subs s i = Some a \<Longrightarrow>
     sub_topics (spawn_topic ch i s) = (sub_topics s)(i \<mapsto> insert ch (fst ` set (as_topic_controls a)))"
  by (rule ext) (simp add: sub_topics_def spawn_topic_def)

lemma sub_topics_remove:
  "sub_topics (remove_topic ch i a n s) = (sub_topics s)(i \<mapsto> fst ` set (as_topic_controls a) - {ch})"
  by (rule ext) (force simp: sub_topics_def remove_topic_def)

interpretation redis_ps: pubsub "redis_pubsub_ops R" sub_topics pubsub_inv fresh_id
  for R :: "'r redis_pubsub_client"
proof unfold_locales
  fix s s' :: "'r redis_pubsub" and ch d i j chs e T
  show "sub_topics (fst (ps_publish (redis_pubsub_ops R) ch d s)) = sub_topics s"
    using sub_topics_core [OF conformsD [OF conforms_on_redis]]
    by (simp add: redis_pubsub_ops_def redis_publish_def)
  show "pubsub_inv s \<Longrightarrow> pubsub_inv (fst (ps_publish (redis_pubsub_ops R) ch d s))"
    by (simp add: redis_pubsub_ops_def redis_publish_def inv_on_redis)
  show "sub_topics (ps_drop (redis_pubsub_ops R) i s) = sub_topics s"
    by (rule ext) (simp add: redis_pubsub_ops_def drop_subscription_def sub_topics_def)
  show "ps_subscribe (redis_pubsub_ops R) i chs s = (s', Inr j) \<Longrightarrow> j = i \<and> sub_topics s' = (sub_topics s)(i \<mapsto> {})"
  proof -
    assume "ps_subscribe (redis_pubsub_ops R) i chs s = (s', Inr j)"
    then have "redis_subscribe R i chs s = (s', Inr j)" by (simp add: redis_pubsub_ops_def)
    then show ?thesis
    proof (cases rule: redis_subscribe_cases)
      case (subscribed t)
      from sub_topics_register [OF same_coreD(2) [OF subscribed(1)]] subscribed show ?thesis by simp
    qed simp
  qed
  show "ps_add_subscription (redis_pubsub_ops R) ch i s = (s', Inr ()) \<Longrightarrow>
      \<exists>T. sub_topics s i = Some T \<and> ch \<notin> T \<and> sub_topics s' = (sub_topics s)(i \<mapsto> insert ch T)"
  proof -
    assume "ps_add_subscription (redis_pubsub_ops R) ch i s = (s', Inr ())"
    then have "redis_add_subscription R ch i s = (s', Inr ())" by (simp add: redis_pubsub_ops_def)
    then show ?thesis
    proof (cases rule: redis_add_cases)
      case (added a t)
      from sub_topics_spawn_topic [of t i a ch] sub_topics_core [OF added(3)] same_coreD(2) [OF added(3)] added
      show ?thesis by (simp add: sub_topics_def)
    qed simp_all
  qed
  show "ps_add_subscription (redis_pubsub_ops R) ch i s = (s', Inl e) \<Longrightarrow> sub_topics s' = sub_topics s"
  proof -
    assume "ps_add_subscription (redis_pubsub_ops R) ch i s = (s', Inl e)"
    then have "redis_add_subscription R ch i s = (s', Inl e)" by (simp add: redis_pubsub_ops_def)
    then show ?thesis by (cases rule: redis_add_cases) (simp_all add: sub_topics_core)
  qed
  show "sub_topics s i = Some T \<Longrightarrow> ch \<in> T \<Longrightarrow>
      \<exists>s'. ps_remove_subscription (redis_pubsub_ops R) ch i s = (s', Inr ()) \<and>
           sub_topics s' = (sub_topics s)(i \<mapsto> T - {ch})"
  proof -
    assume T: "sub_topics s i = Some T" "ch \<in> T"
    then obtain a where a: "rp_subs s i = Some a" "T = fst ` set (as_topic_controls a)"
      by (auto simp: sub_topics_def)
    with T(2) obtain n where "map_of (as_topic_controls a) ch = Some n"
      by (metis map_of_eq_None_iff not_None_eq)
    with a show ?thesis
      by (simp add: redis_pubsub_ops_def redis_remove_subscription_def io_defs sub_topics_remove)
  qed
  show "(case sub_topics s i of None \<Rightarrow> True | Some T \<Rightarrow> ch \<notin> T) \<Longrightarrow>
      \<exists>s' e. ps_remove_subscription (redis_pubsub_ops R) ch i s = (s', Inl e) \<and> sub_topics s' = sub_topics s"
  proof (cases "rp_subs s i")
    case (Some a)
    moreover assume "case sub_topics s i of None \<Rightarrow> True | Some T \<Rightarrow> ch \<notin> T"
    ultimately have "map_of (as_topic_controls a) ch = None"
      by (simp add: sub_topics_def map_of_eq_None_iff)
    with Some show ?thesis by (simp add: redis_pubsub_ops_def redis_remove_subscription_def io_defs)
  qed (simp add: redis_pubsub_ops_def redis_remove_subscription_def io_defs)
  show "\<exists>s'. ps_unsubscribe (redis_pubsub_ops R) i s = (s', Inr ()) \<and> sub_topics s' = (sub_topics s)(i := None)"
    by (auto simp: redis_pubsub_ops_def redis_unsubscribe_def io_defs sub_topics_def fun_eq_iff
        split: option.splits)
qed (simp_all add: redis_pubsub_ops_def inv_subscribe inv_add inv_remove inv_unsubscribe)

section \<open>What holds in every state reached\<close>

text \<open>
  In every state that calls, messages, closed connections and dropped receivers can lead to,
  the gauge \<open>active_topic_listeners\<close> is the number of topic listeners that run, so it never
  drifts and never wraps below zero.
\<close>

theorem listener_gauge_is_exact:
  assumes "pubsub_reachable R s"
  shows "ps_active_topic_listeners (redis_pubsub_ops R) s =
     of_nat (length (filter (\<lambda>t. ls_alive t \<and> ls_is_topic t) (rp_tasks s)))"
  using inv_reachable [OF assms] by (simp add: redis_pubsub_ops_def pubsub_inv_def active_topic_tasks_def)

lemma not_subscribed_is_stopped:
  assumes "pubsub_inv s" and "rp_subs s i = None" and "t \<in> set (rp_tasks s)" and "ls_sub t = i"
  shows "ls_shutdown t"
proof -
  from assms(3) obtain n where "n < length (rp_tasks s)" "rp_tasks s ! n = t" by (auto simp: in_set_conv_nth)
  with assms show ?thesis by (auto simp: pubsub_inv_def owned_def)
qed

text \<open>
  No listener is orphaned: once a subscription was ended, every task that fed it, for its
  own channels or for a topic, has been told to stop, and none of another subscription has.
\<close>

theorem unsubscribe_stops_all_listeners:
  assumes "pubsub_reachable R s"
  shows "(\<forall>t\<in>set (rp_tasks (fst (redis_unsubscribe i s))). ls_sub t = i \<longrightarrow> ls_shutdown t) \<and>
     (\<forall>n<length (rp_tasks s). ls_sub (rp_tasks s ! n) \<noteq> i \<longrightarrow>
        rp_tasks (fst (redis_unsubscribe i s)) ! n = rp_tasks s ! n)"
proof
  have inv: "pubsub_inv s" using assms by (rule inv_reachable)
  have "rp_subs (fst (redis_unsubscribe i s)) i = None"
    by (simp add: redis_unsubscribe_def io_defs split: option.splits)
  from not_subscribed_is_stopped [OF inv_unsubscribe [OF inv] this]
  show "\<forall>t\<in>set (rp_tasks (fst (redis_unsubscribe i s))). ls_sub t = i \<longrightarrow> ls_shutdown t" by blast
  show "\<forall>n<length (rp_tasks s). ls_sub (rp_tasks s ! n) \<noteq> i \<longrightarrow>
        rp_tasks (fst (redis_unsubscribe i s)) ! n = rp_tasks s ! n"
  proof (cases "rp_subs s i")
    case (Some a)
    with inv have "entry_ok (rp_tasks s) i a" by (simp add: pubsub_inv_def)
    from entry_tasks_sub [OF this] Some show ?thesis
      by (auto simp: redis_unsubscribe_def io_defs nth_send_shutdown)
  qed (simp add: redis_unsubscribe_def io_defs)
qed

text \<open>
  C34: A topic listener whose Redis connection closed ends silently and stays registered: no other
  task that is not on its way out serves the topic for that subscription, yet subscribing to the
  topic again is refused as a duplicate.
\<close>

theorem dead_listener_blocks_topic:
  assumes "pubsub_reachable R s" and "rp_subs s i = Some entry"
    and "(ch, n) \<in> set (as_topic_controls entry)" and "ls_alive (rp_tasks s ! n)"
  shows "pubsub_step R s (listener_exit n s) \<and>
     (\<forall>t\<in>set (rp_tasks (listener_exit n s)).
        ls_alive t \<and> ls_is_topic t \<and> ls_sub t = i \<and> ch \<in> set (ls_channels t) \<longrightarrow> ls_shutdown t) \<and>
     redis_add_subscription R ch i (listener_exit n s) = (listener_exit n s,
        Inl (''subscription '' @ rc_uuid_text R i @ '' already subscribed to '' @ ch))"
proof (intro conjI ballI impI)
  let ?s = "listener_exit n s"
  from inv_reachable [OF assms(1)] have inv: "pubsub_inv s" .
  with assms(2) have "entry_ok (rp_tasks s) i entry" by (simp add: pubsub_inv_def)
  with assms(3) have "task_ok (rp_tasks s) i True n" by (force simp: entry_ok_def)
  then have n: "n < length (rp_tasks s)" "ls_sub (rp_tasks s ! n) = i" by (simp_all add: task_ok_def)
  from n(1) assms(4) show "pubsub_step R s ?s" by (rule pubsub_step.stream_end)
  have subs: "rp_subs ?s = rp_subs s" by (simp add: listener_exit_def)
  from subs assms(2,3) show "redis_add_subscription R ch i ?s = (?s,
      Inl (''subscription '' @ rc_uuid_text R i @ '' already subscribed to '' @ ch))"
    by (force simp: redis_add_subscription_def io_defs)
  fix t assume t: "t \<in> set (rp_tasks ?s)"
    "ls_alive t \<and> ls_is_topic t \<and> ls_sub t = i \<and> ch \<in> set (ls_channels t)"
  have inv': "pubsub_inv ?s" using inv n(1) assms(4) by (rule inv_exit)
  from t(1) obtain m where m: "m < length (rp_tasks ?s)" "rp_tasks ?s ! m = t" by (auto simp: in_set_conv_nth)
  show "ls_shutdown t"
  proof (rule ccontr)
    assume "\<not> ls_shutdown t"
    with inv' m have "owned (rp_subs ?s) m t" by (auto simp: pubsub_inv_def)
    with t(2) subs assms(2) have c: "(hd (ls_channels t), m) \<in> set (as_topic_controls entry)"
      by (simp add: owned_def)
    from inv' subs assms(2) have ok: "entry_ok (rp_tasks ?s) i entry" by (simp add: pubsub_inv_def)
    with c m have "ls_channels t = [hd (ls_channels t)]" by (force simp: entry_ok_def)
    with t(2) have "hd (ls_channels t) = ch" by (metis empty_iff empty_set set_ConsD)
    with c assms(3) ok have "m = n" by (auto simp: entry_ok_def dest: eq_key_imp_eq_value)
    with m n(1) have "\<not> ls_alive t" by (auto simp: listener_exit_def)
    with t(2) show False by simp
  qed
qed

text \<open>
  A subscription that Redis refuses leaves its entry behind: the caller gets an error and
  never learns the id, and the entry, which no task serves, is never removed.
\<close>

theorem refused_subscribe_leaks_entry:
  assumes "redis_subscribe R i chs s = (s', Inl e)"
  shows "rp_subs s' = (rp_subs s)(i \<mapsto> \<lparr>as_control = None, as_topic_controls = []\<rparr>) \<and>
     rp_tasks s' = rp_tasks s \<and> rp_mailboxes s' i = None"
  using assms
proof (cases rule: redis_subscribe_cases)
  case (failed t e')
  with same_coreD [OF failed(1)] show ?thesis by (simp add: drop_subscription_def register_def)
qed simp

section \<open>Witnesses\<close>

text \<open>A client that answers every command, and one that refuses every connection.\<close>

definition up_client :: "unit redis_pubsub_client" where
  "up_client = \<lparr>rc_get_async_pubsub = ret (), rc_subscribe = (\<lambda>_. ret ()), rc_publish = (\<lambda>_ _. ret ()),
     rc_uuid_text = (\<lambda>_. ''id'')\<rparr>"

definition down_client :: "unit redis_pubsub_client" where
  "down_client = up_client\<lparr>rc_get_async_pubsub := throw ''refused''\<rparr>"

definition demo_subscribed :: "unit redis_pubsub" where
  "demo_subscribed = fst (redis_add_subscription up_client ''news'' 1
     (fst (redis_subscribe up_client 1 [''me''] (redis_pubsub_new ()))))"

lemma demo_reachable: "pubsub_reachable up_client demo_subscribed"
proof -
  have "fresh_id 1 (redis_pubsub_new ())" by (simp add: fresh_id_def redis_pubsub_new_def)
  then show ?thesis
    unfolding demo_subscribed_def
    by (intro pubsub_reachable.step [OF _ call_add] pubsub_reachable.step [OF _ call_subscribe]
        pubsub_reachable.start)
qed

lemma demo_subscribed_eq:
  "demo_subscribed = \<lparr>rp_redis = (),
     rp_subs = [1 \<mapsto> \<lparr>as_control = Some 0, as_topic_controls = [(''news'', 1)]\<rparr>],
     rp_tasks = [\<lparr>ls_sub = 1, ls_channels = [''me''], ls_is_topic = False, ls_shutdown = False, ls_alive = True\<rparr>,
                 \<lparr>ls_sub = 1, ls_channels = [''news''], ls_is_topic = True, ls_shutdown = False, ls_alive = True\<rparr>],
     rp_mailboxes = [1 \<mapsto> []], rp_active = 1\<rparr>"
  by (simp add: demo_subscribed_def redis_add_subscription_def redis_subscribe_def io_defs
      open_pubsub_def on_redis_def up_client_def register_def spawn_main_def spawn_topic_def
      redis_pubsub_new_def fetch_add1_def)

theorem listener_gauge_is_exact_witness:
  "ps_active_topic_listeners (redis_pubsub_ops up_client) demo_subscribed = of_nat 1"
  using listener_gauge_is_exact [OF demo_reachable] by (simp add: demo_subscribed_eq)

theorem unsubscribe_stops_all_listeners_witness:
  "list_all ls_shutdown (rp_tasks (fst (redis_unsubscribe 1 demo_subscribed)))"
  using unsubscribe_stops_all_listeners [OF demo_reachable, of 1]
  by (simp add: list_all_iff) (auto simp: demo_subscribed_eq redis_unsubscribe_def io_defs entry_tasks_def
      send_shutdown_def)

theorem dead_listener_blocks_topic_witness:
  "\<exists>e. snd (redis_add_subscription up_client ''news'' 1 (listener_exit 1 demo_subscribed)) = Inl e"
  using dead_listener_blocks_topic [OF demo_reachable, of 1 _ "''news''" 1]
  by (simp add: demo_subscribed_eq)

theorem refused_subscribe_leaks_entry_witness:
  "rp_subs (fst (redis_subscribe down_client 1 [''me''] (redis_pubsub_new ()))) 1 \<noteq> None"
proof -
  obtain s' e where r: "redis_subscribe down_client 1 [''me''] (redis_pubsub_new ()) = (s', Inl e)"
    by (simp add: redis_subscribe_def io_defs open_pubsub_def on_redis_def down_client_def up_client_def)
  from refused_subscribe_leaks_entry [OF r] r show ?thesis by simp
qed

end
