(* ===== verification/Kv.thy ===== *)
theory Kv
  imports Prelude "HOL-Library.AList"
begin

text \<open>
  The key-value store of the realtime gateway (\<open>approach-2/src/kv\<close>): the trait \<open>KeyValue\<close> as a
  record of operations with its contract as a locale, and \<open>RedisKV\<close>, its implementation on the
  hashes of a Redis server. The hash commands are third-party code and a parameter.
\<close>

section \<open>The trait\<close>

text \<open>
  \<open>Arc<dyn KeyValue>\<close>: the operations of whatever implements the trait. A \<open>HashMap\<close> that
  \<open>load\<close> returns is the list of its entries in iteration order, which is not specified.
\<close>

record 'k kv_ops =
  kv_store :: "string \<Rightarrow> string \<Rightarrow> string \<Rightarrow> ('k, string, unit) io"
  kv_load :: "string \<Rightarrow> ('k, string, (string \<times> string) list) io"
  kv_delete :: "string \<Rightarrow> string list \<Rightarrow> ('k, string, unit) io"

text \<open>
  The contract: \<open>hash s key\<close> is what is stored under a key, field by field. An answered
  operation did exactly what it says and left the other keys alone; a failed one may have done
  part of it, but nothing else.
\<close>

locale key_value =
  fixes K :: "'k kv_ops"
    and hash :: "'k \<Rightarrow> string \<Rightarrow> string \<rightharpoonup> string"
    and inv :: "'k \<Rightarrow> bool"
  assumes store_inv: "inv s \<Longrightarrow> inv (fst (kv_store K key f v s))"
    and load_inv: "inv s \<Longrightarrow> inv (fst (kv_load K key s))"
    and delete_inv: "inv s \<Longrightarrow> inv (fst (kv_delete K key fs s))"
    and store_ok: "inv s \<Longrightarrow> kv_store K key f v s = (s', Inr ()) \<Longrightarrow>
          hash s' = (hash s)(key := (hash s key)(f \<mapsto> v))"
    and store_err: "inv s \<Longrightarrow> kv_store K key f v s = (s', Inl e) \<Longrightarrow>
          hash s' = hash s \<or> hash s' = (hash s)(key := (hash s key)(f \<mapsto> v))"
    and load_hash: "inv s \<Longrightarrow> hash (fst (kv_load K key s)) = hash s"
    and load_ok: "inv s \<Longrightarrow> kv_load K key s = (s', Inr es) \<Longrightarrow>
          distinct (map fst es) \<and> map_of es = hash s key"
    and delete_ok: "inv s \<Longrightarrow> kv_delete K key fs s = (s', Inr ()) \<Longrightarrow>
          hash s' = (hash s)(key := hash s key |` (- set fs))"
    and delete_other: "inv s \<Longrightarrow> kv_delete K key fs s = (s', r) \<Longrightarrow> key' \<noteq> key \<Longrightarrow>
          hash s' key' = hash s key'"
begin

lemma store_other:
  "inv s \<Longrightarrow> kv_store K key f v s = (s', r) \<Longrightarrow> key' \<noteq> key \<Longrightarrow> hash s' key' = hash s key'"
  using store_ok [of s key f v s'] store_err [of s key f v s'] by (cases r) auto

lemma load_after_store:
  assumes "inv s" and "kv_store K key f v s = (s1, Inr ())" and "kv_load K key s1 = (s2, Inr es)"
  shows "(f, v) \<in> set es \<and> map_of es = (hash s key)(f \<mapsto> v)"
proof -
  from store_inv [OF assms(1), of key f v] assms(2) have "inv s1" by simp
  from load_ok [OF this assms(3)] store_ok [OF assms(1,2)]
  have "map_of es = (hash s key)(f \<mapsto> v)" by simp
  then show ?thesis using map_of_SomeD [of es f v] by simp
qed

lemma load_after_delete:
  assumes "inv s" and "kv_delete K key fs s = (s1, Inr ())" and "kv_load K key s1 = (s2, Inr es)"
    and "f \<in> set fs"
  shows "f \<notin> fst ` set es"
proof -
  from delete_inv [OF assms(1), of key fs] assms(2) have "inv s1" by simp
  from load_ok [OF this assms(3)] delete_ok [OF assms(1,2)]
  have "map_of es = hash s key |` (- set fs)" by simp
  with assms(4) show ?thesis by (metis ComplD map_of_eq_None_iff restrict_out)
qed

end

section \<open>\<open>RedisKV\<close>\<close>

text \<open>The hash commands of the Redis client, each of which may fail.\<close>

record 'k redis_hashes =
  rh_hset :: "string \<Rightarrow> string \<Rightarrow> string \<Rightarrow> ('k, string, unit) io"
  rh_hgetall :: "string \<Rightarrow> ('k, string, (string \<times> string) list) io"
  rh_hdel :: "string \<Rightarrow> string \<Rightarrow> ('k, string, unit) io"

text \<open>\<open>context(..)\<close> puts its text in place of the error's.\<close>

definition redis_kv_store :: "'k redis_hashes \<Rightarrow> string \<Rightarrow> string \<Rightarrow> string \<Rightarrow> ('k, string, unit) io" where
  "redis_kv_store R key field v = io_map_err (\<lambda>_. ''redis hset failed'') (rh_hset R key field v)"

definition redis_kv_load :: "'k redis_hashes \<Rightarrow> string \<Rightarrow> ('k, string, (string \<times> string) list) io" where
  "redis_kv_load R key = io_map_err (\<lambda>_. ''redis hgetall failed'') (rh_hgetall R key)"

fun redis_kv_delete :: "'k redis_hashes \<Rightarrow> string \<Rightarrow> string list \<Rightarrow> ('k, string, unit) io" where
  "redis_kv_delete R key [] = ret ()"
| "redis_kv_delete R key (field # fields') =
     io_bind (io_map_err (\<lambda>_. ''redis hdel failed'') (rh_hdel R key field))
       (\<lambda>_. redis_kv_delete R key fields')"

definition redis_kv :: "'k redis_hashes \<Rightarrow> 'k kv_ops" where
  "redis_kv R = \<lparr>kv_store = redis_kv_store R, kv_load = redis_kv_load R, kv_delete = redis_kv_delete R\<rparr>"

text \<open>
  Documented behaviour of the commands: \<open>HSET\<close> sets one field, \<open>HGETALL\<close> returns each field
  once with its value, \<open>HDEL\<close> removes one field. A command whose reply is lost may or may not
  have been carried out.
\<close>

definition hashes_ok :: "'k redis_hashes \<Rightarrow> ('k \<Rightarrow> string \<Rightarrow> string \<rightharpoonup> string) \<Rightarrow> bool" where
  "hashes_ok R hash \<longleftrightarrow>
     (\<forall>key f v s. case rh_hset R key f v s of
        (s', Inr _) \<Rightarrow> hash s' = (hash s)(key := (hash s key)(f \<mapsto> v))
      | (s', Inl _) \<Rightarrow> hash s' = hash s \<or> hash s' = (hash s)(key := (hash s key)(f \<mapsto> v))) \<and>
     (\<forall>key s. case rh_hgetall R key s of
        (s', Inr es) \<Rightarrow> hash s' = hash s \<and> distinct (map fst es) \<and> map_of es = hash s key
      | (s', Inl _) \<Rightarrow> hash s' = hash s) \<and>
     (\<forall>key f s. case rh_hdel R key f s of
        (s', Inr _) \<Rightarrow> hash s' = (hash s)(key := (hash s key)(f := None))
      | (s', Inl _) \<Rightarrow> hash s' = hash s \<or> hash s' = (hash s)(key := (hash s key)(f := None)))"

lemma hashes_okD:
  assumes "hashes_ok R hash"
  shows "rh_hset R key f v s = (s', Inr u) \<Longrightarrow> hash s' = (hash s)(key := (hash s key)(f \<mapsto> v))"
    and "rh_hset R key f v s = (s', Inl e) \<Longrightarrow>
           hash s' = hash s \<or> hash s' = (hash s)(key := (hash s key)(f \<mapsto> v))"
    and "hash (fst (rh_hgetall R key s)) = hash s"
    and "rh_hgetall R key s = (s', Inr es) \<Longrightarrow> distinct (map fst es) \<and> map_of es = hash s key"
    and "rh_hdel R key f s = (s', Inr u) \<Longrightarrow> hash s' = (hash s)(key := (hash s key)(f := None))"
    and "rh_hdel R key f s = (s', Inl e) \<Longrightarrow>
           hash s' = hash s \<or> hash s' = (hash s)(key := (hash s key)(f := None))"
proof -
  note a = assms [unfolded hashes_ok_def]
  from a have 1: "case rh_hset R key f v s of
        (s', Inr _) \<Rightarrow> hash s' = (hash s)(key := (hash s key)(f \<mapsto> v))
      | (s', Inl _) \<Rightarrow> hash s' = hash s \<or> hash s' = (hash s)(key := (hash s key)(f \<mapsto> v))" by simp
  from a have 2: "case rh_hgetall R key s of
        (s', Inr es) \<Rightarrow> hash s' = hash s \<and> distinct (map fst es) \<and> map_of es = hash s key
      | (s', Inl _) \<Rightarrow> hash s' = hash s"
    by (elim conjE) (elim allE, assumption)
  from a have 3: "case rh_hdel R key f s of
        (s', Inr _) \<Rightarrow> hash s' = (hash s)(key := (hash s key)(f := None))
      | (s', Inl _) \<Rightarrow> hash s' = hash s \<or> hash s' = (hash s)(key := (hash s key)(f := None))" by simp
  from 1 show "rh_hset R key f v s = (s', Inr u) \<Longrightarrow> hash s' = (hash s)(key := (hash s key)(f \<mapsto> v))"
    and "rh_hset R key f v s = (s', Inl e) \<Longrightarrow>
           hash s' = hash s \<or> hash s' = (hash s)(key := (hash s key)(f \<mapsto> v))" by simp_all
  from 2 show "hash (fst (rh_hgetall R key s)) = hash s"
    and "rh_hgetall R key s = (s', Inr es) \<Longrightarrow> distinct (map fst es) \<and> map_of es = hash s key"
    by (simp_all split: prod.splits sum.splits)
  from 3 show "rh_hdel R key f s = (s', Inr u) \<Longrightarrow> hash s' = (hash s)(key := (hash s key)(f := None))"
    and "rh_hdel R key f s = (s', Inl e) \<Longrightarrow>
           hash s' = hash s \<or> hash s' = (hash s)(key := (hash s key)(f := None))" by simp_all
qed

lemma redis_kv_delete_hash:
  assumes "hashes_ok R hash" and "redis_kv_delete R key fs s = (s', r)"
  shows "(r = Inr () \<longrightarrow> hash s' = (hash s)(key := hash s key |` (- set fs))) \<and>
         (\<forall>key'. key' \<noteq> key \<longrightarrow> hash s' key' = hash s key')"
  using assms(2)
proof (induction fs arbitrary: s)
  case Nil
  then show ?case by (auto simp: ret_def)
next
  case (Cons f fs)
  obtain s1 x where d: "rh_hdel R key f s = (s1, x)" by (cases "rh_hdel R key f s")
  show ?case
  proof (cases x)
    case (Inl e)
    with d Cons.prems have s': "s' = s1" and r: "r = Inl ''redis hdel failed''"
      by (auto simp: io_bind_def io_map_err_def)
    from hashes_okD(6) [OF assms(1) d [unfolded Inl]] s' r show ?thesis by auto
  next
    case (Inr u)
    with d Cons.prems have "redis_kv_delete R key fs s1 = (s', r)"
      by (simp add: io_bind_def io_map_err_def)
    from Cons.IH [OF this] hashes_okD(5) [OF assms(1) d [unfolded Inr]]
    show ?thesis by (auto simp: restrict_map_def fun_eq_iff)
  qed
qed

text \<open>
  \<open>RedisKV\<close> keeps the contract on every server that behaves as documented: that the server does
  is the invariant of the interpretation.
\<close>

interpretation redis_kv: key_value "redis_kv R" hash "\<lambda>_. hashes_ok R hash"
  for R :: "'k redis_hashes" and hash :: "'k \<Rightarrow> string \<Rightarrow> string \<rightharpoonup> string"
proof unfold_locales
  fix s s' :: 'k and key f v e fs
  show "hashes_ok R hash \<Longrightarrow> hashes_ok R hash" "hashes_ok R hash \<Longrightarrow> hashes_ok R hash"
    "hashes_ok R hash \<Longrightarrow> hashes_ok R hash" by assumption+
  assume ok: "hashes_ok R hash"
  show "kv_store (redis_kv R) key f v s = (s', Inr ()) \<Longrightarrow>
      hash s' = (hash s)(key := (hash s key)(f \<mapsto> v))"
    using hashes_okD(1) [OF ok]
    by (auto simp: redis_kv_def redis_kv_store_def io_map_err_def map_sum_eq_Inr split: prod.splits)
  show "kv_store (redis_kv R) key f v s = (s', Inl e) \<Longrightarrow>
      hash s' = hash s \<or> hash s' = (hash s)(key := (hash s key)(f \<mapsto> v))"
    using hashes_okD(2) [OF ok, of key f v s]
    by (auto simp: redis_kv_def redis_kv_store_def io_map_err_def map_sum_eq_Inl split: prod.splits)
  show "hash (fst (kv_load (redis_kv R) key s)) = hash s"
    using hashes_okD(3) [OF ok, of key s]
    by (simp add: redis_kv_def redis_kv_load_def io_map_err_def case_prod_beta)
  show "kv_delete (redis_kv R) key fs s = (s', Inr ()) \<Longrightarrow> hash s' = (hash s)(key := hash s key |` (- set fs))"
    using redis_kv_delete_hash [OF ok, of key fs s s'] by (simp add: redis_kv_def)
next
  fix s s' :: 'k and key es
  assume ok: "hashes_ok R hash"
  show "kv_load (redis_kv R) key s = (s', Inr es) \<Longrightarrow> distinct (map fst es) \<and> map_of es = hash s key"
    using hashes_okD(4) [OF ok, of key s s' es]
    by (auto simp: redis_kv_def redis_kv_load_def io_map_err_def map_sum_eq_Inr split: prod.splits)
next
  fix s s' :: 'k and key fs r key'
  assume ok: "hashes_ok R hash"
  show "kv_delete (redis_kv R) key fs s = (s', r) \<Longrightarrow> key' \<noteq> key \<Longrightarrow> hash s' key' = hash s key'"
    using redis_kv_delete_hash [OF ok, of key fs s s'] by (simp add: redis_kv_def)
qed

section \<open>An in-memory server\<close>

text \<open>Hashes as a list of entries; it answers every command. The witnesses use it.\<close>

type_synonym hash_server = "(string \<times> string \<times> string) list"

definition server_hash :: "hash_server \<Rightarrow> string \<Rightarrow> (string \<times> string) list" where
  "server_hash s key = map snd (filter (\<lambda>(k, _). k = key) s)"

definition server_remove :: "string \<Rightarrow> string \<Rightarrow> hash_server \<Rightarrow> hash_server" where
  "server_remove key f s = filter (\<lambda>(k, f', _). \<not> (k = key \<and> f' = f)) s"

definition memory_hashes :: "hash_server redis_hashes" where
  "memory_hashes =
     \<lparr>rh_hset = (\<lambda>key f v s. (server_remove key f s @ [(key, f, v)], Inr ())),
      rh_hgetall = (\<lambda>key s. (s, Inr (AList.clearjunk (server_hash s key)))),
      rh_hdel = (\<lambda>key f s. (server_remove key f s, Inr ()))\<rparr>"

definition memory_hash :: "hash_server \<Rightarrow> string \<Rightarrow> string \<rightharpoonup> string" where
  "memory_hash s key = map_of (server_hash s key)"

lemma memory_hash_append:
  "memory_hash (s @ [(key, f, v)]) key' =
     (if key' = key \<and> memory_hash s key f = None then (memory_hash s key)(f \<mapsto> v) else memory_hash s key')"
  by (auto simp: memory_hash_def server_hash_def map_add_def fun_eq_iff split: option.splits)

lemma memory_hash_remove:
  "memory_hash (server_remove key f s) = (memory_hash s)(key := (memory_hash s key)(f := None))"
proof (rule ext)
  fix key'
  show "memory_hash (server_remove key f s) key' = ((memory_hash s)(key := (memory_hash s key)(f := None))) key'"
    by (induction s) (auto simp: memory_hash_def server_hash_def server_remove_def fun_eq_iff)
qed

lemma memory_hashes_ok: "hashes_ok memory_hashes memory_hash"
proof -
  have "memory_hash (server_remove key f s @ [(key, f, v)]) = (memory_hash s)(key := (memory_hash s key)(f \<mapsto> v))"
    for key f v s
    by (rule ext) (simp add: memory_hash_append memory_hash_remove)
  then show ?thesis
    by (simp add: hashes_ok_def memory_hashes_def memory_hash_remove distinct_clearjunk map_of_clearjunk
        memory_hash_def)
qed

end
