(* ===== verification/Config.thy ===== *)
theory Config
  imports Prelude
begin

text \<open>
  The configuration of the realtime gateway (\<open>approach-2/src/config.rs\<close>): its sections, how an
  \<open>[auth]\<close> section is read, and the validation at start-up.
\<close>

section \<open>Sections\<close>

record grpc_config =
  gc_address :: string
  gc_ping_interval_secs :: u64
  gc_ping_timeout_secs :: u64
  gc_enable_reflection :: bool

record keepalive_config =
  kc_ws_ping_interval_secs :: u64
  kc_ws_pong_timeout_secs :: u64
  kc_grpc_stream_idle_timeout_secs :: u64

record broker_config =
  bc_kind :: string
  bc_address :: string

record client_config =
  cc_header :: string
  cc_device_header :: string
  cc_enable_device_support :: bool
  cc_device_attribute_headers :: "string list"

record jwt_config =
  jwt_issuer :: string
  jwt_audience :: string
  jwt_clock_skew_secs :: u64
  jwt_hmac_secret :: "string option"
  jwt_jwks_url :: "string option"

record auth_config =
  auth_enabled :: bool
  auth_legacy_header_mode :: bool
  auth_tenant_claim :: string
  auth_legacy_tenant :: string
  auth_api_keys :: "string list"
  auth_jwt :: jwt_config

record app_config =
  app_service_name :: string
  app_grpc :: grpc_config
  app_keepalive :: keepalive_config
  app_http_address :: string
  app_broker :: broker_config
  app_client :: client_config
  app_auth :: auth_config

section \<open>Defaults\<close>

definition default_tenant_claim :: string where
  "default_tenant_claim = ''tenant_id''"

definition default_legacy_tenant :: string where
  "default_legacy_tenant = ''legacy''"

definition default_jwt_config :: jwt_config where
  "default_jwt_config = \<lparr>jwt_issuer = [], jwt_audience = [], jwt_clock_skew_secs = 30,
     jwt_hmac_secret = None, jwt_jwks_url = None\<rparr>"

definition default_auth_config :: auth_config where
  "default_auth_config = \<lparr>auth_enabled = True, auth_legacy_header_mode = True,
     auth_tenant_claim = default_tenant_claim, auth_legacy_tenant = default_legacy_tenant,
     auth_api_keys = [], auth_jwt = default_jwt_config\<rparr>"

text \<open>
  An \<open>[auth]\<close> section as written: every key may be missing. Reading it fills in the defaults.
\<close>

record auth_config_raw =
  raw_enabled :: "bool option"
  raw_legacy_header_mode :: "bool option"
  raw_tenant_claim :: "string option"
  raw_legacy_tenant :: "string option"
  raw_api_keys :: "string list option"
  raw_jwt :: "jwt_config option"

definition auth_config_of_raw :: "auth_config_raw \<Rightarrow> auth_config" where
  "auth_config_of_raw raw =
     \<lparr>auth_enabled = unwrap_or True (raw_enabled raw),
      auth_legacy_header_mode = unwrap_or True (raw_legacy_header_mode raw),
      auth_tenant_claim = unwrap_or default_tenant_claim (raw_tenant_claim raw),
      auth_legacy_tenant = unwrap_or default_legacy_tenant (raw_legacy_tenant raw),
      auth_api_keys = unwrap_or [] (raw_api_keys raw),
      auth_jwt = unwrap_or default_jwt_config (raw_jwt raw)\<rparr>"

definition empty_raw :: auth_config_raw where
  "empty_raw = \<lparr>raw_enabled = None, raw_legacy_header_mode = None, raw_tenant_claim = None,
     raw_legacy_tenant = None, raw_api_keys = None, raw_jwt = None\<rparr>"

lemma empty_section_is_default: "auth_config_of_raw empty_raw = default_auth_config"
  by (simp add: auth_config_of_raw_def empty_raw_def default_auth_config_def)

section \<open>Validation\<close>

definition validate :: "app_config \<Rightarrow> string + unit" where
  "validate cfg =
     (if auth_enabled (app_auth cfg) \<and> jwt_issuer (auth_jwt (app_auth cfg)) = []
      then Inl ''auth.jwt.issuer is required when auth is enabled''
      else if auth_enabled (app_auth cfg) \<and> jwt_audience (auth_jwt (app_auth cfg)) = []
      then Inl ''auth.jwt.audience is required when auth is enabled''
      else if auth_enabled (app_auth cfg) \<and> auth_tenant_claim (app_auth cfg) = []
      then Inl ''auth.tenant_claim must not be empty''
      else if auth_enabled (app_auth cfg) \<and> unwrap_or [] (jwt_hmac_secret (auth_jwt (app_auth cfg))) = []
      then Inl ''auth.jwt.hmac_secret is required in this build''
      else if gc_ping_interval_secs (app_grpc cfg) = 0
      then Inl ''grpc.ping_interval_secs must be greater than zero''
      else if gc_ping_timeout_secs (app_grpc cfg) = 0
      then Inl ''grpc.ping_timeout_secs must be greater than zero''
      else if kc_ws_ping_interval_secs (app_keepalive cfg) = 0
      then Inl ''keepalive.ws_ping_interval_secs must be greater than zero''
      else if kc_ws_pong_timeout_secs (app_keepalive cfg) = 0
      then Inl ''keepalive.ws_pong_timeout_secs must be greater than zero''
      else if kc_grpc_stream_idle_timeout_secs (app_keepalive cfg) = 0
      then Inl ''keepalive.grpc_stream_idle_timeout_secs must be greater than zero''
      else Inr ())"

text \<open>\<open>read_file\<close> stands for the \<open>config\<close> crate: it finds, parses and deserializes the file.\<close>

definition load :: "(string \<Rightarrow> string + app_config) \<Rightarrow> string \<Rightarrow> string + app_config" where
  "load read_file path =
     res_bind (read_file path) (\<lambda>cfg. res_bind (validate cfg) (\<lambda>_. Inr cfg))"

lemma loadD: "load read_file path = Inr cfg \<Longrightarrow> read_file path = Inr cfg \<and> validate cfg = Inr ()"
  by (auto simp: load_def res_bind_eq_Inr)

lemma validated_secret:
  "validate cfg = Inr () \<Longrightarrow> auth_enabled (app_auth cfg) \<Longrightarrow>
     \<exists>secret. jwt_hmac_secret (auth_jwt (app_auth cfg)) = Some secret \<and> secret \<noteq> []"
  by (cases "jwt_hmac_secret (auth_jwt (app_auth cfg))") (auto simp: validate_def split: if_splits)

text \<open>The configuration file of the repository, \<open>config/propeller.toml\<close>.\<close>

definition shipped_keepalive :: keepalive_config where
  "shipped_keepalive = \<lparr>kc_ws_ping_interval_secs = 30, kc_ws_pong_timeout_secs = 10,
     kc_grpc_stream_idle_timeout_secs = 40\<rparr>"

definition shipped_client :: client_config where
  "shipped_client = \<lparr>cc_header = ''x-client-id'', cc_device_header = ''x-device-id'',
     cc_enable_device_support = True, cc_device_attribute_headers = [''x-os'', ''x-app-version'']\<rparr>"

definition shipped_config :: app_config where
  "shipped_config =
     \<lparr>app_service_name = ''propeller'',
      app_grpc = \<lparr>gc_address = ''0.0.0.0:50051'', gc_ping_interval_secs = 30,
        gc_ping_timeout_secs = 10, gc_enable_reflection = True\<rparr>,
      app_keepalive = shipped_keepalive,
      app_http_address = ''0.0.0.0:8080'',
      app_broker = \<lparr>bc_kind = ''redis'', bc_address = ''redis://127.0.0.1:6379''\<rparr>,
      app_client = shipped_client,
      app_auth = \<lparr>auth_enabled = True, auth_legacy_header_mode = True,
        auth_tenant_claim = ''tenant_id'', auth_legacy_tenant = ''legacy'',
        auth_api_keys = [''dev-publisher-key''],
        auth_jwt = \<lparr>jwt_issuer = ''propeller-dev'', jwt_audience = ''propeller-clients'',
          jwt_clock_skew_secs = 30, jwt_hmac_secret = Some ''change-me-dev-secret'',
          jwt_jwks_url = None\<rparr>\<rparr>\<rparr>"

lemma shipped_config_valid: "validate shipped_config = Inr ()"
  by (simp add: validate_def shipped_config_def shipped_keepalive_def)

text \<open>
  The service starts only with a configuration in which every keepalive and ping period is
  positive and, if authentication is on, issuer, audience, tenant claim and HMAC secret are all
  present and non-empty; and every such configuration that can be read is accepted.
\<close>

theorem load_accepts_exactly_valid:
  "load read_file path = Inr cfg \<longleftrightarrow>
     read_file path = Inr cfg \<and>
     0 < gc_ping_interval_secs (app_grpc cfg) \<and> 0 < gc_ping_timeout_secs (app_grpc cfg) \<and>
     0 < kc_ws_ping_interval_secs (app_keepalive cfg) \<and>
     0 < kc_ws_pong_timeout_secs (app_keepalive cfg) \<and>
     0 < kc_grpc_stream_idle_timeout_secs (app_keepalive cfg) \<and>
     (if auth_enabled (app_auth cfg)
      then jwt_issuer (auth_jwt (app_auth cfg)) \<noteq> [] \<and> jwt_audience (auth_jwt (app_auth cfg)) \<noteq> [] \<and>
        auth_tenant_claim (app_auth cfg) \<noteq> [] \<and>
        (case jwt_hmac_secret (auth_jwt (app_auth cfg)) of None \<Rightarrow> False | Some s \<Rightarrow> s \<noteq> [])
      else True)"
  by (auto simp: load_def res_bind_eq_Inr validate_def word_neq_0_conv split: if_splits option.splits)

text \<open>
  Authentication is off only if the file says so: a section that does not set \<open>enabled\<close> is
  read as enabled, and one that leaves out the JWT settings as well is refused at start-up, so
  no service runs open by omission.
\<close>

theorem auth_is_on_unless_disabled:
  assumes "raw_enabled raw \<noteq> Some False" and "app_auth cfg = auth_config_of_raw raw"
  shows "auth_enabled (app_auth cfg) \<and> (raw_jwt raw = None \<longrightarrow> validate cfg \<noteq> Inr ())"
proof -
  from assms have "auth_enabled (app_auth cfg)"
    by (cases "raw_enabled raw") (auto simp: auth_config_of_raw_def)
  moreover have "validate cfg \<noteq> Inr ()" if "raw_jwt raw = None"
    using assms(2) that calculation
    by (simp add: validate_def auth_config_of_raw_def default_jwt_config_def)
  ultimately show ?thesis by blast
qed

theorem auth_is_on_unless_disabled_witness:
  "validate (shipped_config\<lparr>app_auth := auth_config_of_raw empty_raw\<rparr>) \<noteq> Inr ()"
  using auth_is_on_unless_disabled [of empty_raw "shipped_config\<lparr>app_auth := auth_config_of_raw empty_raw\<rparr>"]
  by (simp add: empty_raw_def)

end
