(* ===== verification/Propeller_Error.thy ===== *)
theory Propeller_Error
  imports Prelude
begin

text \<open>
  The error type of the realtime gateway (\<open>approach-2/src/error.rs\<close>): its text and the gRPC
  status it becomes.
\<close>

datatype propeller_error =
    Unauthenticated string
  | PermissionDenied string
  | InvalidArgument string
  | NotFound string
  | FailedPrecondition string
  | Internal string
  | BrokerError string

text \<open>\<open>Display\<close>.\<close>

fun error_text :: "propeller_error \<Rightarrow> string" where
  "error_text (Unauthenticated m) = ''unauthenticated: '' @ m"
| "error_text (PermissionDenied m) = ''permission denied: '' @ m"
| "error_text (InvalidArgument m) = ''invalid argument: '' @ m"
| "error_text (NotFound m) = ''not found: '' @ m"
| "error_text (FailedPrecondition m) = ''failed precondition: '' @ m"
| "error_text (Internal m) = ''internal: '' @ m"
| "error_text (BrokerError m) = ''broker error: '' @ m"

text \<open>The gRPC status codes the service answers with.\<close>

datatype grpc_code =
    CodeUnauthenticated
  | CodePermissionDenied
  | CodeInvalidArgument
  | CodeNotFound
  | CodeFailedPrecondition
  | CodeInternal
  | CodeDeadlineExceeded

type_synonym status = "grpc_code \<times> string"

fun status_of :: "propeller_error \<Rightarrow> status" where
  "status_of (Unauthenticated m) = (CodeUnauthenticated, m)"
| "status_of (PermissionDenied m) = (CodePermissionDenied, m)"
| "status_of (InvalidArgument m) = (CodeInvalidArgument, m)"
| "status_of (NotFound m) = (CodeNotFound, m)"
| "status_of (FailedPrecondition m) = (CodeFailedPrecondition, m)"
| "status_of (Internal m) = (CodeInternal, m)"
| "status_of (BrokerError m) = (CodeInternal, m)"

end
