(* ===== verification/Auth.thy ===== *)
theory Auth
  imports Config Propeller_Error
begin

unbundle bit_operations_syntax

text \<open>
  Authentication of the realtime gateway (\<open>approach-2/src/auth/mod.rs\<close>): HS256 tokens with
  their HMAC, the claims and their validation, the legacy header identity, publisher API keys,
  and the names of the channels that tenants, clients, devices and topics have.

  SHA-256 (crate \<open>sha2\<close>), base64 (crate \<open>base64\<close>) and JSON (crate \<open>serde_json\<close>) are
  third-party code and parameters of the model, collected in \<open>auth_lib\<close>. What the derived
  \<open>Deserialize\<close> of \<open>JwtClaims\<close> makes of a parsed object is written out. Arithmetic on
  \<open>usize\<close> wraps around, as in the release build.
\<close>

section \<open>JSON values and the parameters\<close>

text \<open>A number is its printed text and, where it is an integer that fits, its value as \<open>u64\<close>.\<close>

datatype json =
    JNull
  | JBool bool
  | JNumber string "u64 option"
  | JString string
  | JArray "json list"
  | JObject "(string \<times> json) list"

text \<open>
  \<open>al_json_object\<close> gives the members of the object that the bytes hold, in order, and
  \<open>None\<close> when they are not one JSON object.
\<close>

record auth_lib =
  al_sha256 :: "bytes \<Rightarrow> bytes"
  al_b64_decode :: "string \<Rightarrow> bytes option"
  al_json_object :: "bytes \<Rightarrow> (string \<times> json) list option"

text \<open>
  A header or metadata map, as the code reads it: \<open>get(name).and_then(|v| v.to_str().ok())\<close>.
\<close>

type_synonym headers = "string \<Rightarrow> string option"

record auth_context =
  ac_subject :: string
  ac_tenant_id :: string
  ac_client_id :: string
  ac_scopes :: "string list"

section \<open>Comparison and HMAC\<close>

definition constant_time_eq :: "bytes \<Rightarrow> bytes \<Rightarrow> bool" where
  "constant_time_eq lhs rhs =
     (if length lhs \<noteq> length rhs then False
      else fold (\<lambda>(a, b) diff. diff OR (a XOR b)) (zip lhs rhs) (0 :: u8) = 0)"

lemma or_fold_zero:
  "fold (\<lambda>(a, b) diff. diff OR (a XOR b)) ps (d :: 'a::len word) = 0 \<longleftrightarrow>
     d = 0 \<and> (\<forall>(a, b)\<in>set ps. a = b)"
proof (induction ps arbitrary: d)
  case Nil
  then show ?case by simp
next
  case (Cons p ps)
  have "d OR (a XOR b) = 0 \<longleftrightarrow> d = 0 \<and> a = b" for a b :: "'a word"
    by (auto simp: or_eq_0_iff bit_eq_iff bit_simps)
  with Cons show ?case by (cases p) auto
qed

lemma constant_time_eq_iff: "constant_time_eq lhs rhs \<longleftrightarrow> lhs = rhs"
proof (cases "length lhs = length rhs")
  case True
  then have "(\<forall>(a, b)\<in>set (zip lhs rhs). a = b) \<longleftrightarrow> lhs = rhs"
    by (induction lhs rhs rule: list_induct2) auto
  with True show ?thesis by (simp add: constant_time_eq_def or_fold_zero)
qed (auto simp: constant_time_eq_def)

definition block_size :: nat where
  "block_size = 64"

text \<open>\<open>copy_front block xs\<close> is \<open>block[..xs.len()].copy_from_slice(xs)\<close>.\<close>

definition copy_front :: "bytes \<Rightarrow> bytes \<Rightarrow> bytes" where
  "copy_front block xs = xs @ drop (length xs) block"

definition key_block :: "auth_lib \<Rightarrow> bytes \<Rightarrow> bytes" where
  "key_block lib key =
     (if length key > block_size then copy_front (replicate block_size 0) (al_sha256 lib key)
      else copy_front (replicate block_size 0) key)"

text \<open>The loop that mixes the key into a pad, one index at a time.\<close>

definition xor_pad :: "bytes \<Rightarrow> bytes \<Rightarrow> bytes" where
  "xor_pad pad block = fold (\<lambda>i p. p[i := p ! i XOR block ! i]) [0..<block_size] pad"

definition hmac_sha256 :: "auth_lib \<Rightarrow> bytes \<Rightarrow> bytes \<Rightarrow> bytes" where
  "hmac_sha256 lib key message =
     (let block = key_block lib key;
          ipad = xor_pad (replicate block_size 0x36) block;
          opad = xor_pad (replicate block_size 0x5c) block
      in al_sha256 lib (opad @ al_sha256 lib (ipad @ message)))"

text \<open>RFC 2104: the key, hashed if it is longer than a block, is padded with zeros to a block.\<close>

definition rfc2104 :: "(bytes \<Rightarrow> bytes) \<Rightarrow> nat \<Rightarrow> bytes \<Rightarrow> bytes \<Rightarrow> bytes" where
  "rfc2104 H B K text_bytes =
     (let K0 = (if length K \<le> B then K else H K);
          Kp = K0 @ replicate (B - length K0) 0
      in H (map (\<lambda>x. x XOR 0x5c) Kp @ H (map (\<lambda>x. x XOR 0x36) Kp @ text_bytes)))"

lemma xor_pad_step:
  "n \<le> length p \<Longrightarrow>
     fold (\<lambda>i p. p[i := p ! i XOR b ! i]) [0..<n] p =
       map (\<lambda>i. p ! i XOR b ! i) [0..<n] @ drop n p"
proof (induction n)
  case (Suc n)
  then have "fold (\<lambda>i p. p[i := p ! i XOR b ! i]) [0..<n] p =
      map (\<lambda>i. p ! i XOR b ! i) [0..<n] @ drop n p" by simp
  moreover have "drop n p = p ! n # drop (Suc n) p"
    using Suc.prems by (simp add: Cons_nth_drop_Suc)
  ultimately show ?case by (simp add: list_update_append nth_append)
qed simp

lemma xor_pad_eq:
  assumes "length b = block_size"
  shows "xor_pad (replicate block_size c) b = map (\<lambda>x. x XOR c) b"
proof -
  have "xor_pad (replicate block_size c) b = map (\<lambda>i. c XOR b ! i) [0..<block_size]"
    by (simp add: xor_pad_def xor_pad_step)
  also have "\<dots> = map (\<lambda>x. x XOR c) (map (\<lambda>i. b ! i) [0..<length b])"
    using assms by (simp add: xor.commute)
  finally show ?thesis by (simp add: map_nth)
qed

lemma length_key_block: "(\<And>m. length (al_sha256 lib m) = 32) \<Longrightarrow> length (key_block lib key) = block_size"
  by (simp add: key_block_def copy_front_def block_size_def)

text \<open>
  C37: The hand-written \<open>hmac_sha256\<close> is HMAC as RFC 2104 defines it, over SHA-256 with its
  64-byte blocks, for every key length: keys longer than a block are hashed, shorter ones padded.
\<close>

theorem hmac_sha256_is_rfc2104:
  assumes "\<And>m. length (al_sha256 lib m) = 32"
  shows "hmac_sha256 lib key message = rfc2104 (al_sha256 lib) 64 key message"
proof -
  have "key_block lib key =
      (let K0 = (if length key \<le> 64 then key else al_sha256 lib key) in K0 @ replicate (64 - length K0) 0)"
    by (auto simp: key_block_def copy_front_def block_size_def Let_def)
  then show ?thesis
    using xor_pad_eq [OF length_key_block [OF assms, of key]]
    by (simp add: hmac_sha256_def rfc2104_def Let_def)
qed

text \<open>A stand-in for the third-party functions, to evaluate the model on: 32 bytes of digest.\<close>

definition toy_lib :: auth_lib where
  "toy_lib = \<lparr>al_sha256 = (\<lambda>m. replicate 31 0 @ [sum_list m]),
     al_b64_decode = (\<lambda>s. Some (as_bytes s)),
     al_json_object = (\<lambda>_. Some [(''iss'', JString ''issuer''), (''aud'', JString ''audience''),
        (''exp'', JNumber ''4102444800'' (Some 4102444800)), (''sub'', JString ''user_1''),
        (''tenant_id'', JString ''tenant_1'')])\<rparr>"

theorem hmac_sha256_is_rfc2104_witness:
  "hmac_sha256 toy_lib [1, 2] [3] = rfc2104 (al_sha256 toy_lib) 64 [1, 2] [3]"
  by (rule hmac_sha256_is_rfc2104) (simp add: toy_lib_def)

section \<open>Claims\<close>

record jwt_claims =
  jc_sub :: "string option"
  jc_exp :: "usize option"
  jc_nbf :: "usize option"
  jc_iss :: "string option"
  jc_aud :: "json option"
  jc_client_id :: "string option"
  jc_scope :: "string option"
  jc_scopes :: "string list option"
  jc_extra :: "string \<Rightarrow> json option"

text \<open>
  How a member of the object becomes a value of the field's type: \<open>null\<close> is \<open>None\<close> for
  every optional field, a value of another type is an error (the outer \<open>None\<close>).
\<close>

fun opt_string :: "json \<Rightarrow> string option option" where
  "opt_string JNull = Some None"
| "opt_string (JString v) = Some (Some v)"
| "opt_string _ = None"

fun opt_usize :: "json \<Rightarrow> usize option option" where
  "opt_usize JNull = Some None"
| "opt_usize (JNumber _ (Some n)) = Some (Some n)"
| "opt_usize _ = None"

fun opt_value :: "json \<Rightarrow> json option option" where
  "opt_value JNull = Some None"
| "opt_value v = Some (Some v)"

fun string_list :: "json list \<Rightarrow> string list option" where
  "string_list [] = Some []"
| "string_list (JString v # vs) = map_option (\<lambda>r. v # r) (string_list vs)"
| "string_list (_ # vs) = None"

fun opt_strings :: "json \<Rightarrow> string list option option" where
  "opt_strings JNull = Some None"
| "opt_strings (JArray vs) = map_option Some (string_list vs)"
| "opt_strings _ = None"

definition known_claims :: "string list" where
  "known_claims = [''sub'', ''exp'', ''nbf'', ''iss'', ''aud'', ''client_id'', ''scope'', ''scopes'']"

text \<open>A field that occurs twice is an error, one that is missing is \<open>None\<close>.\<close>

definition claim_field :: "string \<Rightarrow> (json \<Rightarrow> 'a option option) \<Rightarrow> (string \<times> json) list \<Rightarrow> 'a option option" where
  "claim_field name conv obj =
     (case filter (\<lambda>m. fst m = name) obj of
        [] \<Rightarrow> Some None
      | [m] \<Rightarrow> conv (snd m)
      | _ \<Rightarrow> None)"

text \<open>
  The flattened map takes every member that is not a field; of two with one name the later stays.
\<close>

definition extra_claims :: "(string \<times> json) list \<Rightarrow> string \<Rightarrow> json option" where
  "extra_claims obj = map_of (rev (filter (\<lambda>m. fst m \<notin> set known_claims) obj))"

definition claims_of_object :: "(string \<times> json) list \<Rightarrow> jwt_claims option" where
  "claims_of_object obj =
     Option.bind (claim_field ''sub'' opt_string obj) (\<lambda>v_sub.
     Option.bind (claim_field ''exp'' opt_usize obj) (\<lambda>v_exp.
     Option.bind (claim_field ''nbf'' opt_usize obj) (\<lambda>v_nbf.
     Option.bind (claim_field ''iss'' opt_string obj) (\<lambda>v_iss.
     Option.bind (claim_field ''aud'' opt_value obj) (\<lambda>v_aud.
     Option.bind (claim_field ''client_id'' opt_string obj) (\<lambda>v_client_id.
     Option.bind (claim_field ''scope'' opt_string obj) (\<lambda>v_scope.
     Option.bind (claim_field ''scopes'' opt_strings obj) (\<lambda>v_scopes.
     Some \<lparr>jc_sub = v_sub, jc_exp = v_exp, jc_nbf = v_nbf, jc_iss = v_iss, jc_aud = v_aud,
        jc_client_id = v_client_id, jc_scope = v_scope, jc_scopes = v_scopes,
        jc_extra = extra_claims obj\<rparr>))))))))"

lemma extra_claims_known: "name \<in> set known_claims \<Longrightarrow> extra_claims obj name = None"
  by (auto simp: extra_claims_def map_of_eq_None_iff)

lemma claims_of_object_extra: "claims_of_object obj = Some c \<Longrightarrow> jc_extra c = extra_claims obj"
  by (auto simp: claims_of_object_def bind_eq_Some_conv)

fun value_to_string :: "json \<Rightarrow> string option" where
  "value_to_string (JString v) = Some v"
| "value_to_string (JNumber v _) = Some v"
| "value_to_string _ = None"

fun aud_matches :: "json option \<Rightarrow> string \<Rightarrow> bool" where
  "aud_matches (Some (JString single)) expected \<longleftrightarrow> single = expected"
| "aud_matches (Some (JArray vs)) expected \<longleftrightarrow> list_ex (\<lambda>v. v = JString expected) vs"
| "aud_matches _ expected \<longleftrightarrow> False"

definition validate_claims :: "jwt_config \<Rightarrow> u64 option \<Rightarrow> jwt_claims \<Rightarrow> propeller_error + unit" where
  "validate_claims jwt clock claims =
     (if jc_iss claims \<noteq> Some (jwt_issuer jwt) then Inl (Unauthenticated ''invalid jwt issuer'')
      else if \<not> aud_matches (jc_aud claims) (jwt_audience jwt)
      then Inl (Unauthenticated ''invalid jwt audience'')
      else res_bind (ok_or (Internal ''system time error'') clock) (\<lambda>now.
        let leeway = jwt_clock_skew_secs jwt in
        if (case jc_nbf claims of Some nbf \<Rightarrow> now + leeway < nbf | None \<Rightarrow> False)
        then Inl (Unauthenticated ''jwt not active yet'')
        else case jc_exp claims of
          Some exp \<Rightarrow>
            if now > exp + leeway then Inl (Unauthenticated ''jwt expired'') else Inr ()
        | None \<Rightarrow> Inl (Unauthenticated ''jwt exp missing'')))"

lemma validate_claims_Inr:
  "validate_claims jwt clock claims = Inr () \<longleftrightarrow>
     jc_iss claims = Some (jwt_issuer jwt) \<and> aud_matches (jc_aud claims) (jwt_audience jwt) \<and>
     (\<exists>now exp. clock = Some now \<and> jc_exp claims = Some exp \<and>
        (\<forall>nbf. jc_nbf claims = Some nbf \<longrightarrow> nbf \<le> now + jwt_clock_skew_secs jwt) \<and>
        now \<le> exp + jwt_clock_skew_secs jwt)"
  by (cases clock; cases "jc_exp claims"; cases "jc_nbf claims")
    (auto simp: validate_claims_def Let_def not_less)

text \<open>
  As long as no sum reaches \<open>2 ^ 64\<close>, the validity window is the intended one on the
  integers: a token with the right issuer and audience is valid exactly from \<open>nbf - skew\<close> (or
  always, without \<open>nbf\<close>) to \<open>exp + skew\<close>, both ends included.
\<close>

theorem validity_window:
  assumes "jc_iss claims = Some (jwt_issuer jwt)" and "aud_matches (jc_aud claims) (jwt_audience jwt)"
    and "jc_exp claims = Some exp"
    and "unat now + unat (jwt_clock_skew_secs jwt) < 2 ^ 64"
    and "unat exp + unat (jwt_clock_skew_secs jwt) < 2 ^ 64"
  shows "validate_claims jwt (Some now) claims = Inr () \<longleftrightarrow>
     (case jc_nbf claims of None \<Rightarrow> True
      | Some nbf \<Rightarrow> unat nbf \<le> unat now + unat (jwt_clock_skew_secs jwt)) \<and>
     unat now \<le> unat exp + unat (jwt_clock_skew_secs jwt)"
proof -
  have "unat (now + jwt_clock_skew_secs jwt) = unat now + unat (jwt_clock_skew_secs jwt)"
    and "unat (exp + jwt_clock_skew_secs jwt) = unat exp + unat (jwt_clock_skew_secs jwt)"
    using assms(4,5) by (simp_all add: unat_word_ariths)
  then show ?thesis
    using assms(1-3) by (auto simp: validate_claims_Inr word_le_nat_alt split: option.splits)
qed

text \<open>
  C40: A token whose expiry lies within the clock skew of the largest integer, as one written to
  never expire, is refused as long as the clock reads at least the skew: \<open>exp + leeway\<close> wraps
  around and the token counts as expired.
\<close>

theorem overflowing_expiry_is_refused:
  assumes "jc_exp claims = Some exp" and "2 ^ 64 \<le> unat exp + unat (jwt_clock_skew_secs jwt)"
    and "jwt_clock_skew_secs jwt \<le> now"
  shows "validate_claims jwt (Some now) claims \<noteq> Inr ()"
proof -
  have "unat exp < 2 ^ 64" "unat (jwt_clock_skew_secs jwt) < 2 ^ 64"
    using unsigned_less [of exp] unsigned_less [of "jwt_clock_skew_secs jwt"] by simp_all
  with assms(2) have "unat (exp + jwt_clock_skew_secs jwt) = unat exp + unat (jwt_clock_skew_secs jwt) - 2 ^ 64"
    by (simp add: unat_word_ariths mod_if)
  with \<open>unat exp < 2 ^ 64\<close> assms(2) have "exp + jwt_clock_skew_secs jwt < jwt_clock_skew_secs jwt"
    by (simp add: word_less_nat_alt)
  from less_le_trans [OF this assms(3)] have "exp + jwt_clock_skew_secs jwt < now" .
  with assms(1) show ?thesis by (auto simp: validate_claims_Inr)
qed

definition never_expiring :: jwt_claims where
  "never_expiring = \<lparr>jc_sub = Some ''user_1'', jc_exp = Some 18446744073709551615, jc_nbf = None,
     jc_iss = Some ''propeller-dev'', jc_aud = Some (JString ''propeller-clients''),
     jc_client_id = None, jc_scope = None, jc_scopes = None,
     jc_extra = [''tenant_id'' \<mapsto> JString ''tenant_1'']\<rparr>"

theorem overflowing_expiry_is_refused_witness:
  "validate_claims (auth_jwt (app_auth shipped_config)) (Some 1700000000) never_expiring \<noteq> Inr ()"
  by (rule overflowing_expiry_is_refused [where exp = 18446744073709551615])
    (simp_all add: never_expiring_def shipped_config_def)

theorem validity_window_witness:
  "validate_claims (auth_jwt (app_auth shipped_config)) (Some 1700000000)
     (never_expiring\<lparr>jc_exp := Some 1699999970\<rparr>) = Inr ()"
  using validity_window [of "never_expiring\<lparr>jc_exp := Some 1699999970\<rparr>"
      "auth_jwt (app_auth shipped_config)" 1699999970 1700000000]
  by (simp add: never_expiring_def shipped_config_def)

section \<open>Scopes\<close>

text \<open>
  \<open>split_whitespace\<close> cuts at the characters with the Unicode property White\_Space; these are
  their UTF-8 encodings.
\<close>

definition whitespace_codes :: "nat list list" where
  "whitespace_codes =
     [[9], [10], [11], [12], [13], [32], [0xC2, 0x85], [0xC2, 0xA0], [0xE1, 0x9A, 0x80]] @
     map (\<lambda>b. [0xE2, 0x80, b]) ([0x80..<0x8B] @ [0xA8, 0xA9, 0xAF]) @
     [[0xE2, 0x81, 0x9F], [0xE3, 0x80, 0x80]]"

definition whitespace_len :: "string \<Rightarrow> nat" where
  "whitespace_len s =
     (case find (\<lambda>w. take (length w) (map of_char s) = w) whitespace_codes of
        None \<Rightarrow> 0
      | Some w \<Rightarrow> length w)"

definition flush_word :: "string \<Rightarrow> string list" where
  "flush_word cur = (if cur = [] then [] else [cur])"

function split_whitespace_from :: "string \<Rightarrow> string \<Rightarrow> string list" where
  "split_whitespace_from cur [] = flush_word cur"
| "split_whitespace_from cur (c # cs) =
     (case whitespace_len (c # cs) of
        0 \<Rightarrow> split_whitespace_from (cur @ [c]) cs
      | Suc n \<Rightarrow> flush_word cur @ split_whitespace_from [] (drop n cs))"
  by pat_completeness auto
termination by (relation "measure (\<lambda>(cur, s). length s)") auto

definition split_whitespace :: "string \<Rightarrow> string list" where
  "split_whitespace s = split_whitespace_from [] s"

text \<open>The scopes come out of a hash set: each once, in an order that is not specified.\<close>

definition parse_scopes :: "string option \<Rightarrow> string list option \<Rightarrow> string list" where
  "parse_scopes scope scopes =
     remdups ((case scope of Some scope_val \<Rightarrow> split_whitespace scope_val | None \<Rightarrow> []) @
              (case scopes of Some scopes_val \<Rightarrow> scopes_val | None \<Rightarrow> []))"

lemma parse_scopes_distinct: "distinct (parse_scopes scope scopes)"
  by (simp add: parse_scopes_def)

section \<open>Tokens\<close>

definition decode_and_validate_hs256 ::
    "auth_lib \<Rightarrow> auth_config \<Rightarrow> u64 option \<Rightarrow> string \<Rightarrow> propeller_error + jwt_claims" where
  "decode_and_validate_hs256 lib cfg clock token =
     res_bind (ok_or (Internal ''jwt secret not configured'') (jwt_hmac_secret (auth_jwt cfg))) (\<lambda>secret.
     case split_on (CHR ''.'') token of
       [header_part, payload_part, sig_part] \<Rightarrow>
         let signing_input = header_part @ ''.'' @ payload_part;
             expected_sig = hmac_sha256 lib (as_bytes secret) (as_bytes signing_input)
         in res_bind (ok_or (Unauthenticated ''invalid jwt signature encoding'') (al_b64_decode lib sig_part)) (\<lambda>actual_sig.
            if \<not> constant_time_eq expected_sig actual_sig
            then Inl (Unauthenticated ''jwt signature verification failed'')
            else
              res_bind (ok_or (Unauthenticated ''invalid jwt payload'') (al_b64_decode lib payload_part)) (\<lambda>payload_bytes.
              res_bind (ok_or (Unauthenticated ''invalid jwt claims'')
                 (Option.bind (al_json_object lib payload_bytes) claims_of_object)) (\<lambda>claims.
              res_bind (validate_claims (auth_jwt cfg) clock claims) (\<lambda>_. Inr claims))))
     | _ \<Rightarrow> Inl (Unauthenticated ''invalid jwt format''))"

definition decode_jwt ::
    "auth_lib \<Rightarrow> auth_config \<Rightarrow> u64 option \<Rightarrow> string \<Rightarrow> propeller_error + auth_context" where
  "decode_jwt lib cfg clock token =
     res_bind (decode_and_validate_hs256 lib cfg clock token) (\<lambda>claims.
     res_bind (ok_or (Unauthenticated (''missing tenant claim: '' @ auth_tenant_claim cfg))
        (Option.bind (jc_extra claims (auth_tenant_claim cfg)) value_to_string)) (\<lambda>tenant_id.
     res_bind (ok_or (Unauthenticated ''missing client identity'')
        (case jc_client_id claims of Some c \<Rightarrow> Some c | None \<Rightarrow> jc_sub claims)) (\<lambda>client_id.
     Inr \<lparr>ac_subject = unwrap_or client_id (jc_sub claims), ac_tenant_id = tenant_id,
          ac_client_id = client_id, ac_scopes = parse_scopes (jc_scope claims) (jc_scopes claims)\<rparr>)))"

section \<open>Identities from headers\<close>

definition legacy_context :: "string \<Rightarrow> string \<Rightarrow> propeller_error + auth_context" where
  "legacy_context client_id legacy_tenant =
     (if client_id = [] then Inl (Unauthenticated ''missing client identity'')
      else Inr \<lparr>ac_subject = client_id, ac_tenant_id = legacy_tenant, ac_client_id = client_id,
             ac_scopes = []\<rparr>)"

definition legacy_context_from_http ::
    "auth_config \<Rightarrow> headers \<Rightarrow> client_config \<Rightarrow> propeller_error + auth_context" where
  "legacy_context_from_http cfg hdrs client =
     legacy_context (unwrap_or [] (hdrs (cc_header client))) (auth_legacy_tenant cfg)"

definition legacy_context_from_grpc ::
    "auth_config \<Rightarrow> headers \<Rightarrow> client_config \<Rightarrow> propeller_error + auth_context" where
  "legacy_context_from_grpc cfg metadata client =
     legacy_context (unwrap_or [] (metadata (cc_header client))) (auth_legacy_tenant cfg)"

definition extract_bearer :: "string \<Rightarrow> string option" where
  "extract_bearer v =
     (case splitn2 (CHR '' '') v of
        (scheme, Some token) \<Rightarrow>
          if eq_ignore_ascii_case scheme ''bearer'' \<and> token \<noteq> [] then Some token else None
      | _ \<Rightarrow> None)"

definition extract_http_bearer :: "headers \<Rightarrow> string option" where
  "extract_http_bearer hdrs = Option.bind (hdrs ''authorization'') extract_bearer"

definition extract_grpc_bearer :: "headers \<Rightarrow> string option" where
  "extract_grpc_bearer metadata = Option.bind (metadata ''authorization'') extract_bearer"

section \<open>The service\<close>

definition authenticate_http ::
    "auth_lib \<Rightarrow> auth_config \<Rightarrow> u64 option \<Rightarrow> headers \<Rightarrow> client_config \<Rightarrow> propeller_error + auth_context \<times> bool" where
  "authenticate_http lib cfg clock hdrs client =
     (if \<not> auth_enabled cfg
      then map_sum id (\<lambda>ctx. (ctx, False)) (legacy_context_from_http cfg hdrs client)
      else case extract_http_bearer hdrs of
        Some token \<Rightarrow> res_bind (decode_jwt lib cfg clock token) (\<lambda>ctx. Inr (ctx, False))
      | None \<Rightarrow>
          if auth_legacy_header_mode cfg
          then map_sum id (\<lambda>ctx. (ctx, True)) (legacy_context_from_http cfg hdrs client)
          else Inl (Unauthenticated ''missing Authorization bearer token''))"

definition authenticate_grpc ::
    "auth_lib \<Rightarrow> auth_config \<Rightarrow> u64 option \<Rightarrow> headers \<Rightarrow> client_config \<Rightarrow> propeller_error + auth_context \<times> bool" where
  "authenticate_grpc lib cfg clock metadata client =
     (if \<not> auth_enabled cfg
      then map_sum id (\<lambda>ctx. (ctx, False)) (legacy_context_from_grpc cfg metadata client)
      else case extract_grpc_bearer metadata of
        Some token \<Rightarrow> res_bind (decode_jwt lib cfg clock token) (\<lambda>ctx. Inr (ctx, False))
      | None \<Rightarrow>
          if auth_legacy_header_mode cfg
          then map_sum id (\<lambda>ctx. (ctx, True)) (legacy_context_from_grpc cfg metadata client)
          else Inl (Unauthenticated ''missing authorization bearer token''))"

definition authorize_api_key_grpc :: "auth_config \<Rightarrow> headers \<Rightarrow> propeller_error + unit" where
  "authorize_api_key_grpc cfg metadata =
     (if \<not> auth_enabled cfg then Inr ()
      else if auth_api_keys cfg = []
      then Inl (Unauthenticated ''publisher api keys are not configured'')
      else res_bind (ok_or (Unauthenticated ''missing x-api-key'') (metadata ''x-api-key'')) (\<lambda>key.
        if list_ex (\<lambda>candidate. candidate = key) (auth_api_keys cfg) then Inr ()
        else Inl (PermissionDenied ''invalid api key'')))"

section \<open>Channels\<close>

definition client_channel :: "string \<Rightarrow> string \<Rightarrow> string" where
  "client_channel tenant_id client_id = ''tenant:'' @ tenant_id @ '':client:'' @ client_id"

definition device_channel :: "string \<Rightarrow> string \<Rightarrow> string \<Rightarrow> string" where
  "device_channel tenant_id client_id device_id =
     ''tenant:'' @ tenant_id @ '':client:'' @ client_id @ '':device:'' @ device_id"

definition topic_channel :: "string \<Rightarrow> string \<Rightarrow> string" where
  "topic_channel tenant_id topic = ''tenant:'' @ tenant_id @ '':topic:'' @ topic"

section \<open>Accepted tokens\<close>

text \<open>
  \<open>signed_token\<close>: the token is three parts and the last is the HMAC of the first two under
  the secret; \<open>payload_of\<close> reads the claims of the middle one.
\<close>

definition signed_token :: "auth_lib \<Rightarrow> string \<Rightarrow> string \<Rightarrow> string \<Rightarrow> string \<Rightarrow> string \<Rightarrow> bool" where
  "signed_token lib secret token h p sig \<longleftrightarrow>
     token = h @ ''.'' @ p @ ''.'' @ sig \<and>
     (CHR ''.'') \<notin> set h \<and> (CHR ''.'') \<notin> set p \<and> (CHR ''.'') \<notin> set sig \<and>
     al_b64_decode lib sig = Some (hmac_sha256 lib (as_bytes secret) (as_bytes (h @ ''.'' @ p)))"

definition payload_claims :: "auth_lib \<Rightarrow> string \<Rightarrow> jwt_claims option" where
  "payload_claims lib p =
     Option.bind (al_b64_decode lib p) (\<lambda>b. Option.bind (al_json_object lib b) claims_of_object)"

lemma split_on_three:
  "split_on c s = [x, y, z] \<longleftrightarrow>
     s = x @ c # y @ c # z \<and> c \<notin> set x \<and> c \<notin> set y \<and> c \<notin> set z"
proof
  assume split: "split_on c s = [x, y, z]"
  have "concat (map (\<lambda>p. p @ [c]) (split_on c s)) = s @ [c]"
  proof (induction s)
    case (Cons a s)
    then show ?case by (cases "split_on c s") auto
  qed simp
  with split have "s = x @ c # y @ c # z" by simp
  moreover have "c \<notin> set x" "c \<notin> set y" "c \<notin> set z"
    using split_on_pieces [of _ c s] split by simp_all
  ultimately show "s = x @ c # y @ c # z \<and> c \<notin> set x \<and> c \<notin> set y \<and> c \<notin> set z" by simp
next
  assume "s = x @ c # y @ c # z \<and> c \<notin> set x \<and> c \<notin> set y \<and> c \<notin> set z"
  then show "split_on c s = [x, y, z]"
    by (simp add: split_on_append_sep split_on_no_sep)
qed

lemma three_parts_Inr:
  "(case xs of [a, b, c] \<Rightarrow> f a b c | _ \<Rightarrow> Inl e) = Inr r \<longleftrightarrow> (\<exists>a b c. xs = [a, b, c] \<and> f a b c = Inr r)"
  by (auto split: list.splits)

lemma decode_and_validate_signed:
  assumes "jwt_hmac_secret (auth_jwt cfg) = Some secret" and "signed_token lib secret token h p sig"
    and "payload_claims lib p = Some claims"
  shows "decode_and_validate_hs256 lib cfg clock token =
     res_bind (validate_claims (auth_jwt cfg) clock claims) (\<lambda>_. Inr claims)"
proof -
  from assms(2) have "split_on (CHR ''.'') token = [h, p, sig]"
    by (simp add: split_on_three signed_token_def)
  with assms show ?thesis
    by (auto simp: decode_and_validate_hs256_def signed_token_def payload_claims_def
        constant_time_eq_iff bind_eq_Some_conv Let_def)
qed

lemma decode_and_validate_Inr:
  "decode_and_validate_hs256 lib cfg clock token = Inr claims \<longleftrightarrow>
     (\<exists>secret h p sig. jwt_hmac_secret (auth_jwt cfg) = Some secret \<and>
        signed_token lib secret token h p sig \<and> payload_claims lib p = Some claims \<and>
        validate_claims (auth_jwt cfg) clock claims = Inr ())"
  (is "?L \<longleftrightarrow> ?R")
proof
  assume ?L
  then show ?R
    by (auto simp: decode_and_validate_hs256_def res_bind_eq_Inr ok_or_eq_Inr Let_def three_parts_Inr
        constant_time_eq_iff signed_token_def payload_claims_def split_on_three
        split: if_splits) (intro exI conjI, rule refl, simp_all)
next
  assume ?R
  then obtain secret h p sig where r: "jwt_hmac_secret (auth_jwt cfg) = Some secret"
      "signed_token lib secret token h p sig" "payload_claims lib p = Some claims"
      "validate_claims (auth_jwt cfg) clock claims = Inr ()" by blast
  from decode_and_validate_signed [OF r(1-3)] r(4) show ?L by simp
qed

lemma decode_jwt_Inr:
  "decode_jwt lib cfg clock token = Inr ctx \<longleftrightarrow>
     (\<exists>claims v. decode_and_validate_hs256 lib cfg clock token = Inr claims \<and>
        jc_extra claims (auth_tenant_claim cfg) = Some v \<and>
        value_to_string v = Some (ac_tenant_id ctx) \<and>
        (if jc_client_id claims = None then jc_sub claims else jc_client_id claims) = Some (ac_client_id ctx) \<and>
        ac_subject ctx = unwrap_or (ac_client_id ctx) (jc_sub claims) \<and>
        ac_scopes ctx = parse_scopes (jc_scope claims) (jc_scopes claims))"
  by (cases ctx)
    (auto simp: decode_jwt_def res_bind_eq_Inr ok_or_eq_Inr bind_eq_Some_conv split: option.splits)

text \<open>
  C11: With authentication on, a request that is let in as anything but a legacy identity carries
  a bearer token signed with the configured secret, for the configured issuer and audience and
  still valid, and its tenant and client id are the ones the signed payload names. This is what
  a caller without the secret cannot produce.
\<close>

theorem accepted_token_is_signed:
  assumes "auth_enabled cfg" and "authenticate_grpc lib cfg clock metadata client = Inr (ctx, False)"
  shows "\<exists>token secret h p sig claims v.
     extract_grpc_bearer metadata = Some token \<and>
     jwt_hmac_secret (auth_jwt cfg) = Some secret \<and>
     signed_token lib secret token h p sig \<and> payload_claims lib p = Some claims \<and>
     validate_claims (auth_jwt cfg) clock claims = Inr () \<and>
     jc_extra claims (auth_tenant_claim cfg) = Some v \<and>
     value_to_string v = Some (ac_tenant_id ctx) \<and>
     (if jc_client_id claims = None then jc_sub claims else jc_client_id claims) = Some (ac_client_id ctx)"
proof (cases "extract_grpc_bearer metadata")
  case None
  with assms show ?thesis
    by (auto simp: authenticate_grpc_def split: if_splits)
      (auto simp: legacy_context_from_grpc_def legacy_context_def split: if_splits)
next
  case (Some token)
  with assms have "decode_jwt lib cfg clock token = Inr ctx"
    by (auto simp: authenticate_grpc_def res_bind_eq_Inr)
  then obtain claims v where "decode_and_validate_hs256 lib cfg clock token = Inr claims"
      "jc_extra claims (auth_tenant_claim cfg) = Some v" "value_to_string v = Some (ac_tenant_id ctx)"
      "(if jc_client_id claims = None then jc_sub claims else jc_client_id claims) = Some (ac_client_id ctx)"
    unfolding decode_jwt_Inr by blast
  with Some show ?thesis unfolding decode_and_validate_Inr by blast
qed

text \<open>
  \<open>build_jwt\<close> of the module's tests: a token as an issuer that knows the secret makes it, with
  the base64 encoder as a parameter.
\<close>

definition build_jwt :: "auth_lib \<Rightarrow> (bytes \<Rightarrow> string) \<Rightarrow> string \<Rightarrow> bytes \<Rightarrow> bytes \<Rightarrow> string" where
  "build_jwt lib enc secret header payload =
     (let signing_input = enc header @ ''.'' @ enc payload;
          sig = hmac_sha256 lib (as_bytes secret) (as_bytes signing_input)
      in signing_input @ ''.'' @ enc sig)"

lemma signed_build_jwt:
  assumes "\<And>b. al_b64_decode lib (enc b) = Some b" and "\<And>b. (CHR ''.'') \<notin> set (enc b)"
  shows "\<exists>sig. signed_token lib secret (build_jwt lib enc secret header payload) (enc header) (enc payload) sig"
  using assms by (auto simp: build_jwt_def signed_token_def Let_def)

lemma extract_bearer_Bearer: "token \<noteq> [] \<Longrightarrow> extract_bearer (''Bearer '' @ token) = Some token"
proof -
  have "splitn2 (CHR '' '') (''Bearer'' @ (CHR '' '') # token) = (''Bearer'', Some token)"
    by (rule splitn2_append) simp
  moreover have "eq_ignore_ascii_case ''Bearer'' ''bearer''" by code_simp
  moreover assume "token \<noteq> []"
  ultimately show ?thesis by (simp add: extract_bearer_def)
qed

text \<open>
  C31: With authentication on, a token made with the configured secret, whose claims pass the checks
  of issuer, audience, expiry and start and name a tenant and a client, is accepted, whatever its
  header segment says and whatever the other headers of the request are. The caller gets exactly
  the identity it names: the client is the claim \<open>client_id\<close> when there is one and else \<open>sub\<close>, the
  subject is \<open>sub\<close> when there is one and else the client.
\<close>

theorem issued_token_is_accepted:
  assumes "\<And>b. al_b64_decode lib (enc b) = Some b" and "\<And>b. (CHR ''.'') \<notin> set (enc b)"
    and "auth_enabled cfg" and "jwt_hmac_secret (auth_jwt cfg) = Some secret"
    and "Option.bind (al_json_object lib payload) claims_of_object = Some claims"
    and "validate_claims (auth_jwt cfg) clock claims = Inr ()"
    and "jc_extra claims (auth_tenant_claim cfg) = Some v" and "value_to_string v = Some tenant_id"
    and "jc_client_id claims = Some client_id \<or> jc_client_id claims = None \<and> jc_sub claims = Some client_id"
    and "hdrs ''authorization'' = Some (''Bearer '' @ build_jwt lib enc secret header payload)"
  shows "authenticate_http lib cfg clock hdrs client =
     Inr (\<lparr>ac_subject = (case jc_sub claims of Some sub \<Rightarrow> sub | None \<Rightarrow> client_id), ac_tenant_id = tenant_id,
            ac_client_id = client_id, ac_scopes = parse_scopes (jc_scope claims) (jc_scopes claims)\<rparr>, False)"
proof -
  have "build_jwt lib enc secret header payload \<noteq> []" by (simp add: build_jwt_def Let_def)
  from extract_bearer_Bearer [OF this] assms(10)
  have "extract_http_bearer hdrs = Some (build_jwt lib enc secret header payload)"
    by (simp only: extract_http_bearer_def bind.simps)
  moreover have "payload_claims lib (enc payload) = Some claims"
    using assms(1,5) by (simp add: payload_claims_def)
  with signed_build_jwt [OF assms(1,2)] assms(4,6)
  have "decode_and_validate_hs256 lib cfg clock (build_jwt lib enc secret header payload) = Inr claims"
    unfolding decode_and_validate_Inr by blast
  ultimately show ?thesis
    using assms(3,7-9) by (auto simp: authenticate_http_def decode_jwt_def split: option.splits)
qed

section \<open>Witnesses for the token theorems\<close>

text \<open>
  An encoding without the separator, two characters a byte, its decoder, and the request of the
  test \<open>jwt_auth_success\<close>.
\<close>

definition toy_encode :: "bytes \<Rightarrow> string" where
  "toy_encode b = concat (map (\<lambda>x. [char_of (65 + unat x div 16), char_of (65 + unat x mod 16)]) b)"

fun toy_decode :: "string \<Rightarrow> bytes option" where
  "toy_decode [] = Some []"
| "toy_decode [c] = None"
| "toy_decode (c # d # s) =
     map_option (\<lambda>r. of_nat ((of_char c - 65) * 16 + (of_char d - 65)) # r) (toy_decode s)"

lemma toy_decode_encode: "toy_decode (toy_encode b) = Some b"
proof (induction b)
  case (Cons x b)
  have "unat x < 256" using unsigned_less [of x] by simp
  then have "65 + unat x div 16 < 256" "65 + unat x mod 16 < 256" by simp_all
  with Cons show ?case by (simp add: toy_encode_def mult.commute)
qed (simp add: toy_encode_def)

lemma toy_encode_no_dot: "(CHR ''.'') \<notin> set (toy_encode b)"
proof (induction b)
  case (Cons x b)
  have "unat x < 256" using unsigned_less [of x] by simp
  then have "(CHR ''.'') \<noteq> char_of (65 + n)" if "n < 17" for n :: nat
    using that by (auto dest: arg_cong [where f = "of_char :: char \<Rightarrow> nat"])
  with \<open>unat x < 256\<close> Cons show ?case by (simp add: toy_encode_def)
qed (simp add: toy_encode_def)

definition test_lib :: auth_lib where
  "test_lib = toy_lib\<lparr>al_b64_decode := toy_decode\<rparr>"

definition test_auth_config :: auth_config where
  "test_auth_config = \<lparr>auth_enabled = True, auth_legacy_header_mode = False,
     auth_tenant_claim = ''tenant_id'', auth_legacy_tenant = ''legacy'', auth_api_keys = [''dev-key''],
     auth_jwt = \<lparr>jwt_issuer = ''issuer'', jwt_audience = ''audience'', jwt_clock_skew_secs = 0,
       jwt_hmac_secret = Some ''secret'', jwt_jwks_url = None\<rparr>\<rparr>"

definition test_claims :: jwt_claims where
  "test_claims = \<lparr>jc_sub = Some ''user_1'', jc_exp = Some 4102444800, jc_nbf = None,
     jc_iss = Some ''issuer'', jc_aud = Some (JString ''audience''), jc_client_id = None,
     jc_scope = None, jc_scopes = None, jc_extra = [''tenant_id'' \<mapsto> JString ''tenant_1'']\<rparr>"

definition test_headers :: headers where
  "test_headers = [''authorization'' \<mapsto> ''Bearer '' @ build_jwt test_lib toy_encode ''secret'' [1] [2]]"

definition test_context :: auth_context where
  "test_context = \<lparr>ac_subject = ''user_1'', ac_tenant_id = ''tenant_1'', ac_client_id = ''user_1'',
     ac_scopes = []\<rparr>"

lemma test_claims_parse: "Option.bind (al_json_object test_lib b) claims_of_object = Some test_claims"
  by (simp add: test_lib_def toy_lib_def claims_of_object_def claim_field_def extra_claims_def
      known_claims_def test_claims_def)

lemma test_claims_valid:
  "validate_claims (auth_jwt test_auth_config) (Some 1700000000) test_claims = Inr ()"
  by (simp add: validate_claims_def test_auth_config_def test_claims_def)

lemma test_lib_decode: "al_b64_decode test_lib (toy_encode b) = Some b"
  by (simp add: test_lib_def toy_decode_encode)

text \<open>The same claims with a \<open>client_id\<close> beside \<open>sub\<close>.\<close>

definition agent_lib :: auth_lib where
  "agent_lib = test_lib\<lparr>al_json_object := (\<lambda>_. Some [(''iss'', JString ''issuer''), (''aud'', JString ''audience''),
     (''exp'', JNumber ''4102444800'' (Some 4102444800)), (''sub'', JString ''user_1''),
     (''client_id'', JString ''agent_7''), (''tenant_id'', JString ''tenant_1'')])\<rparr>"

definition agent_claims :: jwt_claims where
  "agent_claims = test_claims\<lparr>jc_client_id := Some ''agent_7''\<rparr>"

lemma agent_claims_parse: "Option.bind (al_json_object agent_lib b) claims_of_object = Some agent_claims"
  by (simp add: agent_lib_def claims_of_object_def claim_field_def extra_claims_def
      known_claims_def test_claims_def agent_claims_def)

lemma agent_claims_valid:
  "validate_claims (auth_jwt test_auth_config) (Some 1700000000) agent_claims = Inr ()"
  by (simp add: validate_claims_def test_auth_config_def test_claims_def agent_claims_def)

lemma agent_lib_decode: "al_b64_decode agent_lib (toy_encode b) = Some b"
  by (simp add: agent_lib_def test_lib_decode)

theorem issued_token_is_accepted_witness:
  "authenticate_http test_lib test_auth_config (Some 1700000000) test_headers shipped_client =
     Inr (test_context, False) \<and>
   authenticate_http agent_lib test_auth_config (Some 1700000000)
     [''authorization'' \<mapsto> ''Bearer '' @ build_jwt agent_lib toy_encode ''secret'' [1] [2]] shipped_client =
     Inr (test_context\<lparr>ac_client_id := ''agent_7''\<rparr>, False)"
proof
  have "authenticate_http test_lib test_auth_config (Some 1700000000) test_headers shipped_client =
     Inr (\<lparr>ac_subject = (case jc_sub test_claims of Some sub \<Rightarrow> sub | None \<Rightarrow> ''user_1''),
            ac_tenant_id = ''tenant_1'', ac_client_id = ''user_1'',
            ac_scopes = parse_scopes (jc_scope test_claims) (jc_scopes test_claims)\<rparr>, False)"
    by (rule issued_token_is_accepted [where enc = toy_encode and v = "JString ''tenant_1''", OF test_lib_decode toy_encode_no_dot
          _ _ test_claims_parse test_claims_valid])
      (simp_all add: test_auth_config_def test_claims_def test_headers_def)
  then show "authenticate_http test_lib test_auth_config (Some 1700000000) test_headers shipped_client =
     Inr (test_context, False)" by (simp add: test_context_def test_claims_def parse_scopes_def)
  let ?hdrs = "[''authorization'' \<mapsto> ''Bearer '' @ build_jwt agent_lib toy_encode ''secret'' [1] [2]]"
  have "authenticate_http agent_lib test_auth_config (Some 1700000000) ?hdrs shipped_client =
     Inr (\<lparr>ac_subject = (case jc_sub agent_claims of Some sub \<Rightarrow> sub | None \<Rightarrow> ''agent_7''),
            ac_tenant_id = ''tenant_1'', ac_client_id = ''agent_7'',
            ac_scopes = parse_scopes (jc_scope agent_claims) (jc_scopes agent_claims)\<rparr>, False)"
    by (rule issued_token_is_accepted [where enc = toy_encode and v = "JString ''tenant_1''", OF agent_lib_decode toy_encode_no_dot
          _ _ agent_claims_parse agent_claims_valid])
      (simp_all add: test_auth_config_def test_claims_def agent_claims_def)
  then show "authenticate_http agent_lib test_auth_config (Some 1700000000) ?hdrs shipped_client =
     Inr (test_context\<lparr>ac_client_id := ''agent_7''\<rparr>, False)"
    by (simp add: test_context_def test_claims_def agent_claims_def parse_scopes_def)
qed

lemma test_grpc_accepted:
  "authenticate_grpc test_lib test_auth_config (Some 1700000000) test_headers shipped_client =
     Inr (test_context, False)"
proof -
  have "build_jwt test_lib toy_encode ''secret'' [1] [2] \<noteq> []" by (simp add: build_jwt_def Let_def)
  from extract_bearer_Bearer [OF this]
  have "extract_grpc_bearer test_headers = Some (build_jwt test_lib toy_encode ''secret'' [1] [2])"
    by (simp add: extract_grpc_bearer_def test_headers_def)
  moreover have "payload_claims test_lib (toy_encode [2]) = Some test_claims"
    by (simp add: payload_claims_def test_lib_decode test_claims_parse)
  with signed_build_jwt [OF test_lib_decode toy_encode_no_dot, of "''secret''" "[1]" "[2]"] test_claims_valid
  have "decode_and_validate_hs256 test_lib test_auth_config (Some 1700000000)
      (build_jwt test_lib toy_encode ''secret'' [1] [2]) = Inr test_claims"
    unfolding decode_and_validate_Inr by (auto simp: test_auth_config_def)
  ultimately show ?thesis
    by (simp add: authenticate_grpc_def decode_jwt_def test_auth_config_def)
      (simp add: test_claims_def test_context_def parse_scopes_def)
qed

theorem accepted_token_is_signed_witness:
  "\<exists>token h p sig. extract_grpc_bearer test_headers = Some token \<and>
     signed_token test_lib ''secret'' token h p sig"
  using accepted_token_is_signed [OF _ test_grpc_accepted]
  by (auto simp: test_auth_config_def)

section \<open>Identities\<close>

text \<open>
  With authentication on, a request without a bearer token gets in only in the legacy mode,
  flagged as legacy, as the client its header names and always in the one legacy tenant; with the
  mode off it is refused. A request with a bearer token is never treated as legacy.
\<close>

theorem legacy_identity_is_confined:
  assumes "auth_enabled cfg" and "authenticate_http lib cfg clock hdrs client = Inr (ctx, legacy)"
  shows "(legacy \<longleftrightarrow> extract_http_bearer hdrs = None) \<and>
     (legacy \<longrightarrow> auth_legacy_header_mode cfg \<and> ac_tenant_id ctx = auth_legacy_tenant cfg \<and>
        hdrs (cc_header client) = Some (ac_client_id ctx) \<and> ac_client_id ctx \<noteq> [])"
proof (cases "extract_http_bearer hdrs")
  case None
  with assms have "legacy" "auth_legacy_header_mode cfg" "legacy_context_from_http cfg hdrs client = Inr ctx"
    by (auto simp: authenticate_http_def map_sum_eq_Inr split: if_splits)
      (cases "legacy_context_from_http cfg hdrs client"; auto)+
  with None show ?thesis
    by (cases "hdrs (cc_header client)")
      (auto simp: legacy_context_from_http_def legacy_context_def split: if_splits)
next
  case (Some token)
  with assms show ?thesis by (auto simp: authenticate_http_def res_bind_eq_Inr)
qed

theorem legacy_identity_is_confined_witness:
  "\<exists>ctx. authenticate_http toy_lib (app_auth shipped_config) None [''x-client-id'' \<mapsto> ''bob''] shipped_client =
       Inr (ctx, True) \<and> ac_tenant_id ctx = ''legacy'' \<and> ac_client_id ctx = ''bob''"
proof -
  obtain ctx where c: "authenticate_http toy_lib (app_auth shipped_config) None
      [''x-client-id'' \<mapsto> ''bob''] shipped_client = Inr (ctx, True)"
    by (simp add: authenticate_http_def shipped_config_def extract_http_bearer_def shipped_client_def
        legacy_context_from_http_def legacy_context_def)
  with legacy_identity_is_confined [OF _ c] show ?thesis
    by (auto simp: shipped_config_def shipped_client_def)
qed

text \<open>
  A present bearer token alone decides: if it is bad the request is refused, also in the
  legacy mode, and no other header changes the outcome.
\<close>

theorem bearer_token_decides:
  assumes "auth_enabled cfg" and "extract_http_bearer hdrs = Some token"
    and "extract_http_bearer hdrs' = Some token"
  shows "authenticate_http lib cfg clock hdrs client = authenticate_http lib cfg clock hdrs' client' \<and>
     (case decode_jwt lib cfg clock token of
        Inl e \<Rightarrow> authenticate_http lib cfg clock hdrs client = Inl e
      | Inr ctx \<Rightarrow> authenticate_http lib cfg clock hdrs client = Inr (ctx, False))"
  using assms by (cases "decode_jwt lib cfg clock token") (simp_all add: authenticate_http_def)

theorem bearer_token_decides_witness:
  "authenticate_http toy_lib (app_auth shipped_config) (Some 0)
     [''authorization'' \<mapsto> ''Bearer x'', ''x-client-id'' \<mapsto> ''bob''] shipped_client =
   Inl (Unauthenticated ''invalid jwt format'')"
proof -
  have b: "extract_http_bearer [''authorization'' \<mapsto> ''Bearer x'', ''x-client-id'' \<mapsto> ''bob''] = Some ''x''"
    using extract_bearer_Bearer [of "''x''"] by (simp add: extract_http_bearer_def)
  have "auth_enabled (app_auth shipped_config)" by (simp add: shipped_config_def)
  from bearer_token_decides [OF this b b, of toy_lib "Some 0" shipped_client]
  show ?thesis
    by (simp add: decode_jwt_def decode_and_validate_hs256_def shipped_config_def)
qed

text \<open>
  A configuration that names one of the registered claims (\<open>sub\<close>, \<open>client_id\<close>, \<open>iss\<close>
  and so on) as the tenant claim passes validation, but refuses every token: those claims are
  fields and never end up in the map that the tenant is looked up in.
\<close>

theorem registered_tenant_claim_refuses_all:
  assumes "auth_tenant_claim cfg \<in> set known_claims"
  shows "\<exists>e. decode_jwt lib cfg clock token = Inl e"
proof (cases "decode_jwt lib cfg clock token")
  case (Inr ctx)
  then obtain claims v where d: "decode_and_validate_hs256 lib cfg clock token = Inr claims"
    and v: "jc_extra claims (auth_tenant_claim cfg) = Some v"
    unfolding decode_jwt_Inr by blast
  from d obtain obj where "claims_of_object obj = Some claims"
    unfolding decode_and_validate_Inr payload_claims_def by (auto simp: bind_eq_Some_conv)
  with v assms show ?thesis by (simp add: claims_of_object_extra extra_claims_known)
qed simp

theorem registered_tenant_claim_refuses_all_witness:
  "\<exists>e. decode_jwt toy_lib ((app_auth shipped_config)\<lparr>auth_tenant_claim := ''client_id''\<rparr>)
         (Some 1700000000) ''a.b.c'' = Inl e"
  by (rule registered_tenant_claim_refuses_all) (simp add: known_claims_def)

text \<open>
  Under a configuration the service starts with, a token check never fails for want of a
  secret: the one internal error left is a clock before 1970.
\<close>

theorem secret_is_always_configured:
  assumes "load read_file path = Inr cfg" and "auth_enabled (app_auth cfg)"
    and "decode_jwt lib (app_auth cfg) clock token = Inl (Internal m)"
  shows "clock = None"
proof -
  from loadD [OF assms(1)] assms(2) obtain secret
    where "jwt_hmac_secret (auth_jwt (app_auth cfg)) = Some secret"
    using validated_secret by blast
  with assms(3) show ?thesis
    by (cases clock)
      (auto simp: decode_jwt_def decode_and_validate_hs256_def validate_claims_def Let_def
        res_bind_def ok_or_def split: sum.splits option.splits list.splits if_splits)
qed

theorem secret_is_always_configured_witness:
  "\<exists>clock token m. decode_jwt test_lib test_auth_config clock token = Inl (Internal m) \<and> clock = None"
proof -
  let ?cfg = "shipped_config\<lparr>app_auth := test_auth_config\<rparr>"
  have load: "load (\<lambda>_. Inr ?cfg) [] = Inr ?cfg"
    by (simp add: load_def validate_def test_auth_config_def shipped_config_def shipped_keepalive_def)
  obtain sig where "signed_token test_lib ''secret'' (build_jwt test_lib toy_encode ''secret'' [1] [2])
      (toy_encode [1]) (toy_encode [2]) sig"
    using signed_build_jwt [OF test_lib_decode toy_encode_no_dot] by blast
  from decode_and_validate_signed [OF _ this, of test_auth_config test_claims None]
  have "decode_jwt test_lib test_auth_config None (build_jwt test_lib toy_encode ''secret'' [1] [2]) =
      Inl (Internal ''system time error'')"
    by (simp add: payload_claims_def test_lib_decode test_claims_parse decode_jwt_def)
      (simp add: validate_claims_def test_auth_config_def test_claims_def)
  then obtain clock token m where d: "decode_jwt test_lib test_auth_config clock token = Inl (Internal m)"
    by blast
  with secret_is_always_configured [OF load, of test_lib clock token m] show ?thesis
    by (auto simp: test_auth_config_def)
qed

section \<open>API keys\<close>

lemma api_key_accepted_iff:
  "authorize_api_key_grpc cfg metadata = Inr () \<longleftrightarrow>
     \<not> auth_enabled cfg \<or> (\<exists>key. metadata ''x-api-key'' = Some key \<and> key \<in> set (auth_api_keys cfg))"
  by (auto simp: authorize_api_key_grpc_def res_bind_eq_Inr ok_or_eq_Inr list_ex_iff split: if_splits)

section \<open>Channel names\<close>

text \<open>
  Who a channel belongs to. \<open>clean\<close> owners have no colon in the tenant and client ids; device
  ids and topics are free.
\<close>

datatype channel_owner =
    OfClient string string
  | OfDevice string string string
  | OfTopic string string

fun channel_name :: "channel_owner \<Rightarrow> string" where
  "channel_name (OfClient t c) = client_channel t c"
| "channel_name (OfDevice t c d) = device_channel t c d"
| "channel_name (OfTopic t p) = topic_channel t p"

fun clean :: "channel_owner \<Rightarrow> bool" where
  "clean (OfClient t c) \<longleftrightarrow> (CHR '':'') \<notin> set t \<and> (CHR '':'') \<notin> set c"
| "clean (OfDevice t c d) \<longleftrightarrow> (CHR '':'') \<notin> set t \<and> (CHR '':'') \<notin> set c"
| "clean (OfTopic t p) \<longleftrightarrow> (CHR '':'') \<notin> set t"

fun owner_tenant :: "channel_owner \<Rightarrow> string" where
  "owner_tenant (OfClient t c) = t"
| "owner_tenant (OfDevice t c d) = t"
| "owner_tenant (OfTopic t p) = t"

fun owner_rest :: "channel_owner \<Rightarrow> string" where
  "owner_rest (OfClient t c) = ''client:'' @ c"
| "owner_rest (OfDevice t c d) = ''client:'' @ c @ '':device:'' @ d"
| "owner_rest (OfTopic t p) = ''topic:'' @ p"

lemma channel_name_parts:
  "channel_name ow = ''tenant:'' @ owner_tenant ow @ (CHR '':'') # owner_rest ow"
  by (cases ow) (simp_all add: client_channel_def device_channel_def topic_channel_def)

lemma clean_tenant: "clean ow \<Longrightarrow> (CHR '':'') \<notin> set (owner_tenant ow)"
  by (cases ow) simp_all

lemma same_channel_same_tenant:
  assumes "channel_name a = channel_name b"
    and "(CHR '':'') \<notin> set (owner_tenant a)" and "(CHR '':'') \<notin> set (owner_tenant b)"
  shows "owner_tenant a = owner_tenant b \<and> owner_rest a = owner_rest b"
  using assms by (intro cut_unique) (simp_all add: channel_name_parts)

lemma cut_device:
  assumes "c1 @ '':device:'' @ d1 = c2 @ '':device:'' @ d2"
    and "(CHR '':'') \<notin> set c1" and "(CHR '':'') \<notin> set c2"
  shows "c1 = c2 \<and> d1 = d2"
  using cut_unique [of c1 "CHR '':''" "''device:'' @ d1" c2 "''device:'' @ d2"] assms by simp

lemma no_device_in_clean: "(CHR '':'') \<notin> set c1 \<Longrightarrow> c1 \<noteq> c2 @ '':device:'' @ d"
  by auto

lemma clean_owner_eq:
  assumes "owner_tenant a = owner_tenant b" and "owner_rest a = owner_rest b"
    and "clean a" and "clean b"
  shows "a = b"
proof (cases a)
  case (OfClient t c)
  with assms show ?thesis by (cases b) (auto simp: no_device_in_clean)
next
  case (OfDevice t c d)
  with assms show ?thesis
    by (cases b) (auto simp: no_device_in_clean dest: cut_device [unfolded append.simps] sym)
next
  case (OfTopic t p)
  with assms show ?thesis by (cases b) auto
qed

text \<open>
  C32: Among tenants and clients whose ids contain no colon, a channel has one owner: no two
  clients, devices or topics, of whatever tenants, share a channel name. Tenants alone are kept
  apart already if only their own ids contain no colon.
\<close>

theorem channels_are_separate:
  "inj_on channel_name {ow. clean ow} \<and>
   (\<forall>a b. channel_name a = channel_name b \<longrightarrow>
      (CHR '':'') \<notin> set (owner_tenant a) \<union> set (owner_tenant b) \<longrightarrow> owner_tenant a = owner_tenant b)"
proof (intro conjI inj_onI allI impI)
  fix a b assume ab: "channel_name a = channel_name b"
    and c: "a \<in> {ow. clean ow}" "b \<in> {ow. clean ow}"
  from same_channel_same_tenant [OF ab] c clean_tenant
  have t: "owner_tenant a = owner_tenant b" and r: "owner_rest a = owner_rest b" by auto
  from clean_owner_eq [OF t r] c show "a = b" by simp
next
  fix a b assume "channel_name a = channel_name b"
    "(CHR '':'') \<notin> set (owner_tenant a) \<union> set (owner_tenant b)"
  with same_channel_same_tenant [of a b] show "owner_tenant a = owner_tenant b" by simp
qed

theorem channels_are_separate_witness:
  "channel_name (OfClient ''t1'' ''u1'') \<noteq> channel_name (OfDevice ''t1'' ''u2'' ''d1'')"
  using inj_onD [OF conjunct1 [OF channels_are_separate],
      of "OfClient ''t1'' ''u1''" "OfDevice ''t1'' ''u2'' ''d1''"]
  by auto

text \<open>
  Ids are not checked for colons, and with them channels coincide: the client called
  \<open>c:device:d\<close> listens on the channel of device \<open>d\<close> of client \<open>c\<close>, and a tenant called
  \<open>t:client:c\<close> has topics whose channels no separator tells from tenant \<open>t\<close>'s own clients.
\<close>

theorem colon_ids_share_channels:
  "client_channel t (c @ '':device:'' @ d) = device_channel t c d \<and>
   topic_channel (t @ '':client:'' @ c) p = client_channel t (c @ '':topic:'' @ p)"
  by (simp add: client_channel_def device_channel_def topic_channel_def)

lemma channel_names_example:
  "client_channel ''t1'' ''u1'' = ''tenant:t1:client:u1''"
  "device_channel ''t1'' ''u1'' ''d1'' = ''tenant:t1:client:u1:device:d1''"
  "topic_channel ''t1'' ''payment'' = ''tenant:t1:topic:payment''"
  by (simp_all add: client_channel_def device_channel_def topic_channel_def)

end
