(* ===== verification/Metrics.thy ===== *)
theory Metrics
  imports Prelude
begin

text \<open>
  The counters of the realtime gateway (\<open>approach-2/src/metrics.rs\<close>). Each is an
  \<open>AtomicU64\<close>: adding one wraps around at \<open>2 ^ 64\<close>. A snapshot reads them all.
\<close>

record metrics =
  m_connections :: u64
  m_messages_published :: u64
  m_messages_delivered :: u64
  m_auth_success_total :: u64
  m_auth_failure_total :: u64
  m_legacy_header_auth_total :: u64
  m_topic_subscribe_total :: u64
  m_topic_unsubscribe_total :: u64
  m_topic_unsubscribe_error_total :: u64
  m_active_topic_listeners :: u64
  m_ws_ping_sent_total :: u64
  m_ws_pong_received_total :: u64
  m_ws_keepalive_timeout_total :: u64
  m_grpc_keepalive_timeout_total :: u64

definition metrics_new :: metrics where
  "metrics_new =
     \<lparr>m_connections = 0, m_messages_published = 0, m_messages_delivered = 0,
      m_auth_success_total = 0, m_auth_failure_total = 0, m_legacy_header_auth_total = 0,
      m_topic_subscribe_total = 0, m_topic_unsubscribe_total = 0,
      m_topic_unsubscribe_error_total = 0, m_active_topic_listeners = 0,
      m_ws_ping_sent_total = 0, m_ws_pong_received_total = 0,
      m_ws_keepalive_timeout_total = 0, m_grpc_keepalive_timeout_total = 0\<rparr>"

record metrics_snapshot =
  sn_connections :: u64
  sn_messages_published :: u64
  sn_messages_delivered :: u64
  sn_auth_success_total :: u64
  sn_auth_failure_total :: u64
  sn_legacy_header_auth_total :: u64
  sn_topic_subscribe_total :: u64
  sn_topic_unsubscribe_total :: u64
  sn_topic_unsubscribe_error_total :: u64
  sn_active_topic_listeners :: u64
  sn_ws_ping_sent_total :: u64
  sn_ws_pong_received_total :: u64
  sn_ws_keepalive_timeout_total :: u64
  sn_grpc_keepalive_timeout_total :: u64

definition snapshot :: "metrics \<Rightarrow> metrics_snapshot" where
  "snapshot m =
     \<lparr>sn_connections = m_connections m,
      sn_messages_published = m_messages_published m,
      sn_messages_delivered = m_messages_delivered m,
      sn_auth_success_total = m_auth_success_total m,
      sn_auth_failure_total = m_auth_failure_total m,
      sn_legacy_header_auth_total = m_legacy_header_auth_total m,
      sn_topic_subscribe_total = m_topic_subscribe_total m,
      sn_topic_unsubscribe_total = m_topic_unsubscribe_total m,
      sn_topic_unsubscribe_error_total = m_topic_unsubscribe_error_total m,
      sn_active_topic_listeners = m_active_topic_listeners m,
      sn_ws_ping_sent_total = m_ws_ping_sent_total m,
      sn_ws_pong_received_total = m_ws_pong_received_total m,
      sn_ws_keepalive_timeout_total = m_ws_keepalive_timeout_total m,
      sn_grpc_keepalive_timeout_total = m_grpc_keepalive_timeout_total m\<rparr>"

text \<open>The increments that the handlers make.\<close>

definition count_connection :: "metrics \<Rightarrow> metrics" where
  "count_connection m = m\<lparr>m_connections := fetch_add1 (m_connections m)\<rparr>"

definition uncount_connection :: "metrics \<Rightarrow> metrics" where
  "uncount_connection m = m\<lparr>m_connections := fetch_sub1 (m_connections m)\<rparr>"

definition count_published :: "metrics \<Rightarrow> metrics" where
  "count_published m = m\<lparr>m_messages_published := fetch_add1 (m_messages_published m)\<rparr>"

definition count_delivered :: "metrics \<Rightarrow> metrics" where
  "count_delivered m = m\<lparr>m_messages_delivered := fetch_add1 (m_messages_delivered m)\<rparr>"

lemma uncount_count_connection [simp]: "uncount_connection (count_connection m) = m"
  by (simp add: count_connection_def uncount_connection_def)

end
