(* ===== verification/Push.thy ===== *)
theory Push
  imports Pubsub Kv Auth Metrics
begin

text \<open>
  The push service of the realtime gateway (\<open>approach-2/src/push\<close>): sessions of clients and
  their devices, publishing to clients, devices and topics, topic subscriptions, and the list of
  active devices. It is written over \<open>Arc<dyn PubSub>\<close> and \<open>Arc<dyn KeyValue>\<close>; here over the
  records of their operations, with the lemmas on it in a locale over both contracts.
\<close>

section \<open>Data\<close>

record device =
  dv_id :: string
  dv_attributes :: "string \<Rightarrow> string option"

record send_event_to_client_request =
  sc_tenant_id :: string
  sc_client_id :: string
  sc_event_name :: string
  sc_event :: bytes

record send_event_to_client_device_request =
  sd_tenant_id :: string
  sd_client_id :: string
  sd_device_id :: string
  sd_event_name :: string
  sd_event :: bytes

record send_event_to_topic_request =
  st_tenant_id :: string
  st_topic :: string
  st_event_name :: string
  st_event :: bytes

record get_active_devices_request =
  ga_tenant_id :: string
  ga_client_id :: string

text \<open>
  \<open>serde_json\<close> on the attribute maps is third-party code: writing may fail, and what cannot be
  read is replaced by the empty map.
\<close>

record ('b, 'k) push_service =
  svc_pubsub :: "'b pubsub_ops"
  svc_kv :: "'k kv_ops"
  svc_config :: client_config
  svc_write_attrs :: "(string \<Rightarrow> string option) \<Rightarrow> string + string"
  svc_read_attrs :: "string \<Rightarrow> (string \<Rightarrow> string option) option"

text \<open>What the service shares with the rest of the process: broker, store, counters.\<close>

record ('b, 'k) push_world =
  pw_pubsub :: 'b
  pw_kv :: 'k
  pw_metrics :: metrics

definition on_pubsub :: "('b, 'e, 'a) io \<Rightarrow> (('b, 'k) push_world, 'e, 'a) io" where
  "on_pubsub m = zoom pw_pubsub (\<lambda>b w. w\<lparr>pw_pubsub := b\<rparr>) m"

definition on_kv :: "('k, 'e, 'a) io \<Rightarrow> (('b, 'k) push_world, 'e, 'a) io" where
  "on_kv m = zoom pw_kv (\<lambda>k w. w\<lparr>pw_kv := k\<rparr>) m"

definition on_metrics :: "(metrics \<Rightarrow> metrics) \<Rightarrow> (('b, 'k) push_world, 'e, unit) io" where
  "on_metrics f = io_modify (\<lambda>w. w\<lparr>pw_metrics := f (pw_metrics w)\<rparr>)"

definition kv_key :: "string \<Rightarrow> string \<Rightarrow> string" where
  "kv_key tenant_id client_id = tenant_id @ '':'' @ client_id"

section \<open>Sessions\<close>

text \<open>The channels of a session; \<open>Inl\<close> when the request is refused.\<close>

definition session_channels ::
    "client_config \<Rightarrow> string \<Rightarrow> string \<Rightarrow> device option \<Rightarrow> propeller_error + string list" where
  "session_channels cfg tenant_id client_id dev =
     (if tenant_id = [] then Inl (InvalidArgument ''tenant id is required'')
      else if client_id = [] then Inl (InvalidArgument ''client id is required'')
      else case (if cc_enable_device_support cfg then dev else None) of
        None \<Rightarrow> Inr [client_channel tenant_id client_id]
      | Some d \<Rightarrow>
          if dv_id d = []
          then Inl (InvalidArgument ''device id is required when device support is enabled'')
          else Inr [client_channel tenant_id client_id, device_channel tenant_id client_id (dv_id d)])"

text \<open>
  \<open>sub_id\<close> is the id that the new subscription draws. A failure to store the device is logged
  and ignored; a failure to write its attributes as text drops the new subscription.
\<close>

definition store_device ::
    "('b, 'k) push_service \<Rightarrow> string \<Rightarrow> string \<Rightarrow> uuid \<Rightarrow> device \<Rightarrow> (('b, 'k) push_world, propeller_error, unit) io" where
  "store_device S tenant_id client_id sub dev =
     (case svc_write_attrs S (dv_attributes dev) of
        Inl e \<Rightarrow>
          io_bind (on_pubsub (io_modify (ps_drop (svc_pubsub S) sub))) (\<lambda>_. throw (Internal e))
      | Inr attrs_json \<Rightarrow>
          io_bind (io_try (on_kv (kv_store (svc_kv S) (kv_key tenant_id client_id) (dv_id dev) attrs_json)))
            (\<lambda>_. ret ()))"

definition subscribe_client ::
    "('b, 'k) push_service \<Rightarrow> uuid \<Rightarrow> string \<Rightarrow> string \<Rightarrow> device option \<Rightarrow>
     (('b, 'k) push_world, propeller_error, uuid) io" where
  "subscribe_client S sub_id tenant_id client_id dev =
     io_bind (io_lift (session_channels (svc_config S) tenant_id client_id dev)) (\<lambda>channels.
     io_bind (io_map_err Internal (on_pubsub (ps_subscribe (svc_pubsub S) sub_id channels))) (\<lambda>sub.
     io_bind (case (if cc_enable_device_support (svc_config S) then dev else None) of
                None \<Rightarrow> ret ()
              | Some d \<Rightarrow> store_device S tenant_id client_id sub d) (\<lambda>_.
     io_bind (on_metrics count_connection) (\<lambda>_.
     ret sub))))"

definition unsubscribe_client ::
    "('b, 'k) push_service \<Rightarrow> string \<Rightarrow> string \<Rightarrow> uuid \<Rightarrow> device option \<Rightarrow>
     (('b, 'k) push_world, propeller_error, unit) io" where
  "unsubscribe_client S tenant_id client_id sub dev =
     io_bind (case (if cc_enable_device_support (svc_config S) then dev else None) of
                None \<Rightarrow> ret ()
              | Some d \<Rightarrow> io_bind (io_try (on_kv (kv_delete (svc_kv S) (kv_key tenant_id client_id) [dv_id d])))
                  (\<lambda>_. ret ())) (\<lambda>_.
     io_bind (io_try (on_pubsub (ps_unsubscribe (svc_pubsub S) sub))) (\<lambda>_.
     on_metrics uncount_connection))"

section \<open>Publishing\<close>

definition publish_counted ::
    "('b, 'k) push_service \<Rightarrow> string \<Rightarrow> bytes \<Rightarrow> (('b, 'k) push_world, propeller_error, unit) io" where
  "publish_counted S channel data =
     io_bind (io_map_err BrokerError (on_pubsub (ps_publish (svc_pubsub S) channel data))) (\<lambda>_.
     on_metrics count_published)"

definition publish_to_client ::
    "('b, 'k) push_service \<Rightarrow> send_event_to_client_request \<Rightarrow> (('b, 'k) push_world, propeller_error, unit) io" where
  "publish_to_client S req =
     (if sc_tenant_id req = [] then throw (InvalidArgument ''tenant id is empty'')
      else if sc_client_id req = [] then throw (InvalidArgument ''client id is empty'')
      else if sc_event req = [] then throw (InvalidArgument ''event is empty'')
      else publish_counted S (client_channel (sc_tenant_id req) (sc_client_id req)) (sc_event req))"

definition publish_to_client_device ::
    "('b, 'k) push_service \<Rightarrow> send_event_to_client_device_request \<Rightarrow> (('b, 'k) push_world, propeller_error, unit) io" where
  "publish_to_client_device S req =
     (if \<not> cc_enable_device_support (svc_config S) then throw (FailedPrecondition ''device support is disabled'')
      else if sd_client_id req = [] then throw (InvalidArgument ''client id is empty'')
      else if sd_device_id req = [] then throw (InvalidArgument ''device id is empty'')
      else if sd_event req = [] then throw (InvalidArgument ''event is empty'')
      else publish_counted S (device_channel (sd_tenant_id req) (sd_client_id req) (sd_device_id req)) (sd_event req))"

definition publish_to_topic ::
    "('b, 'k) push_service \<Rightarrow> send_event_to_topic_request \<Rightarrow> (('b, 'k) push_world, propeller_error, unit) io" where
  "publish_to_topic S req =
     (if st_tenant_id req = [] then throw (InvalidArgument ''tenant id is empty'')
      else if st_topic req = [] then throw (InvalidArgument ''topic is empty'')
      else if st_event req = [] then throw (InvalidArgument ''event is empty'')
      else publish_counted S (topic_channel (st_tenant_id req) (st_topic req)) (st_event req))"

fun publish_to_topics ::
    "('b, 'k) push_service \<Rightarrow> send_event_to_topic_request list \<Rightarrow> (('b, 'k) push_world, propeller_error, unit) io" where
  "publish_to_topics S [] = ret ()"
| "publish_to_topics S (req # requests) =
     io_bind (publish_to_topic S req) (\<lambda>_. publish_to_topics S requests)"

section \<open>Topics and devices\<close>

definition topic_subscribe ::
    "('b, 'k) push_service \<Rightarrow> string \<Rightarrow> string \<Rightarrow> uuid \<Rightarrow> (('b, 'k) push_world, propeller_error, unit) io" where
  "topic_subscribe S tenant_id topic sub =
     (if topic = [] then throw (InvalidArgument ''topic is empty'')
      else if tenant_id = [] then throw (InvalidArgument ''tenant id is empty'')
      else io_map_err Internal (on_pubsub (ps_add_subscription (svc_pubsub S) (topic_channel tenant_id topic) sub)))"

definition topic_unsubscribe ::
    "('b, 'k) push_service \<Rightarrow> string \<Rightarrow> string \<Rightarrow> uuid \<Rightarrow> (('b, 'k) push_world, propeller_error, unit) io" where
  "topic_unsubscribe S tenant_id topic sub =
     (if topic = [] then throw (InvalidArgument ''topic is empty'')
      else if tenant_id = [] then throw (InvalidArgument ''tenant id is empty'')
      else io_map_err Internal (on_pubsub (ps_remove_subscription (svc_pubsub S) (topic_channel tenant_id topic) sub)))"

definition device_of_entry :: "('b, 'k) push_service \<Rightarrow> string \<times> string \<Rightarrow> device" where
  "device_of_entry S entry =
     \<lparr>dv_id = fst entry, dv_attributes = unwrap_or Map.empty (svc_read_attrs S (snd entry))\<rparr>"

definition get_active_devices ::
    "('b, 'k) push_service \<Rightarrow> get_active_devices_request \<Rightarrow> (('b, 'k) push_world, propeller_error, device list) io" where
  "get_active_devices S req =
     (if \<not> cc_enable_device_support (svc_config S) then throw (FailedPrecondition ''device support is disabled'')
      else if ga_client_id req = [] then throw (InvalidArgument ''client id is empty'')
      else if ga_tenant_id req = [] then throw (InvalidArgument ''tenant id is empty'')
      else io_bind (io_map_err Internal (on_kv (kv_load (svc_kv S) (kv_key (ga_tenant_id req) (ga_client_id req)))))
        (\<lambda>entries. ret (map (device_of_entry S) entries)))"

section \<open>On any broker and store that keep their contracts\<close>

locale push_contract =
  ps: pubsub "svc_pubsub S" topics pinv fresh +
  kv: key_value "svc_kv S" hash kinv
  for S :: "('b, 'k) push_service" and topics pinv fresh hash kinv
begin

definition winv :: "('b, 'k) push_world \<Rightarrow> bool" where
  "winv w \<longleftrightarrow> pinv (pw_pubsub w) \<and> kinv (pw_kv w)"

text \<open>Storing and deleting a device touch the store alone, keep its invariant and never fail.\<close>

lemma store_device_cases:
  assumes "winv w" and "store_device S t c i d w = (w', r)"
  obtains (unwritable) e where "svc_write_attrs S (dv_attributes d) = Inl e" "r = Inl (Internal e)"
      "w' = w\<lparr>pw_pubsub := ps_drop (svc_pubsub S) i (pw_pubsub w)\<rparr>" "winv w'"
    | (written) a k x where "svc_write_attrs S (dv_attributes d) = Inr a" "r = Inr ()"
      "kv_store (svc_kv S) (kv_key t c) (dv_id d) a (pw_kv w) = (k, x)" "w' = w\<lparr>pw_kv := k\<rparr>" "winv w'"
proof (cases "svc_write_attrs S (dv_attributes d)")
  case (Inl e)
  with assms have "r = Inl (Internal e)" "w' = w\<lparr>pw_pubsub := ps_drop (svc_pubsub S) i (pw_pubsub w)\<rparr>"
    by (simp_all add: store_device_def on_pubsub_def io_defs)
  with assms(1) ps.drop_inv show thesis by (intro unwritable [OF Inl]) (simp_all add: winv_def)
next
  case (Inr a)
  obtain k x where k: "kv_store (svc_kv S) (kv_key t c) (dv_id d) a (pw_kv w) = (k, x)"
    by (cases "kv_store (svc_kv S) (kv_key t c) (dv_id d) a (pw_kv w)")
  with Inr assms have "r = Inr ()" "w' = w\<lparr>pw_kv := k\<rparr>"
    by (simp_all add: store_device_def on_kv_def io_defs)
  with k assms(1) kv.store_inv [of "pw_kv w" "kv_key t c" "dv_id d" a] show thesis
    by (intro written [OF Inr]) (simp_all add: winv_def)
qed

lemma subscribe_client_ok:
  assumes "winv w" and "fresh i (pw_pubsub w)" and "subscribe_client S i t c d w = (w', Inr sub)"
  shows "sub = i \<and> winv w' \<and> topics (pw_pubsub w') = (topics (pw_pubsub w))(i \<mapsto> {}) \<and>
     pw_metrics w' = count_connection (pw_metrics w)"
proof -
  from assms(3) obtain chs where chs: "session_channels (svc_config S) t c d = Inr chs"
    by (cases "session_channels (svc_config S) t c d") (simp_all add: subscribe_client_def io_defs)
  obtain b x where b: "ps_subscribe (svc_pubsub S) i chs (pw_pubsub w) = (b, x)"
    by (cases "ps_subscribe (svc_pubsub S) i chs (pw_pubsub w)")
  with assms(3) chs obtain j where j: "x = Inr j"
    by (cases x) (simp_all add: subscribe_client_def on_pubsub_def io_defs)
  from assms(1) have "pinv (pw_pubsub w)" by (simp add: winv_def)
  from ps.subscribe_ok [OF this assms(2) b [unfolded j]] ps.subscribe_inv [OF this assms(2), of chs] b
  have ok: "j = i" "topics b = (topics (pw_pubsub w))(i \<mapsto> {})" "pinv b" by simp_all
  let ?w = "w\<lparr>pw_pubsub := b\<rparr>"
  have winv: "winv ?w" using assms(1) ok(3) by (simp add: winv_def)
  show ?thesis
  proof (cases "if cc_enable_device_support (svc_config S) then d else None")
    case None
    with assms(3) chs b j ok winv show ?thesis
      by (simp add: subscribe_client_def on_pubsub_def on_metrics_def io_defs) (auto simp: winv_def)
  next
    case (Some dev)
    obtain w2 r where s: "store_device S t c j dev ?w = (w2, r)" by (cases "store_device S t c j dev ?w")
    with assms(3) chs b j Some have "r = Inr ()" and w': "w' = w2\<lparr>pw_metrics := count_connection (pw_metrics w2)\<rparr>"
      "sub = j"
      by (auto simp: subscribe_client_def on_pubsub_def on_metrics_def io_defs split: sum.splits)
    from winv s show ?thesis
      by (cases rule: store_device_cases) (use w' ok \<open>r = Inr ()\<close> in \<open>auto simp: winv_def\<close>)
  qed
qed

lemma subscribe_client_err:
  assumes "winv w" and "fresh i (pw_pubsub w)" and "subscribe_client S i t c d w = (w', Inl e)"
  shows "winv w' \<and> pw_metrics w' = pw_metrics w"
proof (cases "session_channels (svc_config S) t c d")
  case (Inl e')
  with assms show ?thesis by (simp add: subscribe_client_def io_defs)
next
  case chs: (Inr chs)
  obtain b x where b: "ps_subscribe (svc_pubsub S) i chs (pw_pubsub w) = (b, x)"
    by (cases "ps_subscribe (svc_pubsub S) i chs (pw_pubsub w)")
  let ?w = "w\<lparr>pw_pubsub := b\<rparr>"
  from assms(1) have "pinv (pw_pubsub w)" by (simp add: winv_def)
  from ps.subscribe_inv [OF this assms(2), of chs] b assms(1) have winv: "winv ?w" by (simp add: winv_def)
  show ?thesis
  proof (cases x)
    case (Inl e')
    with assms(3) chs b winv show ?thesis by (auto simp: subscribe_client_def on_pubsub_def io_defs)
  next
    case j: (Inr j)
    then obtain dev where Some: "(if cc_enable_device_support (svc_config S) then d else None) = Some dev"
      using assms(3) chs b
      by (cases "if cc_enable_device_support (svc_config S) then d else None")
        (simp_all add: subscribe_client_def on_pubsub_def on_metrics_def io_defs)
    obtain w2 r where s: "store_device S t c j dev ?w = (w2, r)" by (cases "store_device S t c j dev ?w")
    with assms(3) chs b j Some have r: "r = Inl e" and w': "w' = w2"
      by (auto simp: subscribe_client_def on_pubsub_def on_metrics_def io_defs split: sum.splits)
    from winv s show ?thesis by (cases rule: store_device_cases) (use r w' in auto)
  qed
qed

lemma unsubscribe_client_ok:
  assumes "winv w"
  obtains w' where "unsubscribe_client S t c i d w = (w', Inr ())" and "winv w'"
    and "topics (pw_pubsub w') = (topics (pw_pubsub w))(i := None)"
    and "pw_metrics w' = uncount_connection (pw_metrics w)"
    and "\<And>dev k. (if cc_enable_device_support (svc_config S) then d else None) = Some dev \<Longrightarrow>
           kv_delete (svc_kv S) (kv_key t c) [dv_id dev] (pw_kv w) = (k, Inr ()) \<Longrightarrow> pw_kv w' = k"
proof -
  let ?m = "case (if cc_enable_device_support (svc_config S) then d else None) of
                None \<Rightarrow> ret ()
              | Some dv \<Rightarrow> io_bind (io_try (on_kv (kv_delete (svc_kv S) (kv_key t c) [dv_id dv]))) (\<lambda>_. ret ())"
  obtain k where m: "(?m w :: ('b, 'k) push_world \<times> (propeller_error + unit)) = (w\<lparr>pw_kv := k\<rparr>, Inr ())" and k: "kinv k"
    and k': "\<And>dev k'. (if cc_enable_device_support (svc_config S) then d else None) = Some dev \<Longrightarrow>
           kv_delete (svc_kv S) (kv_key t c) [dv_id dev] (pw_kv w) = (k', Inr ()) \<Longrightarrow> k = k'"
  proof (cases "if cc_enable_device_support (svc_config S) then d else None")
    case None
    with assms that [of "pw_kv w"] show thesis by (simp add: winv_def ret_def)
  next
    case (Some dv)
    let ?k = "kv_delete (svc_kv S) (kv_key t c) [dv_id dv] (pw_kv w)"
    from Some assms that [of "fst ?k"] kv.delete_inv [of "pw_kv w" "kv_key t c" "[dv_id dv]"]
    show thesis by (cases ?k) (simp add: winv_def on_kv_def io_defs)
  qed
  from assms have "pinv (pw_pubsub w)" by (simp add: winv_def)
  from ps.unsubscribe_ok [OF this, of i] ps.unsubscribe_inv [OF this, of i] obtain b
    where b: "ps_unsubscribe (svc_pubsub S) i (pw_pubsub w) = (b, Inr ())"
      "topics b = (topics (pw_pubsub w))(i := None)" "pinv b" by auto
  let ?w = "w\<lparr>pw_kv := k, pw_pubsub := b, pw_metrics := uncount_connection (pw_metrics w)\<rparr>"
  have "unsubscribe_client S t c i d w = (?w, Inr ())"
    unfolding unsubscribe_client_def io_bind_Inr [of ?m, OF m]
    using b by (simp add: on_pubsub_def on_metrics_def io_defs)
  then show thesis
    by (rule that) (use b k k' in \<open>simp_all add: winv_def\<close>)
qed

lemma topic_subscribe_keeps:
  assumes "winv w" and "topic_subscribe S t topic i w = (w', r)"
  shows "winv w' \<and> pw_metrics w' = pw_metrics w \<and> (\<forall>j. j \<noteq> i \<longrightarrow> topics (pw_pubsub w') j = topics (pw_pubsub w) j)"
proof (cases "topic = [] \<or> t = []")
  case True
  with assms show ?thesis by (auto simp: topic_subscribe_def throw_def split: if_splits)
next
  case False
  obtain b x where b: "ps_add_subscription (svc_pubsub S) (topic_channel t topic) i (pw_pubsub w) = (b, x)"
    by (cases "ps_add_subscription (svc_pubsub S) (topic_channel t topic) i (pw_pubsub w)")
  with False assms(2) have w': "w' = w\<lparr>pw_pubsub := b\<rparr>"
    by (auto simp: topic_subscribe_def on_pubsub_def io_defs)
  from assms(1) have inv: "pinv (pw_pubsub w)" by (simp add: winv_def)
  from ps.add_inv [OF inv, of "topic_channel t topic" i] b have "pinv b" by simp
  moreover have "\<forall>j. j \<noteq> i \<longrightarrow> topics b j = topics (pw_pubsub w) j"
    using b ps.add_ok [OF inv, of "topic_channel t topic" i b] ps.add_err [OF inv, of "topic_channel t topic" i b]
    by (cases x) auto
  ultimately show ?thesis using assms(1) w' by (simp add: winv_def)
qed

lemma topic_unsubscribe_keeps:
  assumes "winv w" and "topic_unsubscribe S t topic i w = (w', r)"
  shows "winv w' \<and> pw_metrics w' = pw_metrics w \<and> (\<forall>j. j \<noteq> i \<longrightarrow> topics (pw_pubsub w') j = topics (pw_pubsub w) j)"
proof (cases "topic = [] \<or> t = []")
  case True
  with assms show ?thesis by (auto simp: topic_unsubscribe_def throw_def split: if_splits)
next
  case False
  obtain b x where b: "ps_remove_subscription (svc_pubsub S) (topic_channel t topic) i (pw_pubsub w) = (b, x)"
    by (cases "ps_remove_subscription (svc_pubsub S) (topic_channel t topic) i (pw_pubsub w)")
  with False assms(2) have w': "w' = w\<lparr>pw_pubsub := b\<rparr>"
    by (auto simp: topic_unsubscribe_def on_pubsub_def io_defs)
  from assms(1) have inv: "pinv (pw_pubsub w)" by (simp add: winv_def)
  from ps.remove_inv [OF inv, of "topic_channel t topic" i] b have "pinv b" by simp
  moreover have "\<forall>j. j \<noteq> i \<longrightarrow> topics b j = topics (pw_pubsub w) j"
  proof (cases "topics (pw_pubsub w) i")
    case None
    with ps.remove_err [OF inv, where i = i and ch = "topic_channel t topic"] b show ?thesis by auto
  next
    case (Some T)
    with ps.remove_err [OF inv, where i = i and ch = "topic_channel t topic"]
      ps.remove_ok [OF inv Some, where ch = "topic_channel t topic"] b
    show ?thesis by (cases "topic_channel t topic \<in> T") auto
  qed
  ultimately show ?thesis using assms(1) w' by (simp add: winv_def)
qed

lemma get_active_devices_entries:
  assumes "winv w" and "get_active_devices S req w = (w', Inr ds)"
  obtains es where "ds = map (device_of_entry S) es"
    and "map_of es = hash (pw_kv w) (kv_key (ga_tenant_id req) (ga_client_id req))"
proof -
  let ?key = "kv_key (ga_tenant_id req) (ga_client_id req)"
  obtain k x where k: "kv_load (svc_kv S) ?key (pw_kv w) = (k, x)" by (cases "kv_load (svc_kv S) ?key (pw_kv w)")
  with assms(2) obtain es where es: "x = Inr es" "ds = map (device_of_entry S) es"
    by (cases x) (auto simp: get_active_devices_def on_kv_def io_defs split: if_splits)
  from assms(1) have "kinv (pw_kv w)" by (simp add: winv_def)
  from kv.load_ok [OF this k [unfolded es(1)]] es(2) that show thesis by blast
qed

lemma subscribed_device_is_listed:
  assumes "winv w" and "fresh i (pw_pubsub w)" and "cc_enable_device_support (svc_config S)"
    and "subscribe_client S i t c (Some d) w = (w1, Inr sub)"
    and "svc_write_attrs S (dv_attributes d) = Inr a" and "svc_read_attrs S a = Some (dv_attributes d)"
    and "kv_store (svc_kv S) (kv_key t c) (dv_id d) a (pw_kv w) = (k, Inr ())"
    and "get_active_devices S \<lparr>ga_tenant_id = t, ga_client_id = c\<rparr> w1 = (w2, Inr ds)"
  shows "d \<in> set ds"
proof -
  from assms(4) obtain chs where chs: "session_channels (svc_config S) t c (Some d) = Inr chs"
    by (cases "session_channels (svc_config S) t c (Some d)") (simp_all add: subscribe_client_def io_defs)
  obtain b x where b: "ps_subscribe (svc_pubsub S) i chs (pw_pubsub w) = (b, x)"
    by (cases "ps_subscribe (svc_pubsub S) i chs (pw_pubsub w)")
  with assms(3-5,7) chs have k: "pw_kv w1 = k"
    by (cases x) (auto simp: subscribe_client_def store_device_def on_pubsub_def on_kv_def on_metrics_def io_defs)
  from subscribe_client_ok [OF assms(1,2,4)] have "winv w1" by simp
  from get_active_devices_entries [OF this assms(8)] k obtain es
    where es: "ds = map (device_of_entry S) es" "map_of es = hash k (kv_key t c)" by auto
  from assms(1) have "kinv (pw_kv w)" by (simp add: winv_def)
  from kv.store_ok [OF this assms(7)] es(2) have "map_of es (dv_id d) = Some a" by simp
  then have "(dv_id d, a) \<in> set es" by (rule map_of_SomeD)
  moreover have "device_of_entry S (dv_id d, a) = d" using assms(6) by (simp add: device_of_entry_def)
  ultimately show ?thesis using es(1) by force
qed

lemma unsubscribed_device_is_not_listed:
  assumes "winv w" and "cc_enable_device_support (svc_config S)"
    and "kv_delete (svc_kv S) (kv_key t c) [dv_id d] (pw_kv w) = (k, Inr ())"
    and "get_active_devices S \<lparr>ga_tenant_id = t, ga_client_id = c\<rparr>
           (fst (unsubscribe_client S t c i (Some d) w)) = (w2, Inr ds)"
  shows "dv_id d \<notin> dv_id ` set ds"
proof -
  from unsubscribe_client_ok [OF assms(1)] obtain w1 where
    w1: "unsubscribe_client S t c i (Some d) w = (w1, Inr ())" "winv w1" "pw_kv w1 = k"
    using assms(2,3) by (metis (no_types, lifting))
  from get_active_devices_entries [OF w1(2), of "\<lparr>ga_tenant_id = t, ga_client_id = c\<rparr>"] assms(4) w1
  obtain es where es: "ds = map (device_of_entry S) es" "map_of es = hash k (kv_key t c)" by auto
  from assms(1) have "kinv (pw_kv w)" by (simp add: winv_def)
  from kv.delete_ok [OF this assms(3)] es(2) have "map_of es (dv_id d) = None" by simp
  then have "dv_id d \<notin> fst ` set es" by (simp add: map_of_eq_None_iff)
  with es(1) show ?thesis by (force simp: device_of_entry_def)
qed

end

section \<open>The service as it is wired: both on Redis\<close>

definition redis_push_service ::
    "'r redis_pubsub_client \<Rightarrow> 'k redis_hashes \<Rightarrow> client_config \<Rightarrow>
     ((string \<Rightarrow> string option) \<Rightarrow> string + string) \<Rightarrow> (string \<Rightarrow> (string \<Rightarrow> string option) option) \<Rightarrow>
     ('r redis_pubsub, 'k) push_service" where
  "redis_push_service R H cfg write_attrs read_attrs =
     \<lparr>svc_pubsub = redis_pubsub_ops R, svc_kv = redis_kv H, svc_config = cfg,
      svc_write_attrs = write_attrs, svc_read_attrs = read_attrs\<rparr>"

lemma redis_push_service_simps [simp]:
  "svc_pubsub (redis_push_service R H cfg wr rd) = redis_pubsub_ops R"
  "svc_kv (redis_push_service R H cfg wr rd) = redis_kv H"
  "svc_config (redis_push_service R H cfg wr rd) = cfg"
  "svc_write_attrs (redis_push_service R H cfg wr rd) = wr"
  "svc_read_attrs (redis_push_service R H cfg wr rd) = rd"
  by (simp_all add: redis_push_service_def)

interpretation redis_push: push_contract "redis_push_service R H cfg wr rd" sub_topics pubsub_inv fresh_id
    hash "\<lambda>_. hashes_ok H hash"
  for R :: "'r redis_pubsub_client" and H :: "'k redis_hashes" and cfg wr rd
    and hash :: "'k \<Rightarrow> string \<Rightarrow> string \<rightharpoonup> string"
  by (simp only: push_contract_def redis_push_service_simps redis_ps.pubsub_axioms redis_kv.key_value_axioms
      simp_thms)

lemma redis_winv: "redis_push.winv H hash w \<longleftrightarrow> pubsub_inv (pw_pubsub w) \<and> hashes_ok H hash"
  by (rule redis_push.winv_def)

section \<open>Devices\<close>

text \<open>
  A device whose client has connected is listed among the client's active devices, with the
  attributes it connected with, if the store answered.
\<close>

theorem connected_device_is_active:
  fixes H :: "'k redis_hashes"
  assumes "hashes_ok H hash" and "pubsub_inv (pw_pubsub w)" and "fresh_id i (pw_pubsub w)"
    and "cc_enable_device_support cfg"
    and "wr (dv_attributes d) = Inr a" and "rd a = Some (dv_attributes d)"
    and "snd (rh_hset H (kv_key t c) (dv_id d) a (pw_kv w)) = Inr ()"
    and "subscribe_client (redis_push_service R H cfg wr rd) i t c (Some d) w = (w1, Inr sub)"
    and "get_active_devices (redis_push_service R H cfg wr rd) \<lparr>ga_tenant_id = t, ga_client_id = c\<rparr> w1 = (w2, Inr ds)"
  shows "d \<in> set ds"
proof -
  let ?S = "redis_push_service R H cfg wr rd"
  obtain k where "rh_hset H (kv_key t c) (dv_id d) a (pw_kv w) = (k, Inr ())"
    using assms(7) by (cases "rh_hset H (kv_key t c) (dv_id d) a (pw_kv w)") auto
  then have "kv_store (svc_kv ?S) (kv_key t c) (dv_id d) a (pw_kv w) = (k, Inr ())"
    by (simp add: redis_kv_def redis_kv_store_def io_map_err_def)
  moreover from assms(1,2) have winv: "redis_push.winv H hash w"
    by (intro redis_winv [THEN iffD2] conjI)
  ultimately show ?thesis
    by (intro redis_push.subscribed_device_is_listed [OF winv assms(3) _ assms(8) _ _ _ assms(9)])
      (simp_all add: assms(4-6))
qed

text \<open>
  C35: When a session ends, its device is taken off the list even if another session of the same
  device is still connected, as after a reconnect that overlaps the old connection: the client
  then counts as offline on that device although its channel is live.
\<close>

theorem old_session_unlists_reconnected_device:
  fixes H :: "'k redis_hashes"
  assumes "hashes_ok H hash" and "pubsub_inv (pw_pubsub w)"
    and "rp_subs (pw_pubsub w) new_session = Some entry" and "old_session \<noteq> new_session"
    and "cc_enable_device_support cfg" and "snd (rh_hdel H (kv_key t c) (dv_id d) (pw_kv w)) = Inr ()"
    and "unsubscribe_client (redis_push_service R H cfg wr rd) t c old_session (Some d) w = (w1, u)"
    and "get_active_devices (redis_push_service R H cfg wr rd) \<lparr>ga_tenant_id = t, ga_client_id = c\<rparr> w1 = (w2, Inr ds)"
  shows "dv_id d \<notin> dv_id ` set ds \<and> sub_topics (pw_pubsub w1) new_session = sub_topics (pw_pubsub w) new_session \<and>
     rp_subs (pw_pubsub w1) new_session \<noteq> None"
proof
  let ?S = "redis_push_service R H cfg wr rd"
  obtain k where "rh_hdel H (kv_key t c) (dv_id d) (pw_kv w) = (k, Inr ())"
    using assms(6) by (cases "rh_hdel H (kv_key t c) (dv_id d) (pw_kv w)") auto
  then have del: "kv_delete (svc_kv ?S) (kv_key t c) [dv_id d] (pw_kv w) = (k, Inr ())"
    by (simp add: redis_kv_def io_defs)
  from assms(1,2) have winv: "redis_push.winv H hash w"
    by (intro redis_winv [THEN iffD2] conjI)
  from assms(5) have dev: "cc_enable_device_support (svc_config ?S)" by simp
  from redis_push.unsubscribed_device_is_not_listed [OF winv dev del, of old_session w2 ds] assms(7,8)
  show "dv_id d \<notin> dv_id ` set ds" by simp
  from redis_push.unsubscribe_client_ok [OF winv, of R cfg wr rd t c old_session "Some d"] assms(7)
  have top: "sub_topics (pw_pubsub w1) = (sub_topics (pw_pubsub w))(old_session := None)" by auto
  with assms(3,4) show "sub_topics (pw_pubsub w1) new_session = sub_topics (pw_pubsub w) new_session \<and>
     rp_subs (pw_pubsub w1) new_session \<noteq> None"
    by (auto simp: sub_topics_def dest!: fun_cong [where x = new_session])
qed

section \<open>Batches\<close>

definition topic_request_ok :: "send_event_to_topic_request \<Rightarrow> bool" where
  "topic_request_ok req \<longleftrightarrow> st_tenant_id req \<noteq> [] \<and> st_topic req \<noteq> [] \<and> st_event req \<noteq> []"

definition topic_message :: "send_event_to_topic_request \<Rightarrow> string \<times> bytes" where
  "topic_message req = (topic_channel (st_tenant_id req) (st_topic req), st_event req)"

text \<open>
  \<open>records_publishes R log\<close>: the server answers every publish, and \<open>log\<close> is what was published.
\<close>

definition records_publishes :: "'r redis_pubsub_client \<Rightarrow> ('r \<Rightarrow> (string \<times> bytes) list) \<Rightarrow> bool" where
  "records_publishes R log \<longleftrightarrow>
     (\<forall>ch d r. snd (rc_publish R ch d r) = Inr () \<and> log (fst (rc_publish R ch d r)) = log r @ [(ch, d)])"

definition published :: "('r \<Rightarrow> (string \<times> bytes) list) \<Rightarrow> ('r redis_pubsub, 'k) push_world \<Rightarrow> (string \<times> bytes) list" where
  "published log w = log (rp_redis (pw_pubsub w))"

lemma publish_counted_records:
  assumes "records_publishes R log"
  obtains w' where "publish_counted (redis_push_service R H cfg wr rd) ch d w = (w', Inr ())"
    and "published log w' = published log w @ [(ch, d)]"
    and "m_messages_published (pw_metrics w') = m_messages_published (pw_metrics w) + 1"
proof -
  obtain r x where r: "rc_publish R ch d (rp_redis (pw_pubsub w)) = (r, x)"
    by (cases "rc_publish R ch d (rp_redis (pw_pubsub w))")
  with assms have x: "x = Inr ()" and l: "log r = log (rp_redis (pw_pubsub w)) @ [(ch, d)]"
    unfolding records_publishes_def by (metis snd_conv, metis fst_conv)
  let ?w = "w\<lparr>pw_pubsub := (pw_pubsub w)\<lparr>rp_redis := r\<rparr>, pw_metrics := count_published (pw_metrics w)\<rparr>"
  have "publish_counted (redis_push_service R H cfg wr rd) ch d w = (?w, Inr ())"
    using r x by (simp add: publish_counted_def on_pubsub_def on_metrics_def redis_pubsub_ops_def
        redis_publish_def on_redis_def io_defs)
  then show thesis
    by (rule that) (simp_all add: published_def l count_published_def fetch_add1_def)
qed

text \<open>
  A batch of topic events is not atomic. It is sent in order up to the first request that is
  invalid: the requests before that one are published and counted, it and the ones after are
  not, and the caller gets only the error.
\<close>

theorem batch_stops_at_first_invalid:
  assumes "records_publishes R log"
    and "publish_to_topics (redis_push_service R H cfg wr rd) reqs w = (w', res)"
  shows "published log w' = published log w @ map topic_message (takeWhile topic_request_ok reqs) \<and>
     (res = Inr () \<longleftrightarrow> list_all topic_request_ok reqs) \<and>
     m_messages_published (pw_metrics w') =
       m_messages_published (pw_metrics w) + of_nat (length (takeWhile topic_request_ok reqs))"
  using assms(2)
proof (induction reqs arbitrary: w)
  case Nil
  then show ?case by (simp add: ret_def)
next
  case (Cons req reqs)
  let ?S = "redis_push_service R H cfg wr rd"
  show ?case
  proof (cases "topic_request_ok req")
    case True
    obtain w1 where w1: "publish_counted ?S (topic_channel (st_tenant_id req) (st_topic req)) (st_event req) w = (w1, Inr ())"
      "published log w1 = published log w @ [topic_message req]"
      "m_messages_published (pw_metrics w1) = m_messages_published (pw_metrics w) + 1"
      by (rule publish_counted_records [OF assms(1)]) (auto simp: topic_message_def)
    with True have "publish_to_topic ?S req w = (w1, Inr ())"
      by (simp add: publish_to_topic_def topic_request_ok_def)
    with Cons.prems have "publish_to_topics ?S reqs w1 = (w', res)" by (simp add: io_bind_def)
    from Cons.IH [OF this] w1 True show ?thesis by simp
  next
    case False
    then have "\<exists>e. publish_to_topic ?S req w = (w, Inl e)"
      by (auto simp: publish_to_topic_def topic_request_ok_def throw_def)
    then obtain e where "publish_to_topic ?S req w = (w, Inl e)" ..
    with Cons.prems have "w' = w" "res = Inl e" by (simp_all add: io_bind_def)
    with False show ?thesis by simp
  qed
qed

section \<open>Witnesses\<close>

text \<open>A Redis client that records what is published, and a service on in-memory servers.\<close>

definition recording_client :: "(string \<times> bytes) list redis_pubsub_client" where
  "recording_client = \<lparr>rc_get_async_pubsub = ret (), rc_subscribe = (\<lambda>_. ret ()),
     rc_publish = (\<lambda>ch d r. (r @ [(ch, d)], Inr ())), rc_uuid_text = (\<lambda>_. ''id'')\<rparr>"

lemma recording_client_records: "records_publishes recording_client (\<lambda>r. r)"
  by (simp add: records_publishes_def recording_client_def)

definition demo_service :: "((string \<times> bytes) list redis_pubsub, hash_server) push_service" where
  "demo_service = redis_push_service recording_client memory_hashes shipped_client
     (\<lambda>_. Inr ''{}'') (\<lambda>_. Some Map.empty)"

definition demo_world :: "((string \<times> bytes) list redis_pubsub, hash_server) push_world" where
  "demo_world = \<lparr>pw_pubsub = redis_pubsub_new [], pw_kv = [], pw_metrics = metrics_new\<rparr>"

definition demo_device :: device where
  "demo_device = \<lparr>dv_id = ''phone'', dv_attributes = Map.empty\<rparr>"

lemma demo_subscribe:
  assumes "kv_store (redis_kv memory_hashes) (kv_key ''t'' ''c'') ''phone'' ''{}'' (pw_kv w) = (k, Inr ())"
  shows "subscribe_client demo_service i ''t'' ''c'' (Some demo_device) w =
     (w\<lparr>pw_pubsub := spawn_main i [client_channel ''t'' ''c'', device_channel ''t'' ''c'' ''phone''] (register i (pw_pubsub w)),
        pw_kv := k, pw_metrics := count_connection (pw_metrics w)\<rparr>, Inr i)"
  using assms
  by (simp add: subscribe_client_def session_channels_def demo_service_def demo_device_def shipped_client_def
      store_device_def on_pubsub_def on_kv_def on_metrics_def redis_pubsub_ops_def redis_subscribe_def
      open_pubsub_def on_redis_def recording_client_def io_defs register_def)

definition demo_kv :: hash_server where
  "demo_kv = [(kv_key ''t'' ''c'', ''phone'', ''{}'')]"

lemma demo_store:
  "kv_store (redis_kv memory_hashes) (kv_key ''t'' ''c'') ''phone'' ''{}'' [] = (demo_kv, Inr ())"
  "kv_store (redis_kv memory_hashes) (kv_key ''t'' ''c'') ''phone'' ''{}'' demo_kv = (demo_kv, Inr ())"
  by (simp_all add: redis_kv_def redis_kv_store_def memory_hashes_def io_map_err_def demo_kv_def server_remove_def)

definition demo_connected :: "((string \<times> bytes) list redis_pubsub, hash_server) push_world" where
  "demo_connected = fst (subscribe_client demo_service 1 ''t'' ''c'' (Some demo_device) demo_world)"

definition demo_reconnected :: "((string \<times> bytes) list redis_pubsub, hash_server) push_world" where
  "demo_reconnected = fst (subscribe_client demo_service 2 ''t'' ''c'' (Some demo_device) demo_connected)"

lemma demo_connect_result:
  "subscribe_client demo_service 1 ''t'' ''c'' (Some demo_device) demo_world = (demo_connected, Inr 1)"
  using demo_subscribe [of demo_world demo_kv 1] demo_store(1)
  by (simp add: demo_connected_def demo_world_def)

lemma demo_connected_kv: "pw_kv demo_connected = demo_kv"
  using demo_subscribe [of demo_world demo_kv 1] demo_store(1)
  by (simp add: demo_connected_def demo_world_def)

lemma demo_reconnect_result:
  "subscribe_client demo_service 2 ''t'' ''c'' (Some demo_device) demo_connected = (demo_reconnected, Inr 2)"
  using demo_subscribe [of demo_connected demo_kv 2] demo_store(2)
  by (simp add: demo_reconnected_def demo_connected_kv)

lemma demo_fresh: "fresh_id 1 (pw_pubsub demo_world)" "fresh_id 2 (pw_pubsub demo_connected)"
  using demo_subscribe [of demo_world demo_kv 1] demo_store(1)
  by (simp_all add: demo_connected_def demo_world_def fresh_id_def redis_pubsub_new_def register_def spawn_main_def)

lemma demo_reconnected_state:
  "pubsub_inv (pw_pubsub demo_reconnected) \<and> rp_subs (pw_pubsub demo_reconnected) 2 \<noteq> None"
proof -
  have w0: "redis_push.winv memory_hashes memory_hash demo_world"
    by (intro redis_winv [THEN iffD2] conjI memory_hashes_ok) (simp add: demo_world_def inv_new)
  note sub = redis_push.subscribe_client_ok [where R = recording_client and H = memory_hashes
      and cfg = shipped_client and wr = "\<lambda>_. Inr ''{}''" and rd = "\<lambda>_. Some Map.empty", folded demo_service_def]
  from sub [OF w0 demo_fresh(1) demo_connect_result]
  have w1: "redis_push.winv memory_hashes memory_hash demo_connected" by (elim conjE)
  note c = sub [OF w1 demo_fresh(2) demo_reconnect_result]
  from c have w2: "redis_push.winv memory_hashes memory_hash demo_reconnected" by (elim conjE)
  from c have t: "sub_topics (pw_pubsub demo_reconnected) = (sub_topics (pw_pubsub demo_connected))(2 \<mapsto> {})"
    by (elim conjE)
  from w2 have "pubsub_inv (pw_pubsub demo_reconnected)" by (rule redis_winv [THEN iffD1, THEN conjunct1])
  moreover from fun_cong [OF t, of 2] have "sub_topics (pw_pubsub demo_reconnected) 2 = Some {}" by simp
  ultimately show ?thesis by (auto simp: sub_topics_def)
qed

lemma demo_get:
  "get_active_devices demo_service \<lparr>ga_tenant_id = ''t'', ga_client_id = ''c''\<rparr> w =
     (w, Inr (map (device_of_entry demo_service) (AList.clearjunk (server_hash (pw_kv w) (kv_key ''t'' ''c'')))))"
  by (simp add: get_active_devices_def demo_service_def shipped_client_def on_kv_def redis_kv_def redis_kv_load_def
      memory_hashes_def io_defs)

theorem connected_device_is_active_witness:
  "\<exists>w ds. get_active_devices demo_service \<lparr>ga_tenant_id = ''t'', ga_client_id = ''c''\<rparr> demo_connected = (w, Inr ds) \<and>
     demo_device \<in> set ds"
proof -
  have "demo_device \<in> set (map (device_of_entry demo_service)
      (AList.clearjunk (server_hash (pw_kv demo_connected) (kv_key ''t'' ''c''))))"
    by (rule connected_device_is_active [where d = demo_device and i = 1 and w = demo_world, OF memory_hashes_ok _ _ _ _ _ _
          demo_connect_result [unfolded demo_service_def] demo_get [unfolded demo_service_def], folded demo_service_def])
      (simp_all add: inv_new demo_world_def memory_hashes_def shipped_client_def demo_device_def
        demo_fresh [unfolded demo_world_def, simplified])
  then show ?thesis by (simp only: demo_get) blast
qed

theorem old_session_unlists_reconnected_device_witness:
  "\<exists>w ds. get_active_devices demo_service \<lparr>ga_tenant_id = ''t'', ga_client_id = ''c''\<rparr>
       (fst (unsubscribe_client demo_service ''t'' ''c'' 1 (Some demo_device) demo_reconnected)) = (w, Inr ds) \<and>
     dv_id demo_device \<notin> dv_id ` set ds"
proof -
  obtain w1 u where u: "unsubscribe_client demo_service ''t'' ''c'' 1 (Some demo_device) demo_reconnected = (w1, u)"
    by (cases "unsubscribe_client demo_service ''t'' ''c'' 1 (Some demo_device) demo_reconnected")
  from demo_reconnected_state obtain entry where e: "rp_subs (pw_pubsub demo_reconnected) 2 = Some entry"
    and i: "pubsub_inv (pw_pubsub demo_reconnected)" by auto
  have "cc_enable_device_support shipped_client" by (simp add: shipped_client_def)
  moreover have "snd (rh_hdel memory_hashes (kv_key ''t'' ''c'') (dv_id demo_device) (pw_kv demo_reconnected)) = Inr ()"
    by (simp add: memory_hashes_def)
  ultimately show ?thesis
    using old_session_unlists_reconnected_device [OF memory_hashes_ok i e _ _ _ u [unfolded demo_service_def]
        demo_get [unfolded demo_service_def], folded demo_service_def] u demo_get
    by simp
qed

definition demo_batch :: "send_event_to_topic_request list" where
  "demo_batch =
     [\<lparr>st_tenant_id = ''t'', st_topic = ''a'', st_event_name = [], st_event = [1]\<rparr>,
      \<lparr>st_tenant_id = ''t'', st_topic = [], st_event_name = [], st_event = [2]\<rparr>,
      \<lparr>st_tenant_id = ''t'', st_topic = ''b'', st_event_name = [], st_event = [3]\<rparr>]"

theorem batch_stops_at_first_invalid_witness:
  "snd (publish_to_topics demo_service demo_batch demo_world) \<noteq> Inr () \<and>
   published (\<lambda>r. r) (fst (publish_to_topics demo_service demo_batch demo_world)) = [(topic_channel ''t'' ''a'', [1])]"
proof -
  obtain w' res where r: "publish_to_topics demo_service demo_batch demo_world = (w', res)"
    by (cases "publish_to_topics demo_service demo_batch demo_world")
  have "published (\<lambda>r. r) demo_world = []" by (simp add: published_def demo_world_def redis_pubsub_new_def)
  with batch_stops_at_first_invalid [OF recording_client_records r [unfolded demo_service_def]]
  show ?thesis by (simp add: r) (simp add: demo_batch_def topic_request_ok_def topic_message_def)
qed

end
