(* ===== verification/Grpc.thy ===== *)
theory Grpc
  imports Push
begin

text \<open>
  The gRPC side of the realtime gateway (\<open>approach-2/src/server/grpc_handler.rs\<close>): the
  bidirectional channel with its keepalive, and the unary calls of publishers and clients.

  The messages are those of \<open>proto/push.proto\<close> as far as the handler looks at them. Metadata
  is read by name as in theory \<open>Auth\<close>. Times are nanoseconds on the monotonic clock. The
  channel is a loop over inputs; which of the ready branches \<open>select!\<close> takes is not specified,
  so a session is a list of inputs in any order. The response queue holds 128 messages, and a
  full one makes the loop wait; the model does not bound it.
\<close>

section \<open>Messages\<close>

record response_status =
  rs_success :: bool
  rs_error_code :: string
  rs_message :: "string \<Rightarrow> string option"
  rs_error_type :: string

datatype channel_request =
    TopicSubscriptionReq string
  | TopicUnsubscriptionReq string
  | ChannelEventReq
  | ChannelEventAckReq

datatype channel_response =
    ConnectAckResp response_status
  | ChannelEventResp string bytes
  | TopicSubscriptionAckResp string response_status
  | TopicUnsubscriptionAckResp string response_status

record proto_event =
  pe_name :: string
  pe_data :: bytes

definition ok_status :: response_status where
  "ok_status = \<lparr>rs_success = True, rs_error_code = [], rs_message = Map.empty, rs_error_type = []\<rparr>"

definition err_status :: "string \<Rightarrow> response_status" where
  "err_status err = \<lparr>rs_success = False, rs_error_code = [], rs_message = [''message'' \<mapsto> err], rs_error_type = []\<rparr>"

definition extract_event :: "proto_event option \<Rightarrow> bytes \<times> string" where
  "extract_event event = (case event of Some e \<Rightarrow> (pe_data e, pe_name e) | None \<Rightarrow> ([], []))"

section \<open>The handler\<close>

text \<open>The counters are in the shared state; \<open>gh_lib\<close> are the parameters of the token check.\<close>

record ('b, 'k) grpc_handler =
  gh_push_service :: "('b, 'k) push_service"
  gh_lib :: auth_lib
  gh_auth :: auth_config
  gh_client_config :: client_config
  gh_keepalive :: keepalive_config

definition device_attributes :: "client_config \<Rightarrow> headers \<Rightarrow> string \<Rightarrow> string option" where
  "device_attributes cfg metadata =
     fold (\<lambda>key attrs. case metadata key of Some val \<Rightarrow> attrs(key \<mapsto> val) | None \<Rightarrow> attrs)
       (cc_device_attribute_headers cfg) Map.empty"

definition extract_device :: "client_config \<Rightarrow> headers \<Rightarrow> device option" where
  "extract_device cfg metadata =
     (if \<not> cc_enable_device_support cfg then None
      else let device_id = unwrap_or [] (metadata (cc_device_header cfg)) in
        if device_id = [] then None
        else Some \<lparr>dv_id = device_id, dv_attributes = device_attributes cfg metadata\<rparr>)"

definition auth_client ::
    "('b, 'k) grpc_handler \<Rightarrow> u64 option \<Rightarrow> headers \<Rightarrow> status + auth_context \<times> bool" where
  "auth_client H clock metadata =
     map_sum status_of id (authenticate_grpc (gh_lib H) (gh_auth H) clock metadata (gh_client_config H))"

definition authorize_publisher ::
    "('b, 'k) grpc_handler \<Rightarrow> u64 option \<Rightarrow> headers \<Rightarrow> status + auth_context" where
  "authorize_publisher H clock metadata =
     res_bind (map_sum status_of id (authorize_api_key_grpc (gh_auth H) metadata)) (\<lambda>_.
     res_bind (auth_client H clock metadata) (\<lambda>ctx. Inr (fst ctx)))"

section \<open>The channel\<close>

text \<open>
  A session: the identity and subscription, when the client was last heard, the responses sent
  so far, whether their receiver still exists, and whether the loop still runs.
\<close>

record grpc_session =
  gs_tenant :: string
  gs_client :: string
  gs_device :: "device option"
  gs_sub :: uuid
  gs_last_inbound :: nat
  gs_out :: "(status + channel_response) list"
  gs_open :: bool
  gs_running :: bool

definition resp_send :: "status + channel_response \<Rightarrow> grpc_session \<Rightarrow> grpc_session" where
  "resp_send r sess = (if gs_open sess then sess\<lparr>gs_out := gs_out sess @ [r]\<rparr> else sess)"

definition count_auth :: "(status + auth_context \<times> bool) \<Rightarrow> metrics \<Rightarrow> metrics" where
  "count_auth r m = (case r of
     Inr (_, legacy) \<Rightarrow>
       (let m' = m\<lparr>m_auth_success_total := fetch_add1 (m_auth_success_total m)\<rparr>
        in if legacy then m'\<lparr>m_legacy_header_auth_total := fetch_add1 (m_legacy_header_auth_total m')\<rparr> else m')
   | Inl _ \<Rightarrow> m\<lparr>m_auth_failure_total := fetch_add1 (m_auth_failure_total m)\<rparr>)"

text \<open>
  Opening a channel at time \<open>now\<close>: \<open>sub_id\<close> is the id the subscription draws. The receiver of
  the response queue is held by the call itself while it sends the acknowledgement, so that the
  send does not fail.
\<close>

definition open_channel ::
    "('b, 'k) grpc_handler \<Rightarrow> u64 option \<Rightarrow> nat \<Rightarrow> uuid \<Rightarrow> headers \<Rightarrow> (('b, 'k) push_world, status, grpc_session) io" where
  "open_channel H clock now sub_id metadata =
     io_bind (on_metrics (count_auth (auth_client H clock metadata))) (\<lambda>_.
     io_bind (io_lift (auth_client H clock metadata)) (\<lambda>(auth, _).
     let device = extract_device (gh_client_config H) metadata in
     io_bind (io_map_err status_of (subscribe_client (gh_push_service H) sub_id (ac_tenant_id auth) (ac_client_id auth) device)) (\<lambda>sub.
     ret \<lparr>gs_tenant = ac_tenant_id auth, gs_client = ac_client_id auth, gs_device = device, gs_sub = sub,
          gs_last_inbound = now, gs_out = [Inr (ConnectAckResp ok_status)], gs_open = True, gs_running = True\<rparr>)))"

text \<open>Requests of the client on the open channel.\<close>

definition handle_client_request ::
    "('b, 'k) push_service \<Rightarrow> channel_request option \<Rightarrow> grpc_session \<Rightarrow> ('b, 'k) push_world \<Rightarrow>
     grpc_session \<times> ('b, 'k) push_world" where
  "handle_client_request S req sess w = (case req of
     None \<Rightarrow> (sess, w)
   | Some (TopicSubscriptionReq topic) \<Rightarrow>
       (case topic_subscribe S (gs_tenant sess) topic (gs_sub sess) w of
          (w', Inr _) \<Rightarrow>
            (resp_send (Inr (TopicSubscriptionAckResp topic ok_status)) sess,
             w'\<lparr>pw_metrics := (pw_metrics w')\<lparr>m_topic_subscribe_total := fetch_add1 (m_topic_subscribe_total (pw_metrics w'))\<rparr>\<rparr>)
        | (w', Inl e) \<Rightarrow>
            (resp_send (Inr (TopicSubscriptionAckResp topic (err_status (error_text e)))) sess, w'))
   | Some (TopicUnsubscriptionReq topic) \<Rightarrow>
       (case topic_unsubscribe S (gs_tenant sess) topic (gs_sub sess) w of
          (w', Inr _) \<Rightarrow>
            (resp_send (Inr (TopicUnsubscriptionAckResp topic ok_status)) sess,
             w'\<lparr>pw_metrics := (pw_metrics w')\<lparr>m_topic_unsubscribe_total := fetch_add1 (m_topic_unsubscribe_total (pw_metrics w'))\<rparr>\<rparr>)
        | (w', Inl e) \<Rightarrow>
            (resp_send (Inr (TopicUnsubscriptionAckResp topic (err_status (error_text e)))) sess,
             w'\<lparr>pw_metrics := (pw_metrics w')\<lparr>m_topic_unsubscribe_error_total := fetch_add1 (m_topic_unsubscribe_error_total (pw_metrics w'))\<rparr>\<rparr>))
   | Some ChannelEventReq \<Rightarrow> (sess, w)
   | Some ChannelEventAckReq \<Rightarrow> (sess, w))"

text \<open>What a turn of the loop can see. \<open>ReceiverGone\<close> is the transport dropping the responses.\<close>

datatype grpc_input =
    ClientMessage nat "channel_request option"
  | ClientClosed
  | ClientError
  | SubEvent topic_event
  | SubClosed
  | Tick nat
  | ReceiverGone

definition secs :: "u64 \<Rightarrow> nat" where
  "secs s = unat s * 1000000000"

definition grpc_turn ::
    "('b, 'k) push_service \<Rightarrow> keepalive_config \<Rightarrow> grpc_input \<Rightarrow> grpc_session \<times> ('b, 'k) push_world \<Rightarrow>
     grpc_session \<times> ('b, 'k) push_world" where
  "grpc_turn S keepalive inp sw = (let (sess, w) = sw in case inp of
     ClientMessage now req \<Rightarrow> handle_client_request S req (sess\<lparr>gs_last_inbound := now\<rparr>) w
   | ClientClosed \<Rightarrow> (sess\<lparr>gs_running := False\<rparr>, w)
   | ClientError \<Rightarrow> (sess\<lparr>gs_running := False\<rparr>, w)
   | SubEvent e \<Rightarrow>
       ((resp_send (Inr (ChannelEventResp (te_topic e) (te_event e))) sess)\<lparr>gs_running := gs_open sess\<rparr>,
        w\<lparr>pw_metrics := count_delivered (pw_metrics w)\<rparr>)
   | SubClosed \<Rightarrow> (sess\<lparr>gs_running := False\<rparr>, w)
   | Tick now \<Rightarrow>
       if now - gs_last_inbound sess > secs (kc_grpc_stream_idle_timeout_secs keepalive)
       then ((resp_send (Inl (CodeDeadlineExceeded, ''channel keepalive timeout'')) sess)\<lparr>gs_running := False\<rparr>,
             w\<lparr>pw_metrics := (pw_metrics w)\<lparr>m_grpc_keepalive_timeout_total := fetch_add1 (m_grpc_keepalive_timeout_total (pw_metrics w))\<rparr>\<rparr>)
       else (sess, w)
   | ReceiverGone \<Rightarrow> (sess\<lparr>gs_open := False\<rparr>, w))"

text \<open>After the loop: unsubscribe, and the subscription goes out of scope.\<close>

definition grpc_finish ::
    "('b, 'k) push_service \<Rightarrow> grpc_session \<times> ('b, 'k) push_world \<Rightarrow> grpc_session \<times> ('b, 'k) push_world" where
  "grpc_finish S sw = (let (sess, w) = sw;
       w1 = fst (unsubscribe_client S (gs_tenant sess) (gs_client sess) (gs_sub sess) (gs_device sess) w)
     in (sess, w1\<lparr>pw_pubsub := ps_drop (svc_pubsub S) (gs_sub sess) (pw_pubsub w1)\<rparr>))"

fun grpc_loop ::
    "('b, 'k) push_service \<Rightarrow> keepalive_config \<Rightarrow> grpc_input list \<Rightarrow> grpc_session \<times> ('b, 'k) push_world \<Rightarrow>
     grpc_session \<times> ('b, 'k) push_world" where
  "grpc_loop S keepalive [] sw = sw"
| "grpc_loop S keepalive (inp # inps) sw =
     (let sw' = grpc_turn S keepalive inp sw in
      if gs_running (fst sw') then grpc_loop S keepalive inps sw' else grpc_finish S sw')"

section \<open>Unary calls\<close>

text \<open>The four calls of publishers, with the fields of their requests.\<close>

datatype send_call =
    SendEventToClientChannel string "proto_event option"
  | SendEventToClientDeviceChannel string string "proto_event option"
  | SendEventToTopic string "proto_event option"
  | SendEventToTopics "(string \<times> proto_event option) list"

definition topic_request :: "string \<Rightarrow> string \<times> proto_event option \<Rightarrow> send_event_to_topic_request" where
  "topic_request tenant_id r =
     (let (topic, event) = r; (event_bytes, event_name) = extract_event event
      in \<lparr>st_tenant_id = tenant_id, st_topic = topic, st_event_name = event_name, st_event = event_bytes\<rparr>)"

definition publish_call ::
    "('b, 'k) push_service \<Rightarrow> string \<Rightarrow> send_call \<Rightarrow> (('b, 'k) push_world, propeller_error, unit) io" where
  "publish_call S tenant_id call = (case call of
     SendEventToClientChannel client_id event \<Rightarrow>
       publish_to_client S \<lparr>sc_tenant_id = tenant_id, sc_client_id = client_id,
         sc_event_name = snd (extract_event event), sc_event = fst (extract_event event)\<rparr>
   | SendEventToClientDeviceChannel client_id device_id event \<Rightarrow>
       publish_to_client_device S \<lparr>sd_tenant_id = tenant_id, sd_client_id = client_id, sd_device_id = device_id,
         sd_event_name = snd (extract_event event), sd_event = fst (extract_event event)\<rparr>
   | SendEventToTopic topic event \<Rightarrow> publish_to_topic S (topic_request tenant_id (topic, event))
   | SendEventToTopics rs \<Rightarrow> publish_to_topics S (map (topic_request tenant_id) rs))"

definition send_event ::
    "('b, 'k) grpc_handler \<Rightarrow> u64 option \<Rightarrow> headers \<Rightarrow> send_call \<Rightarrow> (('b, 'k) push_world, status, response_status) io" where
  "send_event H clock metadata call =
     io_bind (io_lift (authorize_publisher H clock metadata)) (\<lambda>publisher.
     io_bind (io_map_err status_of (publish_call (gh_push_service H) (ac_tenant_id publisher) call)) (\<lambda>_.
     ret ok_status))"

definition get_client_active_devices ::
    "('b, 'k) grpc_handler \<Rightarrow> u64 option \<Rightarrow> headers \<Rightarrow> string \<Rightarrow>
     (('b, 'k) push_world, status, response_status \<times> bool \<times> device list) io" where
  "get_client_active_devices H clock metadata req_client_id =
     io_bind (io_lift (auth_client H clock metadata)) (\<lambda>(viewer, _).
     io_bind (if req_client_id = [] then ret (ac_client_id viewer)
              else if req_client_id \<noteq> ac_client_id viewer
              then throw (status_of (PermissionDenied ''client id mismatch''))
              else ret req_client_id) (\<lambda>client_id.
     io_bind (io_map_err status_of (get_active_devices (gh_push_service H)
         \<lparr>ga_tenant_id = ac_tenant_id viewer, ga_client_id = client_id\<rparr>)) (\<lambda>devices.
     ret (ok_status, devices \<noteq> [], devices))))"

section \<open>A session gives back what it takes\<close>

definition same_identity :: "grpc_session \<Rightarrow> grpc_session \<Rightarrow> bool" where
  "same_identity s t \<longleftrightarrow>
     gs_tenant t = gs_tenant s \<and> gs_client t = gs_client s \<and> gs_device t = gs_device s \<and> gs_sub t = gs_sub s"

lemma resp_send_simps [simp]:
  "gs_tenant (resp_send r sess) = gs_tenant sess" "gs_client (resp_send r sess) = gs_client sess"
  "gs_device (resp_send r sess) = gs_device sess" "gs_sub (resp_send r sess) = gs_sub sess"
  "gs_last_inbound (resp_send r sess) = gs_last_inbound sess" "gs_open (resp_send r sess) = gs_open sess"
  "gs_running (resp_send r sess) = gs_running sess"
  by (simp_all add: resp_send_def)

lemma count_auth_connections [simp]: "m_connections (count_auth r m) = m_connections m"
  by (simp add: count_auth_def Let_def split: sum.splits)

lemma count_connection_simps [simp]:
  "m_connections (count_connection m) = m_connections m + 1"
  "m_connections (uncount_connection m) = m_connections m - 1"
  "m_connections (count_delivered m) = m_connections m"
  by (simp_all add: count_connection_def uncount_connection_def count_delivered_def fetch_add1_def fetch_sub1_def)

context push_contract
begin

definition session_frame :: "uuid \<Rightarrow> ('b, 'k) push_world \<Rightarrow> ('b, 'k) push_world \<Rightarrow> bool" where
  "session_frame i w w' \<longleftrightarrow> winv w' \<and> m_connections (pw_metrics w') = m_connections (pw_metrics w) \<and>
     (\<forall>j. j \<noteq> i \<longrightarrow> topics (pw_pubsub w') j = topics (pw_pubsub w) j)"

lemma winv_metrics [simp]: "winv (w\<lparr>pw_metrics := m\<rparr>) = winv w"
  by (simp add: winv_def)

lemma handle_client_request_frame:
  assumes "winv w" and "handle_client_request S req sess w = (sess', w')"
  shows "same_identity sess sess' \<and> session_frame (gs_sub sess) w w'"
proof (cases req)
  case None
  with assms show ?thesis by (auto simp: handle_client_request_def same_identity_def session_frame_def)
next
  case (Some r)
  show ?thesis
  proof (cases r)
    case (TopicSubscriptionReq topic)
    obtain w1 x where t: "topic_subscribe S (gs_tenant sess) topic (gs_sub sess) w = (w1, x)"
      by (cases "topic_subscribe S (gs_tenant sess) topic (gs_sub sess) w")
    from topic_subscribe_keeps [OF assms(1) t] Some TopicSubscriptionReq t assms(2) show ?thesis
      by (cases x) (auto simp: handle_client_request_def same_identity_def session_frame_def)
  next
    case (TopicUnsubscriptionReq topic)
    obtain w1 x where t: "topic_unsubscribe S (gs_tenant sess) topic (gs_sub sess) w = (w1, x)"
      by (cases "topic_unsubscribe S (gs_tenant sess) topic (gs_sub sess) w")
    from topic_unsubscribe_keeps [OF assms(1) t] Some TopicUnsubscriptionReq t assms(2) show ?thesis
      by (cases x) (auto simp: handle_client_request_def same_identity_def session_frame_def)
  qed (use Some assms in \<open>auto simp: handle_client_request_def same_identity_def session_frame_def\<close>)
qed

lemma grpc_turn_frame:
  assumes "winv w" and "grpc_turn S ka inp (sess, w) = (sess', w')"
  shows "same_identity sess sess' \<and> session_frame (gs_sub sess) w w'"
proof (cases inp)
  case (ClientMessage now req)
  with assms handle_client_request_frame [OF assms(1), of req "sess\<lparr>gs_last_inbound := now\<rparr>" sess' w']
  show ?thesis by (simp add: grpc_turn_def same_identity_def)
qed (use assms in \<open>auto simp: grpc_turn_def same_identity_def session_frame_def split: if_splits\<close>)

lemma grpc_finish_releases:
  assumes "winv w" and "grpc_finish S (sess, w) = (sess', w')"
  shows "sess' = sess \<and> winv w' \<and> m_connections (pw_metrics w') = m_connections (pw_metrics w) - 1 \<and>
     topics (pw_pubsub w') = (topics (pw_pubsub w))(gs_sub sess := None)"
proof -
  obtain w1 where w1: "unsubscribe_client S (gs_tenant sess) (gs_client sess) (gs_sub sess) (gs_device sess) w = (w1, Inr ())"
    "winv w1" "topics (pw_pubsub w1) = (topics (pw_pubsub w))(gs_sub sess := None)"
    "pw_metrics w1 = uncount_connection (pw_metrics w)"
    by (rule unsubscribe_client_ok [OF assms(1)])
  from w1(2) have inv: "pinv (pw_pubsub w1)" by (simp add: winv_def)
  from assms(2) w1(1) have "sess' = sess"
    and w': "w' = w1\<lparr>pw_pubsub := ps_drop (svc_pubsub S) (gs_sub sess) (pw_pubsub w1)\<rparr>"
    by (auto simp: grpc_finish_def)
  with w1 ps.drop_inv [OF inv] ps.drop_topics [OF inv] show ?thesis by (simp add: winv_def)
qed

lemma grpc_loop_releases:
  assumes "winv w" and "gs_running sess" and "grpc_loop S ka inps (sess, w) = (sess', w')"
    and "\<not> gs_running sess'"
  shows "winv w' \<and> m_connections (pw_metrics w') = m_connections (pw_metrics w) - 1 \<and>
     topics (pw_pubsub w') = (topics (pw_pubsub w))(gs_sub sess := None)"
  using assms
proof (induction inps arbitrary: sess w)
  case (Cons inp inps)
  obtain s1 w1 where t: "grpc_turn S ka inp (sess, w) = (s1, w1)" by (cases "grpc_turn S ka inp (sess, w)")
  from grpc_turn_frame [OF Cons.prems(1) t]
  have i: "gs_sub s1 = gs_sub sess" and f: "session_frame (gs_sub sess) w w1" by (simp_all add: same_identity_def)
  then have w1: "winv w1" "m_connections (pw_metrics w1) = m_connections (pw_metrics w)"
    and tops: "(topics (pw_pubsub w1))(gs_sub sess := None) = (topics (pw_pubsub w))(gs_sub sess := None)"
    by (auto simp: session_frame_def fun_eq_iff)
  show ?case
  proof (cases "gs_running s1")
    case True
    with Cons.prems(3) t have "grpc_loop S ka inps (s1, w1) = (sess', w')" by simp
    from Cons.IH [OF w1(1) True this Cons.prems(4)] i w1 tops show ?thesis by simp
  next
    case False
    with Cons.prems(3) t have "grpc_finish S (s1, w1) = (sess', w')" by simp
    from grpc_finish_releases [OF w1(1) this] i w1 tops show ?thesis by simp
  qed
qed simp

end

lemma open_channel_Inr:
  assumes "open_channel H clock now i md w = (w1, Inr sess)"
  obtains auth legacy wa where "auth_client H clock md = Inr (auth, legacy)"
    and "wa = w\<lparr>pw_metrics := count_auth (auth_client H clock md) (pw_metrics w)\<rparr>"
    and "subscribe_client (gh_push_service H) i (ac_tenant_id auth) (ac_client_id auth)
           (extract_device (gh_client_config H) md) wa = (w1, Inr (gs_sub sess))"
    and "gs_running sess" and "gs_tenant sess = ac_tenant_id auth" and "gs_client sess = ac_client_id auth"
    and "gs_open sess" and "gs_last_inbound sess = now"
proof -
  let ?wa = "w\<lparr>pw_metrics := count_auth (auth_client H clock md) (pw_metrics w)\<rparr>"
  obtain auth legacy where a: "auth_client H clock md = Inr (auth, legacy)"
    using assms by (cases "auth_client H clock md") (auto simp: open_channel_def on_metrics_def io_defs)
  let ?sub = "subscribe_client (gh_push_service H) i (ac_tenant_id auth) (ac_client_id auth)
           (extract_device (gh_client_config H) md) ?wa"
  obtain w2 x where s: "?sub = (w2, x)" by (cases ?sub)
  with assms a obtain j where x: "x = Inr j"
    by (cases x) (simp_all add: open_channel_def on_metrics_def io_defs Let_def)
  with assms a s have "w1 = w2" and "sess = \<lparr>gs_tenant = ac_tenant_id auth, gs_client = ac_client_id auth,
      gs_device = extract_device (gh_client_config H) md, gs_sub = j, gs_last_inbound = now,
      gs_out = [Inr (ConnectAckResp ok_status)], gs_open = True, gs_running = True\<rparr>"
    by (simp_all add: open_channel_def on_metrics_def io_defs Let_def)
  with a s x that show thesis by simp
qed

text \<open>
  C21: Whatever a client sends and in whatever order messages, events, ticks and disconnects come,
  a channel that has ended has given everything back: its subscription with all its topics is
  gone, no other subscription has changed, and the count of connections is what it was.
\<close>

theorem ended_channel_releases_everything:
  fixes H :: "('r redis_pubsub, 'k) grpc_handler" and K :: "'k redis_hashes"
  assumes "gh_push_service H = redis_push_service R K cfg wr rd" and "hashes_ok K hash"
    and "pubsub_inv (pw_pubsub w)" and "fresh_id i (pw_pubsub w)"
    and "open_channel H clock now i md w = (w1, Inr sess)"
    and "grpc_loop (gh_push_service H) (gh_keepalive H) inputs (sess, w1) = (sess', w2)"
    and "\<not> gs_running sess'"
  shows "m_connections (pw_metrics w2) = m_connections (pw_metrics w) \<and>
     sub_topics (pw_pubsub w2) = sub_topics (pw_pubsub w) \<and>
     (\<forall>t\<in>set (rp_tasks (pw_pubsub w2)). ls_sub t = i \<longrightarrow> ls_shutdown t)"
proof -
  from assms(5) obtain auth :: auth_context and wa where wa: "wa = w\<lparr>pw_metrics := count_auth (auth_client H clock md) (pw_metrics w)\<rparr>"
    and sub: "subscribe_client (gh_push_service H) i (ac_tenant_id auth) (ac_client_id auth)
           (extract_device (gh_client_config H) md) wa = (w1, Inr (gs_sub sess))" and run: "gs_running sess"
    by (elim open_channel_Inr)
  have winv: "redis_push.winv K hash wa"
    by (intro redis_winv [THEN iffD2] conjI assms(2)) (simp add: wa assms(3))
  have "fresh_id i (pw_pubsub wa)" using assms(4) wa by simp
  note s = redis_push.subscribe_client_ok [OF winv this sub [unfolded assms(1)]]
  from s have w1: "redis_push.winv K hash w1" by (elim conjE)
  from s have i: "gs_sub sess = i" and tops: "sub_topics (pw_pubsub w1) = (sub_topics (pw_pubsub w))(i \<mapsto> {})"
    and conn: "m_connections (pw_metrics w1) = m_connections (pw_metrics w) + 1" by (simp_all add: wa)
  note r = redis_push.grpc_loop_releases [OF w1 run assms(6) [unfolded assms(1)] assms(7)]
  from r have "redis_push.winv K hash w2" by (elim conjE)
  then have inv: "pubsub_inv (pw_pubsub w2)" by (rule redis_winv [THEN iffD1, THEN conjunct1])
  have none: "sub_topics (pw_pubsub w) i = None" using assms(4) by (simp add: fresh_id_def sub_topics_def)
  from r i tops have t2: "sub_topics (pw_pubsub w2) = (sub_topics (pw_pubsub w))(i := None)" by simp
  with none have "sub_topics (pw_pubsub w2) = sub_topics (pw_pubsub w)" by (simp add: fun_upd_idem)
  moreover from this none have "sub_topics (pw_pubsub w2) i = None" by simp
  then have "rp_subs (pw_pubsub w2) i = None" by (simp add: sub_topics_def)
  from not_subscribed_is_stopped [OF inv this]
  have "\<forall>t\<in>set (rp_tasks (pw_pubsub w2)). ls_sub t = i \<longrightarrow> ls_shutdown t" by blast
  moreover from r conn have "m_connections (pw_metrics w2) = m_connections (pw_metrics w)" by simp
  ultimately show ?thesis by blast
qed

section \<open>Keepalive of the channel\<close>

text \<open>
  An input that does not itself end the channel, and the rule that the ticks are meant to
  enforce: at every tick the client was heard at most the timeout ago.
\<close>

fun keeps_open :: "grpc_input \<Rightarrow> bool" where
  "keeps_open (ClientMessage now req) = True"
| "keeps_open (SubEvent e) = True"
| "keeps_open (Tick now) = True"
| "keeps_open _ = False"

fun heard_in_time :: "nat \<Rightarrow> nat \<Rightarrow> grpc_input list \<Rightarrow> bool" where
  "heard_in_time limit heard [] = True"
| "heard_in_time limit heard (Tick now # inps) = (now \<le> heard + limit \<and> heard_in_time limit heard inps)"
| "heard_in_time limit heard (ClientMessage now req # inps) = heard_in_time limit now inps"
| "heard_in_time limit heard (_ # inps) = heard_in_time limit heard inps"

lemma handle_client_request_session:
  "gs_running (fst (handle_client_request S req sess w)) = gs_running sess \<and>
   gs_open (fst (handle_client_request S req sess w)) = gs_open sess \<and>
   gs_last_inbound (fst (handle_client_request S req sess w)) = gs_last_inbound sess"
  by (auto simp: handle_client_request_def split: option.splits channel_request.splits prod.splits sum.splits)

lemma grpc_finish_session: "fst (grpc_finish S sw) = fst sw"
  by (simp add: grpc_finish_def Let_def case_prod_beta)

text \<open>
  As long as neither side closes it, a channel stays open exactly if at every tick the last
  message of the client is at most \<open>grpc_stream_idle_timeout_secs\<close> old, whatever events are
  delivered meanwhile; otherwise the first late tick ends it.
\<close>

theorem channel_ends_exactly_when_idle:
  assumes "gs_running sess" and "gs_open sess" and "list_all keeps_open inputs"
  shows "gs_running (fst (grpc_loop S keepalive inputs (sess, w))) \<longleftrightarrow>
     heard_in_time (secs (kc_grpc_stream_idle_timeout_secs keepalive)) (gs_last_inbound sess) inputs"
  using assms
proof (induction inputs arbitrary: sess w)
  case (Cons inp inps)
  let ?sw = "grpc_turn S keepalive inp (sess, w)"
  obtain s1 w1 where t: "?sw = (s1, w1)" by (cases ?sw)
  show ?case
  proof (cases inp)
    case (ClientMessage now req)
    with t Cons.prems handle_client_request_session [of S req "sess\<lparr>gs_last_inbound := now\<rparr>" w]
    have "gs_running s1" "gs_open s1" "gs_last_inbound s1 = now" by (simp_all add: grpc_turn_def)
    with Cons.IH [of s1 w1] Cons.prems ClientMessage t show ?thesis by simp
  next
    case (SubEvent e)
    with t Cons.prems have "gs_running s1" "gs_open s1" "gs_last_inbound s1 = gs_last_inbound sess"
      by (auto simp: grpc_turn_def)
    with Cons.IH [of s1 w1] Cons.prems SubEvent t show ?thesis by simp
  next
    case (Tick now)
    show ?thesis
    proof (cases "now \<le> gs_last_inbound sess + secs (kc_grpc_stream_idle_timeout_secs keepalive)")
      case True
      then have "\<not> now - gs_last_inbound sess > secs (kc_grpc_stream_idle_timeout_secs keepalive)" by linarith
      with t Tick have "s1 = sess" by (simp add: grpc_turn_def)
      with Cons.IH [of s1 w1] Cons.prems Tick t True show ?thesis by simp
    next
      case False
      then have "now - gs_last_inbound sess > secs (kc_grpc_stream_idle_timeout_secs keepalive)" by linarith
      with t Tick have "\<not> gs_running s1" by (auto simp: grpc_turn_def)
      with Tick t False grpc_finish_session [of S "(s1, w1)"] show ?thesis by simp
    qed
  qed (use Cons.prems in simp_all)
qed simp

section \<open>Publishers\<close>

text \<open>The messages on channels of one tenant.\<close>

definition within_tenant :: "string \<Rightarrow> (string \<times> bytes) list \<Rightarrow> bool" where
  "within_tenant tenant_id msgs \<longleftrightarrow>
     list_all (\<lambda>m. \<exists>ow. fst m = channel_name ow \<and> owner_tenant ow = tenant_id) msgs"

lemma within_tenant_channels:
  "within_tenant t [(client_channel t c, d)]" "within_tenant t [(device_channel t c v, d)]"
  "within_tenant t [(topic_channel t p, d)]" "within_tenant t []"
proof -
  show "within_tenant t [(client_channel t c, d)]"
    by (simp add: within_tenant_def) (metis channel_name.simps(1) owner_tenant.simps(1))
  show "within_tenant t [(device_channel t c v, d)]"
    by (simp add: within_tenant_def) (metis channel_name.simps(2) owner_tenant.simps(2))
  show "within_tenant t [(topic_channel t p, d)]"
    by (simp add: within_tenant_def) (metis channel_name.simps(3) owner_tenant.simps(3))
qed (simp add: within_tenant_def)

lemma within_tenant_append: "within_tenant t (xs @ ys) \<longleftrightarrow> within_tenant t xs \<and> within_tenant t ys"
  by (simp add: within_tenant_def)

lemma publish_counted_within:
  assumes "records_publishes R log"
    and "publish_counted (redis_push_service R H cfg wr rd) ch d w = (w', res)"
  shows "published log w' = published log w @ [(ch, d)]"
  using publish_counted_records [OF assms(1), of H cfg wr rd ch d w] assms(2) by auto

lemma publish_to_topics_within:
  assumes "records_publishes R log" and "list_all (\<lambda>q. st_tenant_id q = t) reqs"
    and "publish_to_topics (redis_push_service R H cfg wr rd) reqs w = (w', res)"
  shows "\<exists>new. published log w' = published log w @ new \<and> within_tenant t new"
  using assms(2,3)
proof (induction reqs arbitrary: w)
  case Nil
  then show ?case by (auto simp: ret_def within_tenant_channels)
next
  case (Cons q reqs)
  let ?S = "redis_push_service R H cfg wr rd"
  obtain w1 x where p: "publish_to_topic ?S q w = (w1, x)" by (cases "publish_to_topic ?S q w")
  then have 1: "\<exists>new. published log w1 = published log w @ new \<and> within_tenant t new"
    using Cons.prems(1) publish_counted_within [OF assms(1), of H cfg wr rd _ _ w w1 x]
    by (auto simp: publish_to_topic_def throw_def within_tenant_channels split: if_splits)
  show ?case
  proof (cases x)
    case (Inl e)
    with p Cons.prems 1 show ?thesis by (auto simp: io_bind_def)
  next
    case (Inr u)
    with p Cons.prems have "publish_to_topics ?S reqs w1 = (w', res)" by (simp add: io_bind_def)
    with Cons.IH [of w1] Cons.prems 1 show ?thesis by (auto simp: within_tenant_append)
  qed
qed

lemma publish_call_within:
  assumes "records_publishes R log"
    and "publish_call (redis_push_service R H cfg wr rd) t call w = (w', res)"
  shows "\<exists>new. published log w' = published log w @ new \<and> within_tenant t new"
proof (cases call)
  case (SendEventToTopics rs)
  have "list_all (\<lambda>q. st_tenant_id q = t) (map (topic_request t) rs)"
    by (auto simp: list_all_iff topic_request_def Let_def case_prod_beta)
  from publish_to_topics_within [OF assms(1) this] assms(2) SendEventToTopics show ?thesis
    by (simp add: publish_call_def)
next
  case (SendEventToTopic p e)
  with assms publish_counted_within [OF assms(1), of H cfg wr rd _ _ w w' res] show ?thesis
    by (auto simp: publish_call_def publish_to_topic_def topic_request_def Let_def case_prod_beta throw_def
        within_tenant_channels split: if_splits)
next
  case (SendEventToClientDeviceChannel c d e)
  with assms publish_counted_within [OF assms(1), of H cfg wr rd _ _ w w' res] show ?thesis
    by (auto simp: publish_call_def publish_to_client_device_def throw_def within_tenant_channels split: if_splits)
next
  case (SendEventToClientChannel c e)
  with assms publish_counted_within [OF assms(1), of H cfg wr rd _ _ w w' res] show ?thesis
    by (auto simp: publish_call_def publish_to_client_def throw_def within_tenant_channels split: if_splits)
qed


section \<open>Witnesses\<close>

definition demo_handler :: "((string \<times> bytes) list redis_pubsub, hash_server) grpc_handler" where
  "demo_handler = \<lparr>gh_push_service = demo_service, gh_lib = toy_lib, gh_auth = app_auth shipped_config,
     gh_client_config = shipped_client, gh_keepalive = shipped_keepalive\<rparr>"

definition demo_metadata :: headers where
  "demo_metadata = [''x-client-id'' \<mapsto> ''bob'', ''x-api-key'' \<mapsto> ''dev-publisher-key'']"

definition bob :: auth_context where
  "bob = \<lparr>ac_subject = ''bob'', ac_tenant_id = ''legacy'', ac_client_id = ''bob'', ac_scopes = []\<rparr>"

lemma demo_auth_client: "auth_client demo_handler clock demo_metadata = Inr (bob, True)"
  by (simp add: auth_client_def demo_handler_def demo_metadata_def authenticate_grpc_def shipped_config_def
      extract_grpc_bearer_def legacy_context_from_grpc_def legacy_context_def shipped_client_def bob_def)

lemma demo_authorize: "authorize_publisher demo_handler clock demo_metadata = Inr bob"
proof -
  have "authorize_api_key_grpc (app_auth shipped_config) demo_metadata = Inr ()"
    by (simp add: authorize_api_key_grpc_def shipped_config_def demo_metadata_def)
  then show ?thesis
    by (simp add: authorize_publisher_def demo_auth_client) (simp add: demo_handler_def)
qed

lemma demo_no_device: "extract_device (gh_client_config demo_handler) demo_metadata = None"
  by (simp add: extract_device_def demo_handler_def shipped_client_def demo_metadata_def)

lemma demo_open:
  obtains w1 sess where "open_channel demo_handler None 0 1 demo_metadata demo_world = (w1, Inr sess)"
    and "gs_running sess" and "gs_open sess" and "gs_last_inbound sess = 0"
  by (simp add: open_channel_def on_metrics_def demo_auth_client demo_no_device io_defs)
    (simp add: demo_handler_def demo_service_def subscribe_client_def session_channels_def bob_def shipped_client_def
      redis_pubsub_ops_def redis_subscribe_def open_pubsub_def on_redis_def recording_client_def
      on_pubsub_def on_metrics_def io_defs)

lemma demo_loop_ends:
  "\<not> gs_running (fst (grpc_loop S keepalive [ClientMessage 5 (Some (TopicSubscriptionReq ''news'')), ClientClosed] (sess, w)))"
  by (simp add: grpc_turn_def grpc_finish_session case_prod_beta Let_def)

theorem ended_channel_releases_everything_witness:
  "\<exists>w1 sess. open_channel demo_handler None 0 1 demo_metadata demo_world = (w1, Inr sess) \<and>
     m_connections (pw_metrics (snd (grpc_loop demo_service shipped_keepalive
       [ClientMessage 5 (Some (TopicSubscriptionReq ''news'')), ClientClosed] (sess, w1)))) = 0"
proof -
  let ?inputs = "[ClientMessage 5 (Some (TopicSubscriptionReq ''news'')), ClientClosed]"
  obtain w1 sess where o: "open_channel demo_handler None 0 1 demo_metadata demo_world = (w1, Inr sess)"
    by (rule demo_open)
  obtain s2 w2 where l: "grpc_loop demo_service shipped_keepalive ?inputs (sess, w1) = (s2, w2)"
    by (cases "grpc_loop demo_service shipped_keepalive ?inputs (sess, w1)")
  with demo_loop_ends [of demo_service shipped_keepalive sess w1] have "\<not> gs_running s2" by simp
  moreover have "pubsub_inv (pw_pubsub demo_world)" by (simp add: demo_world_def inv_new)
  moreover have "gh_push_service demo_handler = redis_push_service recording_client memory_hashes shipped_client
     (\<lambda>_. Inr ''{}'') (\<lambda>_. Some Map.empty)" and k: "gh_keepalive demo_handler = shipped_keepalive"
    and "gh_push_service demo_handler = demo_service"
    by (simp_all add: demo_handler_def demo_service_def)
  ultimately have "m_connections (pw_metrics w2) = m_connections (pw_metrics demo_world)"
    using ended_channel_releases_everything [OF _ memory_hashes_ok _ demo_fresh(1) o, of recording_client
        shipped_client "\<lambda>_. Inr ''{}''" "\<lambda>_. Some Map.empty" ?inputs s2 w2] l by simp
  with o l show ?thesis by (simp add: demo_world_def metrics_new_def)
qed

theorem channel_ends_exactly_when_idle_witness:
  "\<exists>w1 sess. open_channel demo_handler None 0 1 demo_metadata demo_world = (w1, Inr sess) \<and>
     gs_running (fst (grpc_loop demo_service shipped_keepalive [Tick 40000000000] (sess, w1))) \<and>
     \<not> gs_running (fst (grpc_loop demo_service shipped_keepalive [Tick 41000000000] (sess, w1)))"
proof -
  obtain w1 sess where o: "open_channel demo_handler None 0 1 demo_metadata demo_world = (w1, Inr sess)"
    and s: "gs_running sess" "gs_open sess" "gs_last_inbound sess = 0"
    by (rule demo_open)
  have "secs (kc_grpc_stream_idle_timeout_secs shipped_keepalive) = 40000000000"
    by (simp add: secs_def shipped_keepalive_def)
  with channel_ends_exactly_when_idle [OF s(1,2), of "[Tick 40000000000]" demo_service shipped_keepalive w1]
    channel_ends_exactly_when_idle [OF s(1,2), of "[Tick 41000000000]" demo_service shipped_keepalive w1] o s(3)
  show ?thesis by (simp del: grpc_loop.simps)
qed

lemma demo_send:
  "published (\<lambda>r. r) (fst (send_event demo_handler None demo_metadata
     (SendEventToTopic ''news'' (Some \<lparr>pe_name = [], pe_data = [7]\<rparr>)) demo_world)) = [(topic_channel ''legacy'' ''news'', [7])]"
  by (simp add: send_event_def demo_authorize io_defs)
    (simp add: demo_handler_def demo_service_def bob_def publish_call_def publish_to_topic_def topic_request_def
      extract_event_def publish_counted_def on_pubsub_def on_metrics_def redis_pubsub_ops_def redis_publish_def
      on_redis_def recording_client_def io_defs published_def demo_world_def redis_pubsub_new_def)


section \<open>The list of active devices\<close>

text \<open>A client can only list its own devices.\<close>

lemma only_own_devices:
  assumes "get_client_active_devices H clock md req_client_id w = (w', Inr (st, online, devices))"
  obtains viewer legacy where "auth_client H clock md = Inr (viewer, legacy)"
    and "req_client_id = [] \<or> req_client_id = ac_client_id viewer"
    and "get_active_devices (gh_push_service H)
           \<lparr>ga_tenant_id = ac_tenant_id viewer, ga_client_id = ac_client_id viewer\<rparr> w = (w', Inr devices)"
    and "online \<longleftrightarrow> devices \<noteq> []"
proof -
  obtain viewer legacy where a: "auth_client H clock md = Inr (viewer, legacy)"
    using assms by (cases "auth_client H clock md") (auto simp: get_client_active_devices_def io_defs)
  let ?get = "get_active_devices (gh_push_service H)
           \<lparr>ga_tenant_id = ac_tenant_id viewer, ga_client_id = ac_client_id viewer\<rparr> w"
  obtain w1 x where g: "?get = (w1, x)" by (cases ?get)
  with a assms show thesis
    by (intro that [of viewer legacy])
      (auto simp: get_client_active_devices_def io_defs map_sum_eq_Inr split: if_splits sum.splits)
qed

end
