(* ===== verification/Ws.thy ===== *)
theory Ws
  imports Grpc
begin

text \<open>
  The WebSocket side of the realtime gateway (\<open>approach-2/src/server/ws_handler.rs\<close>): the
  upgrade request, the session loop and its keepalive by ping and pong.

  Frames carry their time of arrival in nanoseconds; a send fails once the peer is gone. As in
  theory \<open>Grpc\<close> a session is a list of inputs in any order.
\<close>

section \<open>The upgrade request\<close>

record ('b, 'k) ws_state =
  ws_push_service :: "('b, 'k) push_service"
  ws_lib :: auth_lib
  ws_auth :: auth_config
  ws_client_config :: client_config
  ws_keepalive :: keepalive_config

definition ws_device :: "client_config \<Rightarrow> headers \<Rightarrow> device option" where
  "ws_device cfg hdrs =
     (if cc_enable_device_support cfg
      then let device_id = unwrap_or [] (hdrs (cc_device_header cfg));
               attrs = fold (\<lambda>key attrs. case hdrs key of Some val \<Rightarrow> attrs(key \<mapsto> val) | None \<Rightarrow> attrs)
                         (cc_device_attribute_headers cfg) Map.empty
        in if device_id \<noteq> [] then Some \<lparr>dv_id = device_id, dv_attributes = attrs\<rparr> else None
      else None)"

lemma ws_device_as_grpc: "ws_device cfg hdrs = extract_device cfg hdrs"
  by (simp add: ws_device_def extract_device_def device_attributes_def Let_def)

text \<open>\<open>None\<close> is the answer 401; otherwise the upgrade runs \<open>handle_ws\<close> with what is returned.\<close>

definition ws_connect ::
    "('b, 'k) ws_state \<Rightarrow> u64 option \<Rightarrow> headers \<Rightarrow> ('b, 'k) push_world \<Rightarrow>
     ('b, 'k) push_world \<times> (string \<times> string \<times> device option) option" where
  "ws_connect st clock hdrs w =
     (case authenticate_http (ws_lib st) (ws_auth st) clock hdrs (ws_client_config st) of
        Inr (auth, legacy_mode) \<Rightarrow>
          (w\<lparr>pw_metrics := (let m = (pw_metrics w)\<lparr>m_auth_success_total := fetch_add1 (m_auth_success_total (pw_metrics w))\<rparr>
             in if legacy_mode then m\<lparr>m_legacy_header_auth_total := fetch_add1 (m_legacy_header_auth_total m)\<rparr> else m)\<rparr>,
           Some (ac_tenant_id auth, ac_client_id auth, ws_device (ws_client_config st) hdrs))
      | Inl _ \<Rightarrow>
          (w\<lparr>pw_metrics := (pw_metrics w)\<lparr>m_auth_failure_total := fetch_add1 (m_auth_failure_total (pw_metrics w))\<rparr>\<rparr>, None))"

section \<open>The session\<close>

datatype ws_frame =
    ConnectAckText
  | EventText string bytes
  | PongFrame bytes
  | PingFrame
  | KeepaliveCloseFrame

record ws_session =
  wss_tenant :: string
  wss_client :: string
  wss_device :: "device option"
  wss_sub :: uuid
  wss_last_pong :: nat
  wss_sent :: "ws_frame list"
  wss_peer_up :: bool
  wss_running :: bool

definition ws_send_frame :: "ws_frame \<Rightarrow> ws_session \<Rightarrow> ws_session" where
  "ws_send_frame f sess = (if wss_peer_up sess then sess\<lparr>wss_sent := wss_sent sess @ [f]\<rparr> else sess)"

text \<open>
  The start of \<open>handle_ws\<close>, up to the loop. If the acknowledgement cannot be sent the function
  returns there, and all that happens to the subscription is that its value is dropped.
\<close>

definition ws_open ::
    "('b, 'k) push_service \<Rightarrow> nat \<Rightarrow> uuid \<Rightarrow> bool \<Rightarrow> string \<Rightarrow> string \<Rightarrow> device option \<Rightarrow> ('b, 'k) push_world \<Rightarrow>
     ('b, 'k) push_world \<times> ws_session option" where
  "ws_open S now sub_id peer_up tenant_id client_id dev w =
     (if client_id = [] then (w, None)
      else case subscribe_client S sub_id tenant_id client_id dev w of
        (w1, Inl _) \<Rightarrow> (w1, None)
      | (w1, Inr sub) \<Rightarrow>
          if \<not> peer_up then (w1\<lparr>pw_pubsub := ps_drop (svc_pubsub S) sub (pw_pubsub w1)\<rparr>, None)
          else (w1, Some \<lparr>wss_tenant = tenant_id, wss_client = client_id, wss_device = dev, wss_sub = sub,
                 wss_last_pong = now, wss_sent = [ConnectAckText], wss_peer_up = True, wss_running = True\<rparr>))"

datatype ws_input =
    WsText string
  | WsPong nat
  | WsPing nat bytes
  | WsClose
  | WsEnd
  | WsError
  | WsBinary bytes
  | WsEvent topic_event
  | WsEventsClosed
  | WsTick nat
  | WsPeerGone

definition count_pong :: "('b, 'k) push_world \<Rightarrow> ('b, 'k) push_world" where
  "count_pong w = w\<lparr>pw_metrics := (pw_metrics w)\<lparr>m_ws_pong_received_total := fetch_add1 (m_ws_pong_received_total (pw_metrics w))\<rparr>\<rparr>"

definition ws_turn ::
    "keepalive_config \<Rightarrow> ws_input \<Rightarrow> ws_session \<times> ('b, 'k) push_world \<Rightarrow> ws_session \<times> ('b, 'k) push_world" where
  "ws_turn keepalive inp sw = (let (sess, w) = sw in case inp of
     WsText _ \<Rightarrow> (sess, w)
   | WsPong now \<Rightarrow> (sess\<lparr>wss_last_pong := now\<rparr>, count_pong w)
   | WsPing now payload \<Rightarrow>
       if wss_peer_up sess
       then ((ws_send_frame (PongFrame payload) sess)\<lparr>wss_last_pong := now\<rparr>, count_pong w)
       else (sess\<lparr>wss_running := False\<rparr>, w)
   | WsClose \<Rightarrow> (sess\<lparr>wss_running := False\<rparr>, w)
   | WsEnd \<Rightarrow> (sess\<lparr>wss_running := False\<rparr>, w)
   | WsError \<Rightarrow> (sess\<lparr>wss_running := False\<rparr>, w)
   | WsBinary _ \<Rightarrow> (sess, w)
   | WsEvent e \<Rightarrow>
       ((ws_send_frame (EventText (te_topic e) (te_event e)) sess)\<lparr>wss_running := wss_peer_up sess\<rparr>,
        w\<lparr>pw_metrics := count_delivered (pw_metrics w)\<rparr>)
   | WsEventsClosed \<Rightarrow> (sess\<lparr>wss_running := False\<rparr>, w)
   | WsTick now \<Rightarrow>
       if now - wss_last_pong sess > secs (kc_ws_pong_timeout_secs keepalive)
       then ((ws_send_frame KeepaliveCloseFrame sess)\<lparr>wss_running := False\<rparr>,
             w\<lparr>pw_metrics := (pw_metrics w)\<lparr>m_ws_keepalive_timeout_total := fetch_add1 (m_ws_keepalive_timeout_total (pw_metrics w))\<rparr>\<rparr>)
       else if wss_peer_up sess
       then (ws_send_frame PingFrame sess,
             w\<lparr>pw_metrics := (pw_metrics w)\<lparr>m_ws_ping_sent_total := fetch_add1 (m_ws_ping_sent_total (pw_metrics w))\<rparr>\<rparr>)
       else (sess\<lparr>wss_running := False\<rparr>, w)
   | WsPeerGone \<Rightarrow> (sess\<lparr>wss_peer_up := False\<rparr>, w))"

definition ws_finish ::
    "('b, 'k) push_service \<Rightarrow> ws_session \<times> ('b, 'k) push_world \<Rightarrow> ws_session \<times> ('b, 'k) push_world" where
  "ws_finish S sw = (let (sess, w) = sw;
       w1 = fst (unsubscribe_client S (wss_tenant sess) (wss_client sess) (wss_sub sess) (wss_device sess) w)
     in (sess, w1\<lparr>pw_pubsub := ps_drop (svc_pubsub S) (wss_sub sess) (pw_pubsub w1)\<rparr>))"

fun ws_loop ::
    "('b, 'k) push_service \<Rightarrow> keepalive_config \<Rightarrow> ws_input list \<Rightarrow> ws_session \<times> ('b, 'k) push_world \<Rightarrow>
     ws_session \<times> ('b, 'k) push_world" where
  "ws_loop S keepalive [] sw = sw"
| "ws_loop S keepalive (inp # inps) sw =
     (let sw' = ws_turn keepalive inp sw in
      if wss_running (fst sw') then ws_loop S keepalive inps sw' else ws_finish S sw')"

section \<open>Keepalive\<close>

fun keeps_ws_open :: "ws_input \<Rightarrow> bool" where
  "keeps_ws_open (WsText t) = True"
| "keeps_ws_open (WsPong now) = True"
| "keeps_ws_open (WsPing now payload) = True"
| "keeps_ws_open (WsBinary b) = True"
| "keeps_ws_open (WsEvent e) = True"
| "keeps_ws_open (WsTick now) = True"
| "keeps_ws_open _ = False"

text \<open>At every tick the last ping or pong of the client is at most the timeout old.\<close>

fun ponged_in_time :: "nat \<Rightarrow> nat \<Rightarrow> ws_input list \<Rightarrow> bool" where
  "ponged_in_time limit heard [] = True"
| "ponged_in_time limit heard (WsTick now # inps) = (now \<le> heard + limit \<and> ponged_in_time limit heard inps)"
| "ponged_in_time limit heard (WsPong now # inps) = ponged_in_time limit now inps"
| "ponged_in_time limit heard (WsPing now payload # inps) = ponged_in_time limit now inps"
| "ponged_in_time limit heard (_ # inps) = ponged_in_time limit heard inps"

lemma ws_send_frame_simps [simp]:
  "wss_running (ws_send_frame f sess) = wss_running sess" "wss_peer_up (ws_send_frame f sess) = wss_peer_up sess"
  "wss_last_pong (ws_send_frame f sess) = wss_last_pong sess" "wss_sub (ws_send_frame f sess) = wss_sub sess"
  by (simp_all add: ws_send_frame_def)

lemma ws_finish_session: "fst (ws_finish S sw) = fst sw"
  by (simp add: ws_finish_def Let_def case_prod_beta)

lemma ws_running_iff:
  assumes "wss_running sess" and "wss_peer_up sess" and "list_all keeps_ws_open inputs"
  shows "wss_running (fst (ws_loop S keepalive inputs (sess, w))) \<longleftrightarrow>
     ponged_in_time (secs (kc_ws_pong_timeout_secs keepalive)) (wss_last_pong sess) inputs"
  using assms
proof (induction inputs arbitrary: sess w)
  case (Cons inp inps)
  obtain s1 w1 where t: "ws_turn keepalive inp (sess, w) = (s1, w1)" by (cases "ws_turn keepalive inp (sess, w)")
  show ?case
  proof (cases "\<exists>now. inp = WsTick now \<and> \<not> now \<le> wss_last_pong sess + secs (kc_ws_pong_timeout_secs keepalive)")
    case True
    then obtain now where now: "inp = WsTick now"
      "now - wss_last_pong sess > secs (kc_ws_pong_timeout_secs keepalive)" by auto
    with t have "\<not> wss_running s1" by (auto simp: ws_turn_def)
    with t now ws_finish_session [of S "(s1, w1)"] True show ?thesis by auto
  next
    case False
    then have tick: "\<not> now - wss_last_pong sess > secs (kc_ws_pong_timeout_secs keepalive)"
      if "inp = WsTick now" for now using that by auto
    from t Cons.prems tick have s1: "wss_running s1" "wss_peer_up s1"
      by (cases inp; auto simp: ws_turn_def)+
    moreover from t Cons.prems tick False
    have "ponged_in_time (secs (kc_ws_pong_timeout_secs keepalive)) (wss_last_pong sess) (inp # inps) =
        ponged_in_time (secs (kc_ws_pong_timeout_secs keepalive)) (wss_last_pong s1) inps"
      by (cases inp; auto simp: ws_turn_def)
    ultimately show ?thesis using Cons.IH [of s1 w1] Cons.prems t by simp
  qed
qed simp

text \<open>
  As long as neither side closes it, a WebSocket session stays open exactly if at every tick
  of the ping interval the client's last pong or ping is at most \<open>ws_pong_timeout_secs\<close> old.
\<close>

theorem ws_ends_exactly_without_pong:
  assumes "wss_running sess" and "wss_peer_up sess" and "list_all keeps_ws_open inputs"
  shows "wss_running (fst (ws_loop S keepalive inputs (sess, w))) \<longleftrightarrow>
     ponged_in_time (secs (kc_ws_pong_timeout_secs keepalive)) (wss_last_pong sess) inputs"
  using assms by (rule ws_running_iff)

text \<open>
  C30: A client that answers the ping but sends no frames of its own accord is disconnected at the
  next tick whenever the ping interval exceeds the pong timeout by more than the time it took to
  answer. With the shipped configuration, a ping every 30 seconds and a timeout of 10, no client
  that merely answers pings keeps its connection for longer than 30 seconds.
\<close>

theorem answering_pings_is_not_enough:
  assumes "wss_running sess" and "wss_peer_up sess" and "wss_last_pong sess = start"
    and "delay + secs (kc_ws_pong_timeout_secs keepalive) < secs (kc_ws_ping_interval_secs keepalive)"
  shows "\<not> wss_running (fst (ws_loop S keepalive
     [WsTick start, WsPong (start + delay), WsTick (start + secs (kc_ws_ping_interval_secs keepalive))] (sess, w)))"
proof -
  have "list_all keeps_ws_open
     [WsTick start, WsPong (start + delay), WsTick (start + secs (kc_ws_ping_interval_secs keepalive))]" by simp
  from ws_running_iff [OF assms(1,2) this, of S keepalive w] assms(3,4) show ?thesis
    by (simp del: ws_loop.simps)
qed

section \<open>What a session gives back\<close>

context push_contract
begin

lemma ws_turn_frame:
  assumes "winv w" and "ws_turn ka inp (sess, w) = (sess', w')"
  shows "wss_sub sess' = wss_sub sess \<and> winv w' \<and> pw_pubsub w' = pw_pubsub w \<and>
     m_connections (pw_metrics w') = m_connections (pw_metrics w)"
  using assms by (cases inp) (auto simp: ws_turn_def count_pong_def split: if_splits)

lemma ws_finish_releases:
  assumes "winv w" and "ws_finish S (sess, w) = (sess', w')"
  shows "winv w' \<and> m_connections (pw_metrics w') = m_connections (pw_metrics w) - 1 \<and>
     topics (pw_pubsub w') = (topics (pw_pubsub w))(wss_sub sess := None)"
proof -
  obtain w1 where w1: "unsubscribe_client S (wss_tenant sess) (wss_client sess) (wss_sub sess) (wss_device sess) w = (w1, Inr ())"
    "winv w1" "topics (pw_pubsub w1) = (topics (pw_pubsub w))(wss_sub sess := None)"
    "pw_metrics w1 = uncount_connection (pw_metrics w)"
    by (rule unsubscribe_client_ok [OF assms(1)])
  from w1(2) have inv: "pinv (pw_pubsub w1)" by (simp add: winv_def)
  from assms(2) w1(1) have w': "w' = w1\<lparr>pw_pubsub := ps_drop (svc_pubsub S) (wss_sub sess) (pw_pubsub w1)\<rparr>"
    by (auto simp: ws_finish_def)
  with w1 ps.drop_inv [OF inv] ps.drop_topics [OF inv] show ?thesis by (simp add: winv_def)
qed

lemma ws_loop_releases:
  assumes "winv w" and "wss_running sess" and "ws_loop S ka inps (sess, w) = (sess', w')"
    and "\<not> wss_running sess'"
  shows "winv w' \<and> m_connections (pw_metrics w') = m_connections (pw_metrics w) - 1 \<and>
     topics (pw_pubsub w') = (topics (pw_pubsub w))(wss_sub sess := None)"
  using assms
proof (induction inps arbitrary: sess w)
  case (Cons inp inps)
  obtain s1 w1 where t: "ws_turn ka inp (sess, w) = (s1, w1)" by (cases "ws_turn ka inp (sess, w)")
  from ws_turn_frame [OF Cons.prems(1) t]
  have f: "wss_sub s1 = wss_sub sess" "winv w1" "pw_pubsub w1 = pw_pubsub w"
    "m_connections (pw_metrics w1) = m_connections (pw_metrics w)" by simp_all
  show ?case
  proof (cases "wss_running s1")
    case True
    with Cons.prems(3) t have "ws_loop S ka inps (s1, w1) = (sess', w')" by simp
    from Cons.IH [OF f(2) True this Cons.prems(4)] f show ?thesis by simp
  next
    case False
    with Cons.prems(3) t have "ws_finish S (s1, w1) = (sess', w')" by simp
    from ws_finish_releases [OF f(2) this] f show ?thesis by simp
  qed
qed simp

lemma ws_open_subscribed:
  assumes "winv w" and "fresh i (pw_pubsub w)" and "ws_open S now i up t c d w = (w1, r)"
    and "c \<noteq> []" and "\<And>w' e. subscribe_client S i t c d w \<noteq> (w', Inl e)"
  shows "winv w1 \<and> m_connections (pw_metrics w1) = m_connections (pw_metrics w) + 1 \<and>
     topics (pw_pubsub w1) = (topics (pw_pubsub w))(i \<mapsto> {}) \<and>
     (if up then \<exists>sess. r = Some sess \<and> wss_sub sess = i \<and> wss_running sess \<and> wss_peer_up sess else r = None)"
proof -
  obtain w2 x where s: "subscribe_client S i t c d w = (w2, x)" by (cases "subscribe_client S i t c d w")
  obtain j where x: "x = Inr j"
  proof (cases x)
    case (Inl e)
    with s assms(5) show thesis by blast
  qed
  from subscribe_client_ok [OF assms(1,2) s [unfolded x]] have ok: "j = i" "winv w2"
    "topics (pw_pubsub w2) = (topics (pw_pubsub w))(i \<mapsto> {})"
    "pw_metrics w2 = count_connection (pw_metrics w)" by simp_all
  from ok(2) have inv: "pinv (pw_pubsub w2)" by (simp add: winv_def)
  from s x assms(4) have o: "ws_open S now i up t c d w =
     (if up then (w2, Some \<lparr>wss_tenant = t, wss_client = c, wss_device = d, wss_sub = j, wss_last_pong = now,
          wss_sent = [ConnectAckText], wss_peer_up = True, wss_running = True\<rparr>)
      else (w2\<lparr>pw_pubsub := ps_drop (svc_pubsub S) j (pw_pubsub w2)\<rparr>, None))"
    by (simp add: ws_open_def)
  show ?thesis
  proof (cases up)
    case True
    let ?sess = "\<lparr>wss_tenant = t, wss_client = c, wss_device = d, wss_sub = j, wss_last_pong = now,
          wss_sent = [ConnectAckText], wss_peer_up = True, wss_running = True\<rparr>"
    from trans [OF assms(3) [symmetric] o] True have w1: "w1 = w2" and r: "r = Some ?sess" by simp_all
    from ok r True show ?thesis unfolding w1 by (simp add: count_connection_def fetch_add1_def)
  next
    case False
    from trans [OF assms(3) [symmetric] o] False
    have w1: "w1 = w2\<lparr>pw_pubsub := ps_drop (svc_pubsub S) j (pw_pubsub w2)\<rparr>" and r: "r = None"
      by simp_all
    from ok(2) ps.drop_inv [OF inv, of j] have "winv w1" by (simp add: winv_def w1)
    moreover have "topics (pw_pubsub w1) = (topics (pw_pubsub w))(i \<mapsto> {})"
      using ok(3) ps.drop_topics [OF inv, of j] by (simp add: w1)
    moreover have "m_connections (pw_metrics w1) = m_connections (pw_metrics w) + 1"
      using ok(4) by (simp add: w1)
    ultimately show ?thesis using False r by simp
  qed
qed

end

lemma ws_open_None_subscribed:
  assumes "ws_open S now i up t c d w = (w1, Some sess)"
  shows "c \<noteq> [] \<and> up \<and> (\<forall>w' e. subscribe_client S i t c d w \<noteq> (w', Inl e))"
  using assms by (auto simp: ws_open_def split: if_splits prod.splits sum.splits)

text \<open>
  A WebSocket session that got as far as its acknowledgement gives back, when it ends, its
  subscription and its place in the count of connections, whatever frames it saw.
\<close>

theorem ended_ws_session_releases_everything:
  fixes K :: "'k redis_hashes" and w :: "('r redis_pubsub, 'k) push_world"
  assumes "hashes_ok K hash" and "pubsub_inv (pw_pubsub w)" and "fresh_id i (pw_pubsub w)"
    and "ws_open (redis_push_service R K cfg wr rd) now i up t c d w = (w1, Some sess)"
    and "ws_loop (redis_push_service R K cfg wr rd) keepalive inputs (sess, w1) = (sess', w2)"
    and "\<not> wss_running sess'"
  shows "m_connections (pw_metrics w2) = m_connections (pw_metrics w) \<and>
     sub_topics (pw_pubsub w2) = sub_topics (pw_pubsub w)"
proof -
  have winv: "redis_push.winv K hash w"
    using assms(1,2) by (intro redis_winv [THEN iffD2] conjI)
  from ws_open_None_subscribed [OF assms(4)] have c: "c \<noteq> []" and up: up
    and sub: "\<And>w' e. subscribe_client (redis_push_service R K cfg wr rd) i t c d w \<noteq> (w', Inl e)" by auto
  note o = redis_push.ws_open_subscribed [OF winv assms(3,4) c sub]
  from o have w1: "redis_push.winv K hash w1" by (elim conjE)
  from o up have i: "wss_sub sess = i" and run: "wss_running sess"
    and conn: "m_connections (pw_metrics w1) = m_connections (pw_metrics w) + 1"
    and tops: "sub_topics (pw_pubsub w1) = (sub_topics (pw_pubsub w))(i \<mapsto> {})" by simp_all
  note r = redis_push.ws_loop_releases [OF w1 run assms(5,6)]
  have "sub_topics (pw_pubsub w) i = None" using assms(3) by (simp add: fresh_id_def sub_topics_def)
  with r i tops conn show ?thesis by (simp add: fun_upd_idem)
qed

text \<open>
  C36: If the peer is gone before the acknowledgement is sent, the session never starts and is
  never taken back: the connection stays counted and the subscription stays registered.
\<close>

theorem lost_acknowledgement_leaks_session:
  fixes K :: "'k redis_hashes" and w :: "('r redis_pubsub, 'k) push_world"
  assumes "hashes_ok K hash" and "pubsub_inv (pw_pubsub w)" and "fresh_id i (pw_pubsub w)" and "c \<noteq> []"
    and "ws_open (redis_push_service R K cfg wr rd) now i False t c d w = (w1, r)"
    and "snd (subscribe_client (redis_push_service R K cfg wr rd) i t c d w) = Inr i"
  shows "r = None \<and> m_connections (pw_metrics w1) = m_connections (pw_metrics w) + 1 \<and>
     sub_topics (pw_pubsub w1) i = Some {}"
proof -
  have winv: "redis_push.winv K hash w"
    using assms(1,2) by (intro redis_winv [THEN iffD2] conjI)
  have "\<And>w' e. subscribe_client (redis_push_service R K cfg wr rd) i t c d w \<noteq> (w', Inl e)"
    using assms(6) by auto
  from redis_push.ws_open_subscribed [OF winv assms(3,5,4) this] show ?thesis by simp
qed

section \<open>Witnesses\<close>

definition demo_ws_session :: ws_session where
  "demo_ws_session = \<lparr>wss_tenant = ''t'', wss_client = ''c'', wss_device = Some demo_device, wss_sub = 1,
     wss_last_pong = 0, wss_sent = [ConnectAckText], wss_peer_up = True, wss_running = True\<rparr>"

lemma demo_ws_open:
  "ws_open demo_service 0 1 True ''t'' ''c'' (Some demo_device) demo_world = (demo_connected, Some demo_ws_session)"
  by (simp add: ws_open_def demo_connect_result demo_ws_session_def)

theorem ws_ends_exactly_without_pong_witness:
  "wss_running (fst (ws_loop demo_service shipped_keepalive [WsTick 0, WsPong 25000000000, WsTick 30000000000]
     (demo_ws_session, demo_connected)))"
proof -
  have "wss_running demo_ws_session" "wss_peer_up demo_ws_session" by (simp_all add: demo_ws_session_def)
  from ws_ends_exactly_without_pong [OF this, of "[WsTick 0, WsPong 25000000000, WsTick 30000000000]"
      demo_service shipped_keepalive demo_connected]
  show ?thesis by (simp add: secs_def shipped_keepalive_def demo_ws_session_def del: ws_loop.simps)
qed

theorem answering_pings_is_not_enough_witness:
  "\<not> wss_running (fst (ws_loop demo_service shipped_keepalive [WsTick 0, WsPong 50000000, WsTick 30000000000]
     (demo_ws_session, demo_connected)))"
proof -
  have "wss_running demo_ws_session" "wss_peer_up demo_ws_session" "wss_last_pong demo_ws_session = 0"
    by (simp_all add: demo_ws_session_def)
  from answering_pings_is_not_enough [OF this, of 50000000 shipped_keepalive demo_service demo_connected]
  show ?thesis by (simp add: secs_def shipped_keepalive_def del: ws_loop.simps)
qed

theorem ended_ws_session_releases_everything_witness:
  "m_connections (pw_metrics demo_connected) = 1 \<and>
   m_connections (pw_metrics (snd (ws_loop demo_service shipped_keepalive [WsTick 0, WsClose]
     (demo_ws_session, demo_connected)))) = 0"
proof -
  obtain s2 w2 where l: "ws_loop demo_service shipped_keepalive [WsTick 0, WsClose] (demo_ws_session, demo_connected) = (s2, w2)"
    by (cases "ws_loop demo_service shipped_keepalive [WsTick 0, WsClose] (demo_ws_session, demo_connected)")
  then have "s2 = fst (ws_loop demo_service shipped_keepalive [WsTick 0, WsClose] (demo_ws_session, demo_connected))" by simp
  then have "\<not> wss_running s2"
    by (simp add: ws_turn_def demo_ws_session_def ws_finish_session Let_def case_prod_beta ws_send_frame_def)
  moreover have "pubsub_inv (pw_pubsub demo_world)" by (simp add: demo_world_def inv_new)
  ultimately have "m_connections (pw_metrics w2) = m_connections (pw_metrics demo_world)"
    using ended_ws_session_releases_everything [OF memory_hashes_ok _ demo_fresh(1)
        demo_ws_open [unfolded demo_service_def] l [unfolded demo_service_def]] by simp
  moreover have "m_connections (pw_metrics demo_connected) = 1"
    using demo_subscribe [of demo_world demo_kv 1] demo_store(1)
    by (simp add: demo_connected_def demo_world_def metrics_new_def)
  ultimately show ?thesis using l by (simp add: demo_world_def metrics_new_def)
qed

theorem lost_acknowledgement_leaks_session_witness:
  "\<exists>w1. ws_open demo_service 0 1 False ''t'' ''c'' (Some demo_device) demo_world = (w1, None) \<and>
     m_connections (pw_metrics w1) = 1"
proof -
  obtain w1 r where o: "ws_open demo_service 0 1 False ''t'' ''c'' (Some demo_device) demo_world = (w1, r)"
    by (cases "ws_open demo_service 0 1 False ''t'' ''c'' (Some demo_device) demo_world")
  have "pubsub_inv (pw_pubsub demo_world)" by (simp add: demo_world_def inv_new)
  from lost_acknowledgement_leaks_session [OF memory_hashes_ok this demo_fresh(1) _ o [unfolded demo_service_def]]
    demo_connect_result
  have "r = None \<and> m_connections (pw_metrics w1) = m_connections (pw_metrics demo_world) + 1"
    by (simp add: demo_service_def)
  with o show ?thesis by (simp add: demo_world_def metrics_new_def)
qed

end
