(* ===== verification/Sessions.thy ===== *)
theory Sessions
  imports Ws
begin

text \<open>
  The realtime gateway as a whole: any number of gRPC and WebSocket sessions, the calls of
  publishers, and the listener tasks of the broker interleave on one \<open>RedisPubSub\<close>. A step is one
  turn of one session, one call, or one move of a listener. Shown of every state reached: a
  session is only ever handed events of its own tenant, the count of connections is exact, and no
  listener outlives its session, up to the two leaks that the code has.
\<close>

section \<open>State\<close>

datatype live_session = GrpcLive grpc_session | WsLive ws_session

fun live_tenant :: "live_session \<Rightarrow> string" where
  "live_tenant (GrpcLive sess) = gs_tenant sess"
| "live_tenant (WsLive sess) = wss_tenant sess"

fun live_client :: "live_session \<Rightarrow> string" where
  "live_client (GrpcLive sess) = gs_client sess"
| "live_client (WsLive sess) = wss_client sess"

fun live_sub :: "live_session \<Rightarrow> uuid" where
  "live_sub (GrpcLive sess) = gs_sub sess"
| "live_sub (WsLive sess) = wss_sub sess"

fun live_device :: "live_session \<Rightarrow> device option" where
  "live_device (GrpcLive sess) = gs_device sess"
| "live_device (WsLive sess) = wss_device sess"

text \<open>The events that a session was handed, in order, and their channels.\<close>

definition response_events :: "(status + channel_response) list \<Rightarrow> topic_event list" where
  "response_events rs = concat (map (\<lambda>r. case r of
       Inr (ChannelEventResp topic data) \<Rightarrow> [\<lparr>te_topic = topic, te_event = data\<rparr>] | _ \<Rightarrow> []) rs)"

definition frame_events :: "ws_frame list \<Rightarrow> topic_event list" where
  "frame_events fs = concat (map (\<lambda>f. case f of
       EventText topic data \<Rightarrow> [\<lparr>te_topic = topic, te_event = data\<rparr>] | _ \<Rightarrow> []) fs)"

fun live_events :: "live_session \<Rightarrow> topic_event list" where
  "live_events (GrpcLive sess) = response_events (gs_out sess)"
| "live_events (WsLive sess) = frame_events (wss_sent sess)"

definition live_topics :: "live_session \<Rightarrow> string list" where
  "live_topics s = map te_topic (live_events s)"

text \<open>
  Sessions are known by the id of their subscription. \<open>gw_leaks\<close> is not in the program: it records
  the subscriptions that the code forgets to take back, those whose acknowledgement could not be sent
  and those that were refused after the entry was made.
\<close>

datatype leak = AckLost uuid | Refused uuid

fun leak_id :: "leak \<Rightarrow> uuid" where
  "leak_id (AckLost i) = i"
| "leak_id (Refused i) = i"

fun is_ack_lost :: "leak \<Rightarrow> bool" where
  "is_ack_lost (AckLost i) = True"
| "is_ack_lost (Refused i) = False"

record ('r, 'k) gateway_state =
  gw_world :: "('r redis_pubsub, 'k) push_world"
  gw_sessions :: "uuid \<Rightarrow> live_session option"
  gw_leaks :: "leak list"

abbreviation gw_broker :: "('r, 'k) gateway_state \<Rightarrow> 'r redis_pubsub" where
  "gw_broker g \<equiv> pw_pubsub (gw_world g)"

definition gateway_new :: "'r \<Rightarrow> 'k \<Rightarrow> ('r, 'k) gateway_state" where
  "gateway_new r k = \<lparr>gw_world = \<lparr>pw_pubsub = redis_pubsub_new r, pw_kv = k, pw_metrics = metrics_new\<rparr>,
     gw_sessions = Map.empty, gw_leaks = []\<rparr>"

section \<open>Steps\<close>

text \<open>A turn that handles an event takes it out of the subscription's receiver.\<close>

fun take_input :: "uuid \<Rightarrow> topic_event option \<Rightarrow> ('r redis_pubsub, 'k) push_world \<Rightarrow> ('r redis_pubsub, 'k) push_world option" where
  "take_input i None w = Some w"
| "take_input i (Some e) w =
     (case rp_mailboxes (pw_pubsub w) i of
        Some (e' # q) \<Rightarrow> if e' = e then Some (w\<lparr>pw_pubsub := take_event i (pw_pubsub w)\<rparr>) else None
      | _ \<Rightarrow> None)"

fun grpc_event :: "grpc_input \<Rightarrow> topic_event option" where
  "grpc_event (SubEvent e) = Some e"
| "grpc_event _ = None"

fun event_list :: "topic_event option \<Rightarrow> topic_event list" where
  "event_list None = []"
| "event_list (Some e) = [e]"

fun ws_event :: "ws_input \<Rightarrow> topic_event option" where
  "ws_event (WsEvent e) = Some e"
| "ws_event _ = None"

text \<open>The session after a turn: it stays, or it finishes and is gone.\<close>

definition grpc_after ::
    "('b, 'k) push_service \<Rightarrow> grpc_session \<times> ('b, 'k) push_world \<Rightarrow> ('b, 'k) push_world \<times> live_session option" where
  "grpc_after S sw = (if gs_running (fst sw) then (snd sw, Some (GrpcLive (fst sw)))
                      else (snd (grpc_finish S sw), None))"

definition ws_after ::
    "('b, 'k) push_service \<Rightarrow> ws_session \<times> ('b, 'k) push_world \<Rightarrow> ('b, 'k) push_world \<times> live_session option" where
  "ws_after S sw = (if wss_running (fst sw) then (snd sw, Some (WsLive (fst sw)))
                    else (snd (ws_finish S sw), None))"

definition refused_leak :: "uuid \<Rightarrow> ('r redis_pubsub, 'k) push_world \<Rightarrow> leak list" where
  "refused_leak i w = (if rp_subs (pw_pubsub w) i = None then [] else [Refused i])"

text \<open>
  What \<open>ws_open\<close> leaves behind when no session starts: after a subscription that was made it
  is the acknowledgement that failed.
\<close>

definition ws_leak ::
    "('r redis_pubsub, 'k) push_service \<Rightarrow> uuid \<Rightarrow> string \<Rightarrow> string \<Rightarrow> device option \<Rightarrow>
     ('r redis_pubsub, 'k) push_world \<Rightarrow> leak list" where
  "ws_leak S i t c d w =
     (if c = [] then []
      else case subscribe_client S i t c d w of
        (w1, Inl e) \<Rightarrow> refused_leak i w1
      | (w1, Inr sub) \<Rightarrow> [AckLost i])"

inductive gateway_step ::
    "('r redis_pubsub, 'k) grpc_handler \<Rightarrow> ('r redis_pubsub, 'k) ws_state \<Rightarrow>
     ('r, 'k) gateway_state \<Rightarrow> ('r, 'k) gateway_state \<Rightarrow> bool"
  for H :: "('r redis_pubsub, 'k) grpc_handler" and X :: "('r redis_pubsub, 'k) ws_state" where
  grpc_opened: "fresh_id i (gw_broker g) \<Longrightarrow> open_channel H clock now i md (gw_world g) = (w', Inr sess) \<Longrightarrow>
    gateway_step H X g (g\<lparr>gw_world := w', gw_sessions := (gw_sessions g)(i \<mapsto> GrpcLive sess)\<rparr>)"
| grpc_refused: "fresh_id i (gw_broker g) \<Longrightarrow> open_channel H clock now i md (gw_world g) = (w', Inl e) \<Longrightarrow>
    gateway_step H X g (g\<lparr>gw_world := w', gw_leaks := refused_leak i w' @ gw_leaks g\<rparr>)"
| ws_unauthorized: "ws_connect X clock hdrs (gw_world g) = (w', None) \<Longrightarrow>
    gateway_step H X g (g\<lparr>gw_world := w'\<rparr>)"
| ws_opened: "fresh_id i (gw_broker g) \<Longrightarrow> ws_connect X clock hdrs (gw_world g) = (w1, Some (t, c, d)) \<Longrightarrow>
    ws_open (ws_push_service X) now i up t c d w1 = (w', Some wsess) \<Longrightarrow>
    gateway_step H X g (g\<lparr>gw_world := w', gw_sessions := (gw_sessions g)(i \<mapsto> WsLive wsess)\<rparr>)"
| ws_refused: "fresh_id i (gw_broker g) \<Longrightarrow> ws_connect X clock hdrs (gw_world g) = (w1, Some (t, c, d)) \<Longrightarrow>
    ws_open (ws_push_service X) now i up t c d w1 = (w', None) \<Longrightarrow>
    gateway_step H X g (g\<lparr>gw_world := w', gw_leaks := ws_leak (ws_push_service X) i t c d w1 @ gw_leaks g\<rparr>)"
| grpc_turned: "gw_sessions g i = Some (GrpcLive sess) \<Longrightarrow> take_input i (grpc_event inp) (gw_world g) = Some w1 \<Longrightarrow>
    grpc_after (gh_push_service H) (grpc_turn (gh_push_service H) (gh_keepalive H) inp (sess, w1)) = (w', live) \<Longrightarrow>
    gateway_step H X g (g\<lparr>gw_world := w', gw_sessions := (gw_sessions g)(i := live)\<rparr>)"
| ws_turned: "gw_sessions g i = Some (WsLive wsess) \<Longrightarrow> take_input i (ws_event winp) (gw_world g) = Some w1 \<Longrightarrow>
    ws_after (ws_push_service X) (ws_turn (ws_keepalive X) winp (wsess, w1)) = (w', live) \<Longrightarrow>
    gateway_step H X g (g\<lparr>gw_world := w', gw_sessions := (gw_sessions g)(i := live)\<rparr>)"
| publisher: "send_event H clock md call (gw_world g) = (w', res) \<Longrightarrow>
    gateway_step H X g (g\<lparr>gw_world := w'\<rparr>)"
| viewer: "get_client_active_devices H clock md req_client_id (gw_world g) = (w', devices) \<Longrightarrow>
    gateway_step H X g (g\<lparr>gw_world := w'\<rparr>)"
| listener_message: "n < length (rp_tasks (gw_broker g)) \<Longrightarrow> ls_alive (rp_tasks (gw_broker g) ! n) \<Longrightarrow>
    ch \<in> set (ls_channels (rp_tasks (gw_broker g) ! n)) \<Longrightarrow>
    gateway_step H X g (g\<lparr>gw_world := (gw_world g)\<lparr>pw_pubsub := listener_message n ch data (gw_broker g)\<rparr>\<rparr>)"
| listener_end: "n < length (rp_tasks (gw_broker g)) \<Longrightarrow> ls_alive (rp_tasks (gw_broker g) ! n) \<Longrightarrow>
    gateway_step H X g (g\<lparr>gw_world := (gw_world g)\<lparr>pw_pubsub := listener_exit n (gw_broker g)\<rparr>\<rparr>)"
| store_elsewhere: "gateway_step H X g (g\<lparr>gw_world := (gw_world g)\<lparr>pw_kv := k\<rparr>\<rparr>)"

inductive gateway_reachable ::
    "('r redis_pubsub, 'k) grpc_handler \<Rightarrow> ('r redis_pubsub, 'k) ws_state \<Rightarrow> ('r, 'k) gateway_state \<Rightarrow> bool"
  for H :: "('r redis_pubsub, 'k) grpc_handler" and X :: "('r redis_pubsub, 'k) ws_state" where
  start: "gateway_reachable H X (gateway_new r k)"
| step: "gateway_reachable H X g \<Longrightarrow> gateway_step H X g g' \<Longrightarrow> gateway_reachable H X g'"

text \<open>Both servers are wired to one broker.\<close>

definition wired ::
    "'r redis_pubsub_client \<Rightarrow> ('r redis_pubsub, 'k) grpc_handler \<Rightarrow> ('r redis_pubsub, 'k) ws_state \<Rightarrow> bool" where
  "wired R H X \<longleftrightarrow> svc_pubsub (gh_push_service H) = redis_pubsub_ops R \<and>
     svc_pubsub (ws_push_service X) = redis_pubsub_ops R"

section \<open>What the calls do to the broker\<close>

text \<open>The calls of the broker that one session of a tenant makes while it lives.\<close>

inductive session_move :: "'r redis_pubsub_client \<Rightarrow> uuid \<Rightarrow> string \<Rightarrow> 'r redis_pubsub \<Rightarrow> 'r redis_pubsub \<Rightarrow> bool"
  for R :: "'r redis_pubsub_client" and i :: uuid and t :: string where
  idle: "session_move R i t b b"
| join: "session_move R i t b (fst (redis_add_subscription R (topic_channel t p) i b))"
| leave: "session_move R i t b (fst (redis_remove_subscription R (topic_channel t p) i b))"

lemmas wired_ops = redis_pubsub_ops_def on_pubsub_def on_kv_def on_metrics_def io_defs

lemma topic_subscribe_move:
  assumes "svc_pubsub S = redis_pubsub_ops R" and "topic_subscribe S t p i w = (w', r)"
  shows "session_move R i t (pw_pubsub w) (pw_pubsub w') \<and> pw_metrics w' = pw_metrics w"
proof (cases "p = [] \<or> t = []")
  case True
  with assms show ?thesis by (auto simp: topic_subscribe_def throw_def intro: idle split: if_splits)
next
  case False
  with assms have "w' = w\<lparr>pw_pubsub := fst (redis_add_subscription R (topic_channel t p) i (pw_pubsub w))\<rparr>"
    by (auto simp: topic_subscribe_def wired_ops split: prod.splits)
  then show ?thesis by (simp add: join)
qed

lemma topic_unsubscribe_move:
  assumes "svc_pubsub S = redis_pubsub_ops R" and "topic_unsubscribe S t p i w = (w', r)"
  shows "session_move R i t (pw_pubsub w) (pw_pubsub w') \<and> pw_metrics w' = pw_metrics w"
proof (cases "p = [] \<or> t = []")
  case True
  with assms show ?thesis by (auto simp: topic_unsubscribe_def throw_def intro: idle split: if_splits)
next
  case False
  with assms have "w' = w\<lparr>pw_pubsub := fst (redis_remove_subscription R (topic_channel t p) i (pw_pubsub w))\<rparr>"
    by (auto simp: topic_unsubscribe_def wired_ops split: prod.splits)
  then show ?thesis by (simp add: leave)
qed

lemma handle_client_request_move:
  assumes "svc_pubsub S = redis_pubsub_ops R" and "handle_client_request S req sess w = (sess', w')"
  shows "session_move R (gs_sub sess) (gs_tenant sess) (pw_pubsub w) (pw_pubsub w') \<and>
    m_connections (pw_metrics w') = m_connections (pw_metrics w) \<and> same_identity sess sess' \<and>
    response_events (gs_out sess') = response_events (gs_out sess)"
proof (cases "\<exists>topic. req = Some (TopicSubscriptionReq topic)")
  case True
  then obtain p where p: "req = Some (TopicSubscriptionReq p)" by blast
  obtain w1 x where t: "topic_subscribe S (gs_tenant sess) p (gs_sub sess) w = (w1, x)"
    by (cases "topic_subscribe S (gs_tenant sess) p (gs_sub sess) w")
  from topic_subscribe_move [OF assms(1) t] p t assms(2) show ?thesis
    by (cases x) (auto simp: handle_client_request_def same_identity_def resp_send_def response_events_def)
next
  case no_sub: False
  show ?thesis
  proof (cases "\<exists>topic. req = Some (TopicUnsubscriptionReq topic)")
    case True
    then obtain p where p: "req = Some (TopicUnsubscriptionReq p)" by blast
    obtain w1 x where t: "topic_unsubscribe S (gs_tenant sess) p (gs_sub sess) w = (w1, x)"
      by (cases "topic_unsubscribe S (gs_tenant sess) p (gs_sub sess) w")
    from topic_unsubscribe_move [OF assms(1) t] p t assms(2) show ?thesis
      by (cases x) (auto simp: handle_client_request_def same_identity_def resp_send_def response_events_def)
  next
    case False
    with no_sub assms(2) have "sess' = sess" "w' = w"
      by (auto simp: handle_client_request_def split: option.splits channel_request.splits)
    then show ?thesis by (simp add: idle same_identity_def)
  qed
qed

text \<open>A turn of a session; one that stays was handed the event of its input and no other.\<close>

lemma grpc_turn_move:
  assumes "svc_pubsub S = redis_pubsub_ops R" and "grpc_turn S ka inp (sess, w) = (sess', w')"
  shows "session_move R (gs_sub sess) (gs_tenant sess) (pw_pubsub w) (pw_pubsub w') \<and>
    m_connections (pw_metrics w') = m_connections (pw_metrics w) \<and> same_identity sess sess' \<and>
    (gs_running sess' \<longrightarrow> response_events (gs_out sess') = response_events (gs_out sess) @ event_list (grpc_event inp))"
proof (cases inp)
  case (ClientMessage now req)
  with assms(2) handle_client_request_move [OF assms(1), of req "sess\<lparr>gs_last_inbound := now\<rparr>" w sess' w']
  show ?thesis by (simp add: grpc_turn_def same_identity_def)
qed (use assms(2) in \<open>auto simp: grpc_turn_def same_identity_def resp_send_def response_events_def idle
      split: if_splits\<close>)

lemma ws_turn_move:
  assumes "ws_turn ka inp (sess, w) = (sess', w')"
  shows "pw_pubsub w' = pw_pubsub w \<and> m_connections (pw_metrics w') = m_connections (pw_metrics w) \<and>
    wss_sub sess' = wss_sub sess \<and> wss_tenant sess' = wss_tenant sess \<and> wss_client sess' = wss_client sess \<and>
    wss_device sess' = wss_device sess \<and>
    (wss_running sess' \<longrightarrow> frame_events (wss_sent sess') = frame_events (wss_sent sess) @ event_list (ws_event inp))"
  using assms
  by (cases inp) (auto simp: ws_turn_def ws_send_frame_def frame_events_def count_pong_def split: if_splits)

text \<open>The end of a session takes the subscription back and drops its receiver.\<close>

lemma unsubscribe_client_broker:
  assumes "svc_pubsub S = redis_pubsub_ops R"
  shows "pw_pubsub (fst (unsubscribe_client S t c i d w)) = fst (redis_unsubscribe i (pw_pubsub w)) \<and>
    pw_metrics (fst (unsubscribe_client S t c i d w)) = uncount_connection (pw_metrics w)"
  using assms
  by (auto simp: unsubscribe_client_def wired_ops split: prod.splits option.splits sum.splits)

lemma grpc_finish_broker:
  assumes "svc_pubsub S = redis_pubsub_ops R"
  shows "pw_pubsub (snd (grpc_finish S (sess, w))) = drop_subscription (gs_sub sess) (fst (redis_unsubscribe (gs_sub sess) (pw_pubsub w))) \<and>
    pw_metrics (snd (grpc_finish S (sess, w))) = uncount_connection (pw_metrics w)"
  using unsubscribe_client_broker [OF assms] assms
  by (simp add: grpc_finish_def Let_def) (simp add: redis_pubsub_ops_def)

lemma ws_finish_broker:
  assumes "svc_pubsub S = redis_pubsub_ops R"
  shows "pw_pubsub (snd (ws_finish S (sess, w))) = drop_subscription (wss_sub sess) (fst (redis_unsubscribe (wss_sub sess) (pw_pubsub w))) \<and>
    pw_metrics (snd (ws_finish S (sess, w))) = uncount_connection (pw_metrics w)"
  using unsubscribe_client_broker [OF assms] assms
  by (simp add: ws_finish_def Let_def) (simp add: redis_pubsub_ops_def)

text \<open>The start of a session.\<close>

definition tenant_channels :: "string \<Rightarrow> string set" where
  "tenant_channels t = {ch. \<exists>ow. ch = channel_name ow \<and> owner_tenant ow = t}"

lemma tenant_channels_intros [intro]:
  "client_channel t c \<in> tenant_channels t" "device_channel t c v \<in> tenant_channels t"
  "topic_channel t p \<in> tenant_channels t"
  unfolding tenant_channels_def mem_Collect_eq
  by (intro exI [of _ "OfClient t c"], simp) (intro exI [of _ "OfDevice t c v"], simp,
      intro exI [of _ "OfTopic t p"], simp)

text \<open>The channels of a client and its devices, as opposed to those of topics.\<close>

definition direct_channels :: "string \<Rightarrow> string set" where
  "direct_channels t = range (client_channel t) \<union> {ch. \<exists>c v. ch = device_channel t c v}"

lemma direct_channels_tenant: "direct_channels t \<subseteq> tenant_channels t"
  by (auto simp: direct_channels_def)

text \<open>
  The channels of a session by their purpose: that of its client, and that of its device if there is
  one and devices are supported.
\<close>

definition own_channels :: "bool \<Rightarrow> string \<Rightarrow> string \<Rightarrow> device option \<Rightarrow> string list" where
  "own_channels supported t c d = client_channel t c #
     (case d of None \<Rightarrow> [] | Some dv \<Rightarrow> if supported then [device_channel t c (dv_id dv)] else [])"

lemma own_channels_direct: "set (own_channels supported t c d) \<subseteq> direct_channels t \<and> client_channel t c \<in> set (own_channels supported t c d)"
  by (auto simp: own_channels_def direct_channels_def split: option.splits)

lemma session_channels_own:
  "session_channels cfg t c d = Inr chs \<Longrightarrow> chs = own_channels (cc_enable_device_support cfg) t c d"
  by (auto simp: session_channels_def own_channels_def split: if_splits option.splits)

lemma session_channels_direct:
  "session_channels cfg t c d = Inr chs \<Longrightarrow> set chs \<subseteq> direct_channels t \<and> client_channel t c \<in> set chs"
  using session_channels_own own_channels_direct by blast

text \<open>Of a live session, where \<open>D\<close> says whether the server that runs it supports devices.\<close>

definition live_channels :: "(live_session \<Rightarrow> bool) \<Rightarrow> live_session \<Rightarrow> string list" where
  "live_channels D s = own_channels (D s) (live_tenant s) (live_client s) (live_device s)"

fun device_support ::
    "('r redis_pubsub, 'k) grpc_handler \<Rightarrow> ('r redis_pubsub, 'k) ws_state \<Rightarrow> live_session \<Rightarrow> bool" where
  "device_support H X (GrpcLive sess) = cc_enable_device_support (svc_config (gh_push_service H))"
| "device_support H X (WsLive sess) = cc_enable_device_support (svc_config (ws_push_service X))"

lemma subscribe_client_broker:
  assumes "svc_pubsub S = redis_pubsub_ops R" and "subscribe_client S i t c d w = (w', r)"
  obtains (refused) e where "r = Inl e" "pw_pubsub w' = pw_pubsub w" "pw_metrics w' = pw_metrics w"
    | (failed) chs b e x where "session_channels (svc_config S) t c d = Inr chs" "redis_subscribe R i chs (pw_pubsub w) = (b, x)"
        "r = Inl e" "pw_pubsub w' = b \<or> pw_pubsub w' = drop_subscription i b" "pw_metrics w' = pw_metrics w"
    | (subscribed) chs b where "session_channels (svc_config S) t c d = Inr chs" "redis_subscribe R i chs (pw_pubsub w) = (b, Inr i)"
        "r = Inr i" "pw_pubsub w' = b" "pw_metrics w' = count_connection (pw_metrics w)"
proof (cases "session_channels (svc_config S) t c d")
  case (Inl e)
  with assms have "r = Inl e" "w' = w" by (simp_all add: subscribe_client_def io_defs)
  with refused show thesis by blast
next
  case chs: (Inr chs)
  obtain b x where b: "redis_subscribe R i chs (pw_pubsub w) = (b, x)"
    by (cases "redis_subscribe R i chs (pw_pubsub w)")
  show thesis
  proof (cases x)
    case (Inl e)
    with assms chs b have "r = Inl (Internal e)" "pw_pubsub w' = b" "pw_metrics w' = pw_metrics w"
      by (auto simp: subscribe_client_def wired_ops)
    with failed [OF chs b] show thesis by blast
  next
    case (Inr j)
    from b have j: "j = i" unfolding Inr by (cases rule: redis_subscribe_cases) simp_all
    let ?w = "w\<lparr>pw_pubsub := b\<rparr>"
    obtain w2 y where s: "(case (if cc_enable_device_support (svc_config S) then d else None) of
                None \<Rightarrow> ret () | Some d \<Rightarrow> store_device S t c i d) ?w = (w2, y)" by fastforce
    have y: "(y = Inr () \<and> pw_pubsub w2 = b \<or> (\<exists>e. y = Inl e) \<and> pw_pubsub w2 = drop_subscription i b)
        \<and> pw_metrics w2 = pw_metrics w"
      using s assms(1)
      by (auto simp: store_device_def wired_ops split: option.splits sum.splits prod.splits if_splits)
    from assms chs b Inr j s have e: "(w', r) = (case y of Inl e \<Rightarrow> (w2, Inl e)
        | Inr _ \<Rightarrow> (w2\<lparr>pw_metrics := count_connection (pw_metrics w2)\<rparr>, Inr i))"
      by (cases y) (simp_all add: subscribe_client_def on_pubsub_def on_metrics_def redis_pubsub_ops_def io_defs)
    show thesis
    proof (cases y)
      case (Inl e')
      with e y have "r = Inl e'" "pw_pubsub w' = drop_subscription i b" "pw_metrics w' = pw_metrics w" by auto
      with failed [OF chs b] show thesis by blast
    next
      case (Inr u)
      with e y have "r = Inr i" "pw_pubsub w' = b" "pw_metrics w' = count_connection (pw_metrics w)" by auto
      with subscribed [OF chs] b \<open>x = Inr j\<close> j show thesis by blast
    qed
  qed
qed

section \<open>What a call on one subscription touches\<close>

text \<open>
  A call on behalf of subscription \<open>i\<close>: tasks are as before but for flags, then come new ones of
  \<open>i\<close> on channels in \<open>A\<close>; the receiver of \<open>i\<close> is as before, gone, or new and empty; the receivers
  and entries of the other subscriptions are as before.
\<close>

definition same_feed :: "listener \<Rightarrow> listener \<Rightarrow> bool" where
  "same_feed t t' \<longleftrightarrow> ls_sub t' = ls_sub t \<and> ls_channels t' = ls_channels t"

definition touches :: "uuid \<Rightarrow> string set \<Rightarrow> 'r redis_pubsub \<Rightarrow> 'r redis_pubsub \<Rightarrow> bool" where
  "touches i A b b' \<longleftrightarrow>
     length (rp_tasks b) \<le> length (rp_tasks b') \<and>
     (\<forall>n<length (rp_tasks b'). if n < length (rp_tasks b) then same_feed (rp_tasks b ! n) (rp_tasks b' ! n)
        else ls_sub (rp_tasks b' ! n) = i \<and> set (ls_channels (rp_tasks b' ! n)) \<subseteq> A) \<and>
     (\<forall>q. rp_mailboxes b' i = Some q \<longrightarrow> rp_mailboxes b i = Some q \<or> q = []) \<and>
     (\<forall>j. j \<noteq> i \<longrightarrow> rp_mailboxes b' j = rp_mailboxes b j \<and> rp_subs b' j = rp_subs b j)"

lemma same_feed_refl [simp]: "same_feed t t"
  by (simp add: same_feed_def)

lemma touches_same:
  "rp_tasks b' = rp_tasks b \<Longrightarrow> rp_mailboxes b' = rp_mailboxes b \<Longrightarrow> rp_subs b' = rp_subs b \<Longrightarrow> touches i A b b'"
  by (simp add: touches_def)

lemma touches_core: "same_core b b' \<Longrightarrow> touches i A b b'"
  by (rule touches_same) (simp_all add: same_coreD)

lemma touches_trans:
  assumes "touches i A b b'" and "touches i A b' b''"
  shows "touches i A b b''"
proof -
  have "if n < length (rp_tasks b) then same_feed (rp_tasks b ! n) (rp_tasks b'' ! n)
      else ls_sub (rp_tasks b'' ! n) = i \<and> set (ls_channels (rp_tasks b'' ! n)) \<subseteq> A"
    if n: "n < length (rp_tasks b'')" for n
  proof (cases "n < length (rp_tasks b')")
    case True
    with assms n have "same_feed (rp_tasks b' ! n) (rp_tasks b'' ! n)" by (simp add: touches_def)
    with True assms(1) show ?thesis by (auto simp: touches_def same_feed_def)
  next
    case False
    with assms(1) have "\<not> n < length (rp_tasks b)" by (simp add: touches_def)
    with False assms(2) n show ?thesis by (simp add: touches_def)
  qed
  moreover have "rp_mailboxes b i = Some q \<or> q = []" if "rp_mailboxes b'' i = Some q" for q
    using assms that unfolding touches_def by blast
  ultimately show ?thesis using assms by (simp add: touches_def)
qed

lemma touches_drop: "touches i A b (drop_subscription i b)"
  by (simp add: touches_def drop_subscription_def)

lemma touches_register: "touches i A b (register i b)"
  by (simp add: touches_def register_def)

lemma touches_spawn_main: "set chs \<subseteq> A \<Longrightarrow> touches i A b (spawn_main i chs b)"
  by (simp add: touches_def spawn_main_def nth_append)

lemma touches_spawn_topic: "ch \<in> A \<Longrightarrow> touches i A b (spawn_topic ch i b)"
  by (simp add: touches_def spawn_topic_def nth_append)

lemma touches_shutdown:
  assumes "rp_tasks b' = fold send_shutdown ns (rp_tasks b)" and "rp_mailboxes b' = rp_mailboxes b"
    and "\<And>j. j \<noteq> i \<Longrightarrow> rp_subs b' j = rp_subs b j"
  shows "touches i A b b'"
  using assms by (simp add: touches_def nth_send_shutdown same_feed_def)

lemma touches_unsubscribe: "touches i A b (fst (redis_unsubscribe i b))"
proof (cases "rp_subs b i")
  case None
  then show ?thesis by (intro touches_same) (simp_all add: redis_unsubscribe_def io_defs)
next
  case (Some a)
  then show ?thesis
    by (intro touches_shutdown [where ns = "entry_tasks a"]) (simp_all add: redis_unsubscribe_def io_defs)
qed

lemma touches_add:
  assumes "ch \<in> A"
  shows "touches i A b (fst (redis_add_subscription R ch i b))"
proof -
  obtain b' r where a: "redis_add_subscription R ch i b = (b', r)" by (cases "redis_add_subscription R ch i b")
  then have "touches i A b b'"
    by (cases rule: redis_add_cases)
      (auto intro: touches_core touches_same touches_trans [OF touches_core touches_spawn_topic [OF assms]])
  with a show ?thesis by simp
qed

lemma touches_remove: "touches i A b (fst (redis_remove_subscription R ch i b))"
proof (cases "rp_subs b i")
  case None
  then show ?thesis by (intro touches_same) (simp_all add: redis_remove_subscription_def io_defs)
next
  case (Some a)
  show ?thesis
  proof (cases "map_of (as_topic_controls a) ch")
    case None
    with Some show ?thesis by (intro touches_same) (simp_all add: redis_remove_subscription_def io_defs)
  next
    case (Some n)
    with \<open>rp_subs b i = Some a\<close> show ?thesis
      by (intro touches_shutdown [where ns = "[n]"])
        (simp_all add: redis_remove_subscription_def remove_topic_def io_defs)
  qed
qed

lemma touches_subscribe:
  assumes "set chs \<subseteq> A" and "redis_subscribe R i chs b = (b', r)"
  shows "touches i A b b'"
  using assms(2)
proof (cases rule: redis_subscribe_cases)
  case (failed t e)
  from touches_trans [OF touches_register touches_trans [OF touches_core [OF failed(1)] touches_drop]] failed(2)
  show ?thesis by simp
next
  case (subscribed t)
  from touches_trans [OF touches_register touches_trans [OF touches_core [OF subscribed(1)] touches_spawn_main [OF assms(1)]]]
    subscribed(2) show ?thesis by simp
qed

lemma session_move_topics: "session_move R i t b b' \<Longrightarrow> touches i (range (topic_channel t)) b b'"
  by (cases rule: session_move.cases) (auto intro: touches_same touches_add touches_remove)

lemma touches_mono:
  assumes "touches i A b b'" and "A \<subseteq> B"
  shows "touches i B b b'"
proof -
  have "if n < length (rp_tasks b) then same_feed (rp_tasks b ! n) (rp_tasks b' ! n)
      else ls_sub (rp_tasks b' ! n) = i \<and> set (ls_channels (rp_tasks b' ! n)) \<subseteq> B"
    if "n < length (rp_tasks b')" for n
    using assms that subset_trans [OF _ assms(2)] by (cases "n < length (rp_tasks b)") (simp_all add: touches_def)
  with assms(1) show ?thesis by (simp add: touches_def)
qed

lemma session_move_touches: "session_move R i t b b' \<Longrightarrow> touches i (tenant_channels t) b b'"
  by (erule touches_mono [OF session_move_topics]) auto

text \<open>A live session keeps its entry.\<close>

lemma session_move_entry:
  assumes "session_move R i t b b'" and "rp_subs b i \<noteq> None"
  shows "rp_subs b' i \<noteq> None"
  using assms(1)
proof cases
  case idle
  with assms(2) show ?thesis by simp
next
  case (join p)
  obtain b1 r where a: "redis_add_subscription R (topic_channel t p) i b = (b1, r)"
    by (cases "redis_add_subscription R (topic_channel t p) i b")
  then have "rp_subs b1 i \<noteq> None"
    by (cases rule: redis_add_cases) (use assms(2) in \<open>auto simp: same_coreD spawn_topic_def\<close>)
  with join a show ?thesis by simp
next
  case (leave p)
  with assms(2) show ?thesis
    by (auto simp: redis_remove_subscription_def remove_topic_def io_defs split: option.splits)
qed

text \<open>Every step of the gateway is steps of the broker.\<close>

lemma session_move_steps: "session_move R i t b b' \<Longrightarrow> (pubsub_step R)\<^sup>*\<^sup>* b b'"
  by (cases rule: session_move.cases) (auto intro: pubsub_step.intros)

section \<open>The gateway as a hub of sessions\<close>

text \<open>What a publish does to the broker: calls of the Redis client, and nothing else.\<close>

inductive client_call :: "'r redis_pubsub_client \<Rightarrow> 'r \<Rightarrow> 'r \<Rightarrow> bool" for R where
  connected: "client_call R r (fst (rc_get_async_pubsub R r))"
| subscribed: "client_call R r (fst (rc_subscribe R ch r))"
| published: "client_call R r (fst (rc_publish R ch data r))"

definition quiet_broker :: "'r redis_pubsub_client \<Rightarrow> 'r redis_pubsub \<Rightarrow> 'r redis_pubsub \<Rightarrow> bool" where
  "quiet_broker R b b' \<longleftrightarrow> same_core b b' \<and> (client_call R)\<^sup>*\<^sup>* (rp_redis b) (rp_redis b')"

lemma quiet_broker_core: "quiet_broker R b b' \<Longrightarrow> same_core b b'"
  by (simp add: quiet_broker_def)

lemma quiet_broker_refl: "quiet_broker R b b"
  by (simp add: quiet_broker_def core.R_refl)

lemma quiet_broker_trans: "quiet_broker R b b' \<Longrightarrow> quiet_broker R b' b'' \<Longrightarrow> quiet_broker R b b''"
  unfolding quiet_broker_def by (blast intro: core.R_trans rtranclp_trans)

lemma quiet_redis_publish: "quiet_broker R b (fst (redis_publish R ch d b))"
  using published [of R "rp_redis b" ch d] conformsD [OF conforms_on_redis [of "rc_publish R ch d"], of b]
  by (simp add: quiet_broker_def redis_publish_def on_redis_def zoom_def split: prod.splits)

text \<open>
  What the gateway does, seen from its sessions: the rest of the handlers, tokens, devices, frames
  and counters is left out. The invariants are those of the hub; the gateway refines it.
\<close>

record 'r hub =
  hb_broker :: "'r redis_pubsub"
  hb_connections :: u64
  hb_sessions :: "uuid \<Rightarrow> live_session option"
  hb_leaks :: "leak list"

definition hub_of :: "('r, 'k) gateway_state \<Rightarrow> 'r hub" where
  "hub_of g = \<lparr>hb_broker = gw_broker g, hb_connections = m_connections (pw_metrics (gw_world g)),
     hb_sessions = gw_sessions g, hb_leaks = gw_leaks g\<rparr>"

text \<open>
  A session reads at most the first event of its receiver, and is handed at most that event.
\<close>

inductive reads :: "uuid \<Rightarrow> topic_event list \<Rightarrow> 'r redis_pubsub \<Rightarrow> 'r redis_pubsub \<Rightarrow> bool" for i where
  no_event: "reads i [] b b"
| one_event: "rp_mailboxes b i = Some (e # q) \<Longrightarrow> reads i [e] b (take_event i b)"

inductive hub_step :: "'r redis_pubsub_client \<Rightarrow> (live_session \<Rightarrow> bool) \<Rightarrow> 'r hub \<Rightarrow> 'r hub \<Rightarrow> bool"
  for R :: "'r redis_pubsub_client" and D :: "live_session \<Rightarrow> bool" where
  quiet: "quiet_broker R (hb_broker h) b' \<Longrightarrow> hub_step R D h (h\<lparr>hb_broker := b'\<rparr>)"
| opened: "fresh_id i (hb_broker h) \<Longrightarrow> redis_subscribe R i chs (hb_broker h) = (b', Inr i) \<Longrightarrow>
    set chs \<subseteq> direct_channels (live_tenant s) \<Longrightarrow>
    client_channel (live_tenant s) (live_client s) \<in> set chs \<Longrightarrow> live_sub s = i \<Longrightarrow> live_events s = [] \<Longrightarrow>
    chs = live_channels D s \<Longrightarrow>
    hub_step R D h (h\<lparr>hb_broker := b', hb_connections := hb_connections h + 1,
      hb_sessions := (hb_sessions h)(i \<mapsto> s)\<rparr>)"
| refused: "fresh_id i (hb_broker h) \<Longrightarrow> redis_subscribe R i chs (hb_broker h) = (b1, res) \<Longrightarrow>
    b' \<in> {hb_broker h, b1, drop_subscription i b1} \<Longrightarrow> new_leak \<in> {[], [Refused i], [AckLost i]} \<Longrightarrow>
    (rp_subs b' i \<noteq> None \<longrightarrow> new_leak \<noteq> []) \<Longrightarrow>
    hub_step R D h (h\<lparr>hb_broker := b',
      hb_connections := hb_connections h + of_nat (length (filter is_ack_lost new_leak)),
      hb_leaks := new_leak @ hb_leaks h\<rparr>)"
| turned: "hb_sessions h i = Some s \<Longrightarrow> reads i es (hb_broker h) b1 \<Longrightarrow>
    session_move R (live_sub s) (live_tenant s) b1 b' \<Longrightarrow> live_sub s' = live_sub s \<Longrightarrow>
    live_tenant s' = live_tenant s \<Longrightarrow> live_client s' = live_client s \<Longrightarrow> live_events s' = live_events s @ es \<Longrightarrow>
    live_channels D s' = live_channels D s \<Longrightarrow>
    hub_step R D h (h\<lparr>hb_broker := b', hb_sessions := (hb_sessions h)(i \<mapsto> s')\<rparr>)"
| ended: "hb_sessions h i = Some s \<Longrightarrow> reads i es (hb_broker h) b1 \<Longrightarrow>
    session_move R (live_sub s) (live_tenant s) b1 b2 \<Longrightarrow>
    hub_step R D h (h\<lparr>hb_broker := drop_subscription (live_sub s) (fst (redis_unsubscribe (live_sub s) b2)),
      hb_connections := hb_connections h - 1, hb_sessions := (hb_sessions h)(i := None)\<rparr>)"
| message: "n < length (rp_tasks (hb_broker h)) \<Longrightarrow> ls_alive (rp_tasks (hb_broker h) ! n) \<Longrightarrow>
    ch \<in> set (ls_channels (rp_tasks (hb_broker h) ! n)) \<Longrightarrow>
    hub_step R D h (h\<lparr>hb_broker := listener_message n ch data (hb_broker h)\<rparr>)"
| exit: "n < length (rp_tasks (hb_broker h)) \<Longrightarrow> ls_alive (rp_tasks (hb_broker h) ! n) \<Longrightarrow>
    hub_step R D h (h\<lparr>hb_broker := listener_exit n (hb_broker h)\<rparr>)"

section \<open>The gateway refines the hub\<close>

lemma take_input_reads:
  assumes "take_input i inp w = Some w1"
  shows "reads i (event_list inp) (pw_pubsub w) (pw_pubsub w1) \<and> pw_metrics w1 = pw_metrics w"
proof (cases inp)
  case None
  with assms show ?thesis by (simp add: no_event)
next
  case (Some e)
  with assms obtain q where "rp_mailboxes (pw_pubsub w) i = Some (e # q)"
      "w1 = w\<lparr>pw_pubsub := take_event i (pw_pubsub w)\<rparr>"
    by (auto split: option.splits list.splits if_splits)
  with Some show ?thesis by (auto intro: one_event)
qed

text \<open>Publishing and listing devices reach Redis and the store only.\<close>

definition quiet_world ::
    "'r redis_pubsub_client \<Rightarrow> ('r redis_pubsub, 'k) push_world \<Rightarrow> ('r redis_pubsub, 'k) push_world \<Rightarrow> bool" where
  "quiet_world R w w' \<longleftrightarrow> quiet_broker R (pw_pubsub w) (pw_pubsub w') \<and>
     m_connections (pw_metrics w') = m_connections (pw_metrics w)"

interpretation qw: effect_preorder "quiet_world R" for R :: "'r redis_pubsub_client"
  by unfold_locales (auto simp: quiet_world_def quiet_broker_refl intro: quiet_broker_trans)

lemma quiet_publish_counted:
  assumes "svc_pubsub S = redis_pubsub_ops R"
  shows "conforms (quiet_world R) (publish_counted S ch d)"
proof -
  have "conforms (quiet_world R) (on_pubsub (ps_publish (svc_pubsub S) ch d) :: (('a redis_pubsub, 'b) push_world, string, unit) io)"
    unfolding on_pubsub_def
    by (rule conforms_zoom) (simp add: quiet_world_def assms redis_pubsub_ops_def quiet_redis_publish)
  moreover have "conforms (quiet_world R) (on_metrics count_published :: (('a redis_pubsub, 'b) push_world, propeller_error, unit) io)"
    unfolding on_metrics_def
    by (rule qw.conforms_modify) (simp add: quiet_world_def quiet_broker_refl count_published_def)
  ultimately show ?thesis
    using assms unfolding publish_counted_def by (intro qw.conforms_combinators) simp_all
qed

lemma quiet_publish_to_topics:
  assumes "svc_pubsub S = redis_pubsub_ops R"
  shows "conforms (quiet_world R) (publish_to_topics S reqs)"
  by (induction reqs)
    (simp_all add: qw.conforms_combinators publish_to_topic_def quiet_publish_counted [OF assms])

lemma quiet_send_event:
  assumes "svc_pubsub (gh_push_service H) = redis_pubsub_ops R"
  shows "conforms (quiet_world R) (send_event H clock md call)"
proof -
  have "conforms (quiet_world R) (publish_call (gh_push_service H) t call)" for t
    by (cases call)
      (simp_all add: publish_call_def publish_to_client_def publish_to_client_device_def publish_to_topic_def
        qw.conforms_combinators quiet_publish_counted [OF assms] quiet_publish_to_topics [OF assms])
  then show ?thesis
    unfolding send_event_def by (intro qw.conforms_combinators)
qed

lemma quiet_get_client_active_devices: "conforms (quiet_world R) (get_client_active_devices H clock md c)"
proof -
  have "conforms (quiet_world R) (on_kv m :: (('a redis_pubsub, 'b) push_world, string, 'c) io)"
    for m :: "('b, string, 'c) io"
    unfolding on_kv_def by (rule conforms_zoom) (simp add: quiet_world_def quiet_broker_refl)
  then have "conforms (quiet_world R) (get_active_devices S req)" for S :: "('a redis_pubsub, 'b) push_service" and req
    unfolding get_active_devices_def by (intro qw.conforms_combinators)
  then show ?thesis
    unfolding get_client_active_devices_def case_prod_beta by (intro qw.conforms_combinators)
qed

lemma open_channel_cases:
  assumes "svc_pubsub (gh_push_service H) = redis_pubsub_ops R" and "open_channel H clock now i md w = (w', r)"
  obtains (unauthenticated) e where "r = Inl e" "pw_pubsub w' = pw_pubsub w"
      "m_connections (pw_metrics w') = m_connections (pw_metrics w)"
    | (failed) chs b x e where "redis_subscribe R i chs (pw_pubsub w) = (b, x)" "r = Inl e"
      "pw_pubsub w' \<in> {b, drop_subscription i b}" "m_connections (pw_metrics w') = m_connections (pw_metrics w)"
    | (opened) chs b sess where "redis_subscribe R i chs (pw_pubsub w) = (b, Inr i)" "r = Inr sess"
      "set chs \<subseteq> direct_channels (gs_tenant sess)" "client_channel (gs_tenant sess) (gs_client sess) \<in> set chs" "gs_sub sess = i" "response_events (gs_out sess) = []"
      "chs = own_channels (cc_enable_device_support (svc_config (gh_push_service H))) (gs_tenant sess) (gs_client sess) (gs_device sess)"
      "pw_pubsub w' = b" "m_connections (pw_metrics w') = m_connections (pw_metrics w) + 1"
proof -
  let ?wa = "w\<lparr>pw_metrics := count_auth (auth_client H clock md) (pw_metrics w)\<rparr>"
  note failed_case = failed
  show thesis
  proof (cases "auth_client H clock md")
    case (Inl e)
    with assms(2) have "r = Inl e" "w' = ?wa"
      by (simp_all add: open_channel_def on_metrics_def io_defs)
    with unauthenticated show thesis by simp
  next
    case (Inr al)
    obtain auth legacy where al: "al = (auth, legacy)" by (cases al)
    obtain w1 x where s: "subscribe_client (gh_push_service H) i (ac_tenant_id auth) (ac_client_id auth)
        (extract_device (gh_client_config H) md) ?wa = (w1, x)" by fastforce
    from assms(2) Inr al s have o: "(w', r) = (w1, case x of Inl e \<Rightarrow> Inl (status_of e)
       | Inr sub \<Rightarrow> Inr \<lparr>gs_tenant = ac_tenant_id auth, gs_client = ac_client_id auth,
           gs_device = extract_device (gh_client_config H) md, gs_sub = sub, gs_last_inbound = now,
           gs_out = [Inr (ConnectAckResp ok_status)], gs_open = True, gs_running = True\<rparr>)"
      by (cases x) (simp_all add: open_channel_def on_metrics_def io_defs Let_def)
    from assms(1) s show thesis
    proof (cases rule: subscribe_client_broker)
      case (refused e)
      with o unauthenticated show thesis by simp
    next
      case (failed chs b e x)
      with o failed_case show thesis by auto
    next
      case (subscribed chs b)
      from subscribed(1) have "set chs \<subseteq> direct_channels (ac_tenant_id auth) \<and>
          client_channel (ac_tenant_id auth) (ac_client_id auth) \<in> set chs" by (rule session_channels_direct)
      moreover define sess where "sess = \<lparr>gs_tenant = ac_tenant_id auth, gs_client = ac_client_id auth,
        gs_device = extract_device (gh_client_config H) md, gs_sub = i, gs_last_inbound = now,
        gs_out = [Inr (ConnectAckResp ok_status)], gs_open = True, gs_running = True\<rparr>"
      moreover have "chs = own_channels (cc_enable_device_support (svc_config (gh_push_service H)))
          (gs_tenant sess) (gs_client sess) (gs_device sess)"
        unfolding sess_def by simp (rule session_channels_own [OF subscribed(1)])
      moreover from o subscribed(3) have "r = Inr sess" "w' = w1" by (simp_all add: sess_def)
      ultimately show thesis
        using opened [of chs b sess] subscribed(2,4,5) by (simp add: response_events_def)
    qed
  qed
qed

lemma ws_connect_quiet:
  "ws_connect X clock hdrs w = (w', r) \<Longrightarrow>
     pw_pubsub w' = pw_pubsub w \<and> m_connections (pw_metrics w') = m_connections (pw_metrics w)"
  by (auto simp: ws_connect_def Let_def split: sum.splits if_splits)

lemma ws_open_started:
  assumes "svc_pubsub S = redis_pubsub_ops R" and "ws_open S now i up t c d w = (w', Some sess)"
  obtains chs b where "redis_subscribe R i chs (pw_pubsub w) = (b, Inr i)"
    "set chs \<subseteq> direct_channels (wss_tenant sess)" "client_channel (wss_tenant sess) (wss_client sess) \<in> set chs" "wss_sub sess = i" "frame_events (wss_sent sess) = []"
    "chs = own_channels (cc_enable_device_support (svc_config S)) (wss_tenant sess) (wss_client sess) (wss_device sess)"
    "pw_pubsub w' = b" "m_connections (pw_metrics w') = m_connections (pw_metrics w) + 1"
proof -
  from assms(2) obtain sub where s: "subscribe_client S i t c d w = (w', Inr sub)"
    and sess: "wss_tenant sess = t" "wss_client sess = c" "wss_device sess = d" "wss_sub sess = sub" "wss_sent sess = [ConnectAckText]"
    by (auto simp: ws_open_def split: if_splits prod.splits sum.splits)
  from assms(1) s show thesis
  proof (cases rule: subscribe_client_broker)
    case (subscribed chs b)
    with session_channels_direct [OF subscribed(1)] session_channels_own [OF subscribed(1)] sess that [of chs b] show thesis
      by (simp add: frame_events_def)
  qed simp_all
qed

lemma ws_open_refused:
  assumes "svc_pubsub S = redis_pubsub_ops R" and "fresh_id i (pw_pubsub w)"
    and "ws_open S now i up t c d w = (w', None)"
  obtains chs b x where "redis_subscribe R i chs (pw_pubsub w) = (b, x)"
    "pw_pubsub w' \<in> {pw_pubsub w, b, drop_subscription i b}"
    "ws_leak S i t c d w \<in> {[], [Refused i], [AckLost i]}"
    "rp_subs (pw_pubsub w') i \<noteq> None \<longrightarrow> ws_leak S i t c d w \<noteq> []"
    "m_connections (pw_metrics w') =
       m_connections (pw_metrics w) + of_nat (length (filter is_ack_lost (ws_leak S i t c d w)))"
proof (cases "c = []")
  case True
  obtain b x where b: "redis_subscribe R i [] (pw_pubsub w) = (b, x)" by fastforce
  from True assms(2,3) that [OF b] show thesis by (simp add: ws_open_def ws_leak_def fresh_id_def)
next
  case False
  obtain w1 y where s: "subscribe_client S i t c d w = (w1, y)" by fastforce
  from assms(1) s show thesis
  proof (cases rule: subscribe_client_broker)
    case (refused e)
    obtain b x where b: "redis_subscribe R i [] (pw_pubsub w) = (b, x)" by fastforce
    from refused False s assms(2,3) that [OF b] show thesis
      by (simp add: ws_open_def ws_leak_def refused_leak_def fresh_id_def)
  next
    case (failed chs b e x)
    with False s assms(3) that [OF failed(2)] show thesis
      by (auto simp: ws_open_def ws_leak_def refused_leak_def)
  next
    case (subscribed chs b)
    with False s assms(1,3) that [OF subscribed(2)] show thesis
      by (auto simp: ws_open_def ws_leak_def redis_pubsub_ops_def split: if_splits)
  qed
qed

lemma hub_of_simps [simp]:
  "hb_broker (hub_of g) = gw_broker g" "hb_connections (hub_of g) = m_connections (pw_metrics (gw_world g))"
  "hb_sessions (hub_of g) = gw_sessions g" "hb_leaks (hub_of g) = gw_leaks g"
  by (simp_all add: hub_of_def)

lemma hub_quiet:
  assumes "quiet_world R (gw_world g) w'"
  shows "hub_step R D (hub_of g) (hub_of (g\<lparr>gw_world := w'\<rparr>))"
  using quiet [of R "hub_of g" "pw_pubsub w'" D] assms by (simp add: quiet_world_def hub_of_def)

lemma hub_idle: "pw_pubsub w' = gw_broker g \<Longrightarrow> m_connections (pw_metrics w') = m_connections (pw_metrics (gw_world g)) \<Longrightarrow>
    hub_step R D (hub_of g) (hub_of (g\<lparr>gw_world := w'\<rparr>))"
  by (rule hub_quiet) (simp add: quiet_world_def quiet_broker_refl)

lemma hub_turn:
  assumes "gw_sessions g i = Some s" and "take_input i inp (gw_world g) = Some w1"
    and "session_move R (live_sub s) (live_tenant s) (pw_pubsub w1) (pw_pubsub w2)"
    and "m_connections (pw_metrics w2) = m_connections (pw_metrics w1)"
    and "live_sub s' = live_sub s" "live_tenant s' = live_tenant s" "live_client s' = live_client s"
    and chs: "live_channels D s' = live_channels D s"
    and "live_events s' = live_events s @ event_list inp \<and> (w', live) = (w2, Some s') \<or>
      pw_pubsub w' = drop_subscription (live_sub s) (fst (redis_unsubscribe (live_sub s) (pw_pubsub w2))) \<and>
      pw_metrics w' = uncount_connection (pw_metrics w2) \<and> live = None"
  shows "hub_step R D (hub_of g) (hub_of (g\<lparr>gw_world := w', gw_sessions := (gw_sessions g)(i := live)\<rparr>))"
proof -
  from take_input_reads [OF assms(2)] have r: "reads i (event_list inp) (hb_broker (hub_of g)) (pw_pubsub w1)"
    and m: "pw_metrics w1 = pw_metrics (gw_world g)" by simp_all
  from assms(1) have s: "hb_sessions (hub_of g) i = Some s" by simp
  from assms(9) show ?thesis
  proof
    assume "live_events s' = live_events s @ event_list inp \<and> (w', live) = (w2, Some s')"
    with turned [OF s r assms(3,5,6,7), of D] chs assms(4) m show ?thesis by (simp add: hub_of_def)
  next
    assume "pw_pubsub w' = drop_subscription (live_sub s) (fst (redis_unsubscribe (live_sub s) (pw_pubsub w2))) \<and>
      pw_metrics w' = uncount_connection (pw_metrics w2) \<and> live = None"
    with ended [OF s r assms(3), of D] assms(4) m show ?thesis by (simp add: hub_of_def)
  qed
qed

lemma gateway_refines_hub_step:
  assumes "wired R H X" and "gateway_step H X g g'"
  shows "hub_step R (device_support H X) (hub_of g) (hub_of g')"
proof -
  from assms(1) have G: "svc_pubsub (gh_push_service H) = redis_pubsub_ops R"
    and W: "svc_pubsub (ws_push_service X) = redis_pubsub_ops R" by (simp_all add: wired_def)
  from assms(2) show ?thesis
  proof cases
    case (grpc_opened i clock now md w' sess)
    from G grpc_opened(3) show ?thesis
    proof (cases rule: open_channel_cases)
      case (opened chs b sess')
      from opened(2) have same: "sess' = sess" by simp
      from opened(7) have chs: "chs = live_channels (device_support H X) (GrpcLive sess)"
        unfolding same by (simp only: live_channels_def device_support.simps live_tenant.simps live_client.simps live_device.simps)
      show ?thesis
        using hub_step.opened [OF _ _ _ _ _ _ chs, of i "hub_of g" R b] grpc_opened opened(1,3-6,8,9)
        unfolding same by (simp add: hub_of_def)
    qed simp_all
  next
    case (grpc_refused i clock now md w' e)
    from G grpc_refused(3) show ?thesis
    proof (cases rule: open_channel_cases)
      case unauthenticated
      with grpc_refused hub_idle [of w' g R "device_support H X"] show ?thesis by (simp add: refused_leak_def fresh_id_def)
    next
      case (failed chs b x e')
      with hub_step.refused [of i "hub_of g" R chs b x "pw_pubsub w'" "refused_leak i w'"] grpc_refused
      show ?thesis by (auto simp: hub_of_def refused_leak_def)
    qed simp
  next
    case (ws_unauthorized clock hdrs w')
    with ws_connect_quiet [OF ws_unauthorized(2)] hub_idle [of w' g R "device_support H X"] show ?thesis by simp
  next
    case (ws_opened i clock hdrs w1 t c d now up w' sess)
    note q = ws_connect_quiet [OF ws_opened(3)]
    obtain chs b where b: "redis_subscribe R i chs (pw_pubsub w1) = (b, Inr i)"
      "set chs \<subseteq> direct_channels (wss_tenant sess)" "client_channel (wss_tenant sess) (wss_client sess) \<in> set chs"
      "wss_sub sess = i" "frame_events (wss_sent sess) = []"
      and own: "chs = own_channels (cc_enable_device_support (svc_config (ws_push_service X))) (wss_tenant sess) (wss_client sess) (wss_device sess)"
      and w': "pw_pubsub w' = b" "m_connections (pw_metrics w') = m_connections (pw_metrics w1) + 1"
      by (rule ws_open_started [OF W ws_opened(4)])
    from own have chs: "chs = live_channels (device_support H X) (WsLive sess)"
      by (simp only: live_channels_def device_support.simps live_tenant.simps live_client.simps live_device.simps)
    show ?thesis
      using q hub_step.opened [OF _ _ _ _ _ _ chs, of i "hub_of g" R b] ws_opened b w' by (simp add: hub_of_def)
  next
    case (ws_refused i clock hdrs w1 t c d now up w')
    note q = ws_connect_quiet [OF ws_refused(3)]
    with ws_refused(2) have f: "fresh_id i (pw_pubsub w1)" by simp
    obtain chs b x where "redis_subscribe R i chs (pw_pubsub w1) = (b, x)"
      "pw_pubsub w' \<in> {pw_pubsub w1, b, drop_subscription i b}"
      "ws_leak (ws_push_service X) i t c d w1 \<in> {[], [Refused i], [AckLost i]}"
      "rp_subs (pw_pubsub w') i \<noteq> None \<longrightarrow> ws_leak (ws_push_service X) i t c d w1 \<noteq> []"
      "m_connections (pw_metrics w') = m_connections (pw_metrics w1) +
         of_nat (length (filter is_ack_lost (ws_leak (ws_push_service X) i t c d w1)))"
      by (rule ws_open_refused [OF W f ws_refused(4)])
    with q ws_refused hub_step.refused [of i "hub_of g" R chs b x "pw_pubsub w'" "ws_leak (ws_push_service X) i t c d w1"]
    show ?thesis by (simp add: hub_of_def)
  next
    case (grpc_turned i sess inp w1 w' live)
    obtain s2 w2 where t: "grpc_turn (gh_push_service H) (gh_keepalive H) inp (sess, w1) = (s2, w2)" by fastforce
    note m = grpc_turn_move [OF G t]
    from m have i: "gs_sub s2 = gs_sub sess" "gs_tenant s2 = gs_tenant sess" "gs_client s2 = gs_client sess"
      "gs_device s2 = gs_device sess"
      by (simp_all add: same_identity_def)
    have after: "live_events (GrpcLive s2) = live_events (GrpcLive sess) @ event_list (grpc_event inp) \<and>
        (w', live) = (w2, Some (GrpcLive s2)) \<or>
      pw_pubsub w' = drop_subscription (gs_sub sess) (fst (redis_unsubscribe (gs_sub sess) (pw_pubsub w2))) \<and>
      pw_metrics w' = uncount_connection (pw_metrics w2) \<and> live = None"
      using grpc_turned(4) t m grpc_finish_broker [OF G, of s2 w2] i by (auto simp: grpc_after_def split: if_splits)
    show ?thesis unfolding grpc_turned(1)
      by (rule hub_turn [where s' = "GrpcLive s2" and ?w2.0 = w2, OF grpc_turned(2,3)]) (use m i after in \<open>simp_all add: live_channels_def\<close>)
  next
    case (ws_turned i sess inp w1 w' live)
    obtain s2 w2 where t: "ws_turn (ws_keepalive X) inp (sess, w1) = (s2, w2)" by fastforce
    note m = ws_turn_move [OF t]
    have after: "live_events (WsLive s2) = live_events (WsLive sess) @ event_list (ws_event inp) \<and>
        (w', live) = (w2, Some (WsLive s2)) \<or>
      pw_pubsub w' = drop_subscription (wss_sub sess) (fst (redis_unsubscribe (wss_sub sess) (pw_pubsub w2))) \<and>
      pw_metrics w' = uncount_connection (pw_metrics w2) \<and> live = None"
      using ws_turned(4) t ws_finish_broker [OF W, of s2 w2] m by (auto simp: ws_after_def split: if_splits)
    show ?thesis unfolding ws_turned(1)
      by (rule hub_turn [where s' = "WsLive s2" and ?w2.0 = w2, OF ws_turned(2,3)]) (use m after in \<open>simp_all add: idle live_channels_def\<close>)
  next
    case (publisher clock md call w' res)
    with hub_quiet [OF conforms_run [OF quiet_send_event [OF G] publisher(2)]] show ?thesis by simp
  next
    case (viewer clock md c w' devices)
    with hub_quiet [OF conforms_run [OF quiet_get_client_active_devices viewer(2)]] show ?thesis by simp
  next
    case (listener_message n ch data)
    with message [of n "hub_of g" ch R "device_support H X" data] show ?thesis by (simp add: hub_of_def)
  next
    case (listener_end n)
    with exit [of n "hub_of g" R "device_support H X"] show ?thesis by (simp add: hub_of_def)
  next
    case (store_elsewhere k)
    with hub_idle [of _ g R "device_support H X"] show ?thesis by simp
  qed
qed

section \<open>Invariants of the hub\<close>

text \<open>
  A session is safe if its entry is there, its listeners are on channels of its tenant only, and so
  is every event that waits for it or that it was handed.
\<close>

definition session_safe :: "'r redis_pubsub \<Rightarrow> uuid \<Rightarrow> live_session \<Rightarrow> bool" where
  "session_safe b i s \<longleftrightarrow>
     live_sub s = i \<and> rp_subs b i \<noteq> None \<and>
     (\<forall>t\<in>set (rp_tasks b). ls_sub t = i \<longrightarrow> set (ls_channels t) \<subseteq> tenant_channels (live_tenant s)) \<and>
     (\<forall>q. rp_mailboxes b i = Some q \<longrightarrow> te_topic ` set q \<subseteq> tenant_channels (live_tenant s)) \<and>
     set (live_topics s) \<subseteq> tenant_channels (live_tenant s)"

lemma touchesD:
  assumes "touches i A b b'"
  shows "t' \<in> set (rp_tasks b') \<Longrightarrow>
      (\<exists>t\<in>set (rp_tasks b). ls_sub t' = ls_sub t \<and> ls_channels t' = ls_channels t) \<or>
      ls_sub t' = i \<and> set (ls_channels t') \<subseteq> A"
    and "rp_mailboxes b' j = Some q \<Longrightarrow> rp_mailboxes b j = Some q \<or> j = i \<and> q = []"
    and "j \<noteq> i \<Longrightarrow> rp_subs b' j = rp_subs b j"
proof -
  assume "t' \<in> set (rp_tasks b')"
  then obtain n where n: "n < length (rp_tasks b')" "t' = rp_tasks b' ! n" by (auto simp: in_set_conv_nth)
  show "(\<exists>t\<in>set (rp_tasks b). ls_sub t' = ls_sub t \<and> ls_channels t' = ls_channels t) \<or>
      ls_sub t' = i \<and> set (ls_channels t') \<subseteq> A"
  proof (cases "n < length (rp_tasks b)")
    case True
    with assms n have "same_feed (rp_tasks b ! n) t'" by (simp add: touches_def)
    with True show ?thesis by (auto simp: same_feed_def)
  next
    case False
    with assms n show ?thesis by (simp add: touches_def)
  qed
next
  show "rp_mailboxes b' j = Some q \<Longrightarrow> rp_mailboxes b j = Some q \<or> j = i \<and> q = []"
    using assms by (cases "j = i") (auto simp: touches_def)
qed (use assms in \<open>simp add: touches_def\<close>)

lemma session_safe_kept:
  assumes "touches j A b b'" and "j = i \<Longrightarrow> A \<subseteq> tenant_channels (live_tenant s)"
    and "session_safe b i s" and "rp_subs b' i \<noteq> None"
    and "live_sub s' = i" "live_tenant s' = live_tenant s" "set (live_topics s') \<subseteq> tenant_channels (live_tenant s)"
  shows "session_safe b' i s'"
  unfolding session_safe_def
proof (intro conjI ballI allI impI)
  fix t' assume t': "t' \<in> set (rp_tasks b')" "ls_sub t' = i"
  from touchesD(1) [OF assms(1) t'(1)] show "set (ls_channels t') \<subseteq> tenant_channels (live_tenant s')"
  proof
    assume "\<exists>t\<in>set (rp_tasks b). ls_sub t' = ls_sub t \<and> ls_channels t' = ls_channels t"
    then obtain t where "t \<in> set (rp_tasks b)" "ls_sub t = i" "ls_channels t' = ls_channels t"
      using t'(2) by auto
    with assms(3,6) show ?thesis by (simp add: session_safe_def)
  next
    assume "ls_sub t' = j \<and> set (ls_channels t') \<subseteq> A"
    with t'(2) assms(2,6) show ?thesis by auto
  qed
next
  fix q assume "rp_mailboxes b' i = Some q"
  from touchesD(2) [OF assms(1) this] show "te_topic ` set q \<subseteq> tenant_channels (live_tenant s')"
  proof
    assume "rp_mailboxes b i = Some q"
    with assms(3) have "te_topic ` set q \<subseteq> tenant_channels (live_tenant s)" by (simp add: session_safe_def)
    with assms(6) show ?thesis by simp
  qed simp
qed (use assms(4-7) in simp_all)

lemma session_safe_other:
  assumes "touches j A b b'" and "j \<noteq> i" and "session_safe b i s"
  shows "session_safe b' i s"
  using touchesD(3) [OF assms(1), of i] assms(2,3)
  by (intro session_safe_kept [OF assms(1) _ assms(3)]) (simp_all add: session_safe_def)

lemma session_safe_opened:
  assumes "fresh_id i b" and "redis_subscribe R i chs b = (b', Inr i)"
    and "set chs \<subseteq> direct_channels (live_tenant s)" and "live_sub s = i" and "live_events s = []"
  shows "session_safe b' i s"
  unfolding session_safe_def
proof (intro conjI ballI allI impI)
  note t = touches_subscribe [OF subset_trans [OF assms(3) direct_channels_tenant] assms(2)]
  from assms(2) show "rp_subs b' i \<noteq> None"
    by (cases rule: redis_subscribe_cases) (simp_all add: spawn_main_def same_coreD register_def)
  fix t' assume t': "t' \<in> set (rp_tasks b')" "ls_sub t' = i"
  with touchesD(1) [OF t t'(1)] assms(1) show "set (ls_channels t') \<subseteq> tenant_channels (live_tenant s)"
    by (auto simp: fresh_id_def)
next
  fix q assume "rp_mailboxes b' i = Some q"
  from touchesD(2) [OF touches_subscribe [OF assms(3,2)] this] assms(1)
  show "te_topic ` set q \<subseteq> tenant_channels (live_tenant s)" by (simp add: fresh_id_def)
qed (use assms(4,5) in \<open>simp_all add: live_topics_def\<close>)

lemma session_safe_core: "same_core b b' \<Longrightarrow> session_safe b' i s = session_safe b i s"
  by (simp add: session_safe_def same_coreD)

lemma in_list_update_channels:
  "n < length ts \<Longrightarrow> t' \<in> set (ts[n := (ts ! n)\<lparr>ls_alive := v\<rparr>]) \<Longrightarrow>
     \<exists>t\<in>set ts. ls_sub t' = ls_sub t \<and> ls_channels t' = ls_channels t"
  by (subst (asm) in_set_conv_nth) (auto simp: nth_list_update split: if_splits)

lemma session_safe_exit:
  assumes "n < length (rp_tasks b)" and "session_safe b i s"
  shows "session_safe (listener_exit n b) i s"
  using assms(2) in_list_update_channels [OF assms(1), of _ False]
  unfolding session_safe_def by (simp add: listener_exit_def) metis

lemma session_safe_message:
  assumes "n < length (rp_tasks b)" and "ch \<in> set (ls_channels (rp_tasks b ! n))" and "session_safe b i s"
  shows "session_safe (listener_message n ch data b) i s"
proof (cases "rp_mailboxes b (ls_sub (rp_tasks b ! n))")
  case None
  with session_safe_exit [OF assms(1,3)] show ?thesis by (simp add: listener_message_def)
next
  case (Some q)
  from assms(1) have "rp_tasks b ! n \<in> set (rp_tasks b)" by simp
  with assms(2,3) have "ls_sub (rp_tasks b ! n) = i \<Longrightarrow> ch \<in> tenant_channels (live_tenant s)"
    by (auto simp: session_safe_def)
  with Some assms(3) show ?thesis by (auto simp: session_safe_def listener_message_def)
qed

lemma reads_safe:
  assumes "reads i es b b'" and "session_safe b i s"
  shows "session_safe b' i s" and "te_topic ` set es \<subseteq> tenant_channels (live_tenant s)"
  using assms by (cases; auto simp: session_safe_def take_event_def)+

lemma reads_other:
  assumes "reads i es b b'" and "j \<noteq> i" and "session_safe b j s"
  shows "session_safe b' j s"
  using assms(1) by cases (use assms(2,3) in \<open>simp_all add: session_safe_def take_event_def\<close>)

definition hub_safe :: "'r hub \<Rightarrow> bool" where
  "hub_safe h \<longleftrightarrow> (\<forall>i s. hb_sessions h i = Some s \<longrightarrow> session_safe (hb_broker h) i s)"

lemma hub_safe_fresh: "hub_safe h \<Longrightarrow> fresh_id i (hb_broker h) \<Longrightarrow> hb_sessions h i = None"
  unfolding hub_safe_def session_safe_def fresh_id_def by (metis not_Some_eq)

lemma hub_step_safe: "hub_step R D h h' \<Longrightarrow> hub_safe h \<Longrightarrow> hub_safe h'"
proof (induction rule: hub_step.induct)
  case (quiet h b')
  then show ?case by (simp add: hub_safe_def session_safe_core [OF quiet_broker_core])
next
  case (opened i h chs b' s)
  from session_safe_other [OF touches_subscribe [OF opened(3,2)]] session_safe_opened [OF opened(1-3,5,6)] opened(8)
  show ?case by (auto simp: hub_safe_def)
next
  case (refused i h chs b1 res b' new_leak)
  have "touches i UNIV (hb_broker h) b'"
    using refused(3) touches_subscribe [OF _ refused(2), of UNIV] touches_same [of "hb_broker h" "hb_broker h" i UNIV]
    by (auto intro: touches_trans touches_drop)
  from session_safe_other [OF this] hub_safe_fresh [OF refused(6,1)] refused(6) show ?case
    unfolding hub_safe_def by (metis hub.select_convs(1,3) hub.surjective hub.update_convs(1,2,4) option.distinct(1))
next
  case (turned h i s es b1 b' s')
  from turned(1,9) have s: "session_safe (hb_broker h) i s" by (simp add: hub_safe_def)
  note r = reads_safe [OF turned(2) s]
  from s have i: "live_sub s = i" by (simp add: session_safe_def)
  note m = session_move_touches [OF turned(3), unfolded i]
  from r(1) session_move_entry [OF turned(3)] i have "rp_subs b' i \<noteq> None" by (simp add: session_safe_def)
  moreover from turned(7) r(2) s have "set (live_topics s') \<subseteq> tenant_channels (live_tenant s)"
    by (auto simp: session_safe_def live_topics_def)
  ultimately have "session_safe b' i s'"
    using session_safe_kept [OF m _ r(1), of s'] turned(4,5) i by simp
  moreover have "session_safe b' j u" if "hb_sessions h j = Some u" "j \<noteq> i" for j u
    using that turned(9) by (intro session_safe_other [OF m] reads_other [OF turned(2)]) (auto simp: hub_safe_def)
  ultimately show ?case by (simp add: hub_safe_def)
next
  case (ended h i s es b1 b2)
  from ended(1,4) have s: "live_sub s = i" by (simp add: hub_safe_def session_safe_def)
  have t: "touches i (tenant_channels (live_tenant s)) b1 (drop_subscription i (fst (redis_unsubscribe i b2)))"
    using session_move_touches [OF ended(3)] s
    by (intro touches_trans [OF _ touches_trans [OF touches_unsubscribe touches_drop]]) simp
  have "session_safe (drop_subscription i (fst (redis_unsubscribe i b2))) j u"
    if "hb_sessions h j = Some u" "j \<noteq> i" for j u
    using that ended(4) by (intro session_safe_other [OF t] reads_other [OF ended(2)]) (auto simp: hub_safe_def)
  with s show ?case by (simp add: hub_safe_def)
next
  case (message n h ch data)
  then show ?case by (simp add: hub_safe_def session_safe_message)
next
  case (exit n h)
  then show ?case by (simp add: hub_safe_def session_safe_exit)
qed

text \<open>The count of connections: the sessions, and those whose acknowledgement was lost.\<close>

definition hub_counted :: "'r hub \<Rightarrow> bool" where
  "hub_counted h \<longleftrightarrow> finite (dom (hb_sessions h)) \<and>
     hb_connections h = of_nat (card (dom (hb_sessions h)) + length (filter is_ack_lost (hb_leaks h)))"

lemma hub_step_counted: "hub_step R D h h' \<Longrightarrow> hub_safe h \<Longrightarrow> hub_counted h \<Longrightarrow> hub_counted h'"
proof (induction rule: hub_step.induct)
  case (opened i h chs b' s)
  from hub_safe_fresh [OF opened(8,1)] have "i \<notin> dom (hb_sessions h)" by auto
  with opened(9) show ?case by (simp add: hub_counted_def)
next
  case (turned h i s es b1 b' s')
  then have "dom ((hb_sessions h)(i \<mapsto> s')) = dom (hb_sessions h)" by auto
  with turned(10) show ?case by (simp add: hub_counted_def)
next
  case (ended h i s es b1 b2)
  then have i: "i \<in> dom (hb_sessions h)" and "finite (dom (hb_sessions h))" by (auto simp: hub_counted_def)
  then have "card (dom (hb_sessions h)) = Suc (card (dom (hb_sessions h) - {i}))"
    by (intro card.remove)
  with ended(5) show ?case by (simp add: hub_counted_def)
qed (simp_all add: hub_counted_def)

text \<open>Every entry of the broker belongs to a session or is one of the leaks.\<close>

definition hub_known :: "'r hub \<Rightarrow> bool" where
  "hub_known h \<longleftrightarrow> (\<forall>i. rp_subs (hb_broker h) i \<noteq> None \<longrightarrow>
     hb_sessions h i \<noteq> None \<or> i \<in> leak_id ` set (hb_leaks h))"

lemma reads_subs:
  assumes "reads i es b b'"
  shows "rp_subs b' = rp_subs b"
  using assms by cases (simp_all add: take_event_def)

lemma unsubscribed: "rp_subs (drop_subscription i (fst (redis_unsubscribe i b))) i = None"
  by (simp add: redis_unsubscribe_def drop_subscription_def io_defs split: option.splits)

lemma hub_step_known: "hub_step R D h h' \<Longrightarrow> hub_safe h \<Longrightarrow> hub_known h \<Longrightarrow> hub_known h'"
proof (induction rule: hub_step.induct)
  case (quiet h b')
  then show ?case by (simp add: hub_known_def same_coreD [OF quiet_broker_core])
next
  case (opened i h chs b' s)
  from touches_subscribe [OF opened(3,2)] opened(9) show ?case
    by (simp add: hub_known_def touches_def)
next
  case (refused i h chs b1 res b' new_leak)
  have "touches i UNIV (hb_broker h) b'"
    using refused(3) touches_subscribe [OF _ refused(2), of UNIV] touches_same [of "hb_broker h" "hb_broker h" i UNIV]
    by (auto intro: touches_trans touches_drop)
  then have "\<And>j. j \<noteq> i \<Longrightarrow> rp_subs b' j = rp_subs (hb_broker h) j" by (simp add: touches_def)
  with refused(4,5,7) show ?case
    unfolding hub_known_def by (intro allI impI) (rename_tac j, case_tac "j = i"; auto)
next
  case (turned h i s es b1 b' s')
  from turned(1,9) have i: "live_sub s = i" by (simp add: hub_safe_def session_safe_def)
  from session_move_touches [OF turned(3)] i reads_subs [OF turned(2)]
  have "\<And>j. j \<noteq> i \<Longrightarrow> rp_subs b' j = rp_subs (hb_broker h) j" by (simp add: touches_def)
  with turned(10) show ?case by (simp add: hub_known_def)
next
  case (ended h i s es b1 b2)
  from ended(1,4) have i: "live_sub s = i" by (simp add: hub_safe_def session_safe_def)
  let ?b = "drop_subscription i (fst (redis_unsubscribe i b2))"
  have "touches i (tenant_channels (live_tenant s)) b1 ?b"
    using session_move_touches [OF ended(3)] i
    by (intro touches_trans [OF _ touches_trans [OF touches_unsubscribe touches_drop]]) simp
  then have "\<And>j. j \<noteq> i \<Longrightarrow> rp_subs ?b j = rp_subs (hb_broker h) j"
    using reads_subs [OF ended(2)] by (simp add: touches_def)
  with ended(5) i unsubscribed [of i b2] show ?case
    unfolding hub_known_def by (intro allI impI) (rename_tac j, case_tac "j = i"; simp)
qed (auto simp: hub_known_def listener_message_def listener_exit_def Let_def split: option.splits)

text \<open>The invariant of the broker's tasks.\<close>

lemma session_move_inv: "session_move R i t b b' \<Longrightarrow> pubsub_inv b \<Longrightarrow> pubsub_inv b'"
  by (cases rule: session_move.cases) (auto intro: inv_add inv_remove)

lemma reads_inv:
  assumes "reads i es b b'" and "pubsub_inv b"
  shows "pubsub_inv b'"
  using assms by cases simp_all

lemma inv_message:
  "pubsub_inv b \<Longrightarrow> n < length (rp_tasks b) \<Longrightarrow> ls_alive (rp_tasks b ! n) \<Longrightarrow> pubsub_inv (listener_message n ch d b)"
  using inv_exit [of b n] by (simp add: listener_message_def Let_def split: option.splits)

lemma hub_step_inv: "hub_step R D h h' \<Longrightarrow> pubsub_inv (hb_broker h) \<Longrightarrow> pubsub_inv (hb_broker h')"
proof (induction rule: hub_step.induct)
  case (quiet h b')
  then show ?case by (simp add: same_coreD [OF quiet_broker_core])
next
  case (opened i h chs b' s)
  with inv_subscribe [of "hb_broker h" i R chs] show ?case by simp
next
  case (refused i h chs b1 res b' new_leak)
  with inv_subscribe [of "hb_broker h" i R chs] show ?case by auto
next
  case (turned h i s es b1 b' s')
  then show ?case by (simp add: session_move_inv [OF _ reads_inv])
next
  case (ended h i s es b1 b2)
  then show ?case by (simp add: inv_unsubscribe session_move_inv [OF _ reads_inv])
qed (simp_all add: inv_message inv_exit)

definition hub_inv :: "'r hub \<Rightarrow> bool" where
  "hub_inv h \<longleftrightarrow> pubsub_inv (hb_broker h) \<and> hub_safe h \<and> hub_counted h \<and> hub_known h"

lemma hub_step_keeps_inv: "hub_step R D h h' \<Longrightarrow> hub_inv h \<Longrightarrow> hub_inv h'"
  by (simp add: hub_inv_def hub_step_inv hub_step_safe hub_step_counted hub_step_known)

lemma hub_inv_new: "hub_inv (hub_of (gateway_new r k))"
  by (simp add: hub_inv_def hub_safe_def hub_counted_def hub_known_def gateway_new_def hub_of_def inv_new)
    (simp add: redis_pubsub_new_def metrics_new_def)

lemma gateway_inv:
  assumes "wired R H X" and "gateway_reachable H X g"
  shows "hub_inv (hub_of g)"
  using assms(2)
  by (induction rule: gateway_reachable.induct)
    (auto intro: hub_inv_new hub_step_keeps_inv gateway_refines_hub_step [OF assms(1)])

lemma gateway_run_refines:
  assumes "wired R H X" and "(gateway_step H X)\<^sup>*\<^sup>* g g'"
  shows "(hub_step R (device_support H X))\<^sup>*\<^sup>* (hub_of g) (hub_of g')"
  using assms(2)
  by (induction rule: rtranclp_induct) (auto intro: rtranclp.rtrancl_into_rtrancl gateway_refines_hub_step [OF assms(1)])

section \<open>What holds of the running gateway\<close>

text \<open>
  C19: With everything that the handlers do, tokens, devices, frames, answers and counters, each
  run of the gateway is, for its broker, its sessions and the count of connections, a run of
  the hub: sessions open on the channels of their client and, where devices are supported, their
  device, join and leave topics of their own tenant, read the events of their own receiver in order,
  and end, while listeners deliver.
\<close>

theorem gateway_refines_hub:
  assumes "wired R H X" and "(gateway_step H X)\<^sup>*\<^sup>* g g'"
  shows "(hub_step R (device_support H X))\<^sup>*\<^sup>* (hub_of g) (hub_of g')"
  using assms by (rule gateway_run_refines)

lemma tenant_channels_disjoint:
  assumes "(CHR '':'') \<notin> set t" and "(CHR '':'') \<notin> set t'" and "t' \<noteq> t"
  shows "tenant_channels t \<inter> tenant_channels t' = {}"
  using assms same_channel_same_tenant by (auto simp: tenant_channels_def)

text \<open>
  C5: However sessions, publishers and listeners interleave, a session is only ever handed events
  on channels of the tenant it was authenticated for, and only such events wait for it. So no
  event that a publisher of another tenant sends reaches it, where tenant ids have no colons.
\<close>

theorem sessions_receive_only_their_tenant:
  assumes "wired R H X" and "gateway_reachable H X g" and "gw_sessions g i = Some s"
  shows "set (live_topics s) \<subseteq> tenant_channels (live_tenant s) \<and>
    (\<forall>q. rp_mailboxes (gw_broker g) i = Some q \<longrightarrow> te_topic ` set q \<subseteq> tenant_channels (live_tenant s)) \<and>
    (\<forall>t'. CHR '':'' \<notin> set (live_tenant s) \<and> CHR '':'' \<notin> set t' \<and> t' \<noteq> live_tenant s \<longrightarrow>
       set (live_topics s) \<inter> tenant_channels t' = {})"
proof -
  have "session_safe (gw_broker g) i s"
    using gateway_inv [OF assms(1,2)] assms(3) by (simp add: hub_inv_def hub_safe_def)
  then have safe: "set (live_topics s) \<subseteq> tenant_channels (live_tenant s)"
    and box: "\<forall>q. rp_mailboxes (gw_broker g) i = Some q \<longrightarrow> te_topic ` set q \<subseteq> tenant_channels (live_tenant s)"
    by (simp_all add: session_safe_def)
  from safe tenant_channels_disjoint [of "live_tenant s"] box show ?thesis by blast
qed

text \<open>
  C13: The gauge \<open>connections\<close> is exact whatever interleaves: it is the number of sessions that
  run, plus the WebSocket upgrades whose acknowledgement was lost, which stay counted for good.
\<close>

theorem connection_gauge_is_exact:
  assumes "wired R H X" and "gateway_reachable H X g"
  shows "finite (dom (gw_sessions g)) \<and>
    m_connections (pw_metrics (gw_world g)) =
      of_nat (card (dom (gw_sessions g)) + length (filter is_ack_lost (gw_leaks g)))"
  using gateway_inv [OF assms] by (simp add: hub_inv_def hub_counted_def)

text \<open>
  C14: No listener outlives its session: every task of the broker that was not told to stop feeds
  a session that runs, or is one of the leaks, and every session that runs has its entry.
\<close>

theorem listeners_belong_to_sessions:
  assumes "wired R H X" and "gateway_reachable H X g"
  shows "list_all (\<lambda>t. ls_shutdown t \<or> gw_sessions g (ls_sub t) \<noteq> None \<or> ls_sub t \<in> leak_id ` set (gw_leaks g))
      (rp_tasks (gw_broker g)) \<and>
    dom (gw_sessions g) \<subseteq> dom (rp_subs (gw_broker g))"
proof -
  have inv: "pubsub_inv (gw_broker g)" and safe: "hub_safe (hub_of g)" and known: "hub_known (hub_of g)"
    using gateway_inv [OF assms] by (simp_all add: hub_inv_def)
  have "ls_shutdown t \<or> gw_sessions g (ls_sub t) \<noteq> None \<or> ls_sub t \<in> leak_id ` set (gw_leaks g)"
    if "t \<in> set (rp_tasks (gw_broker g))" for t
    using not_subscribed_is_stopped [OF inv _ that refl] known unfolding hub_known_def by auto
  moreover have "rp_subs (gw_broker g) i \<noteq> None" if "gw_sessions g i = Some s" for i s
    using safe that by (auto simp: hub_safe_def session_safe_def)
  ultimately show ?thesis by (auto simp: list_all_iff)
qed

section \<open>Witnesses\<close>

definition demo_ws_state :: "((string \<times> bytes) list redis_pubsub, hash_server) ws_state" where
  "demo_ws_state = \<lparr>ws_push_service = demo_service, ws_lib = toy_lib, ws_auth = app_auth shipped_config,
     ws_client_config = shipped_client, ws_keepalive = shipped_keepalive\<rparr>"

lemma demo_wired: "wired recording_client demo_handler demo_ws_state"
  by (simp add: wired_def demo_handler_def demo_ws_state_def demo_service_def)

definition demo_gateway_new :: "((string \<times> bytes) list, hash_server) gateway_state" where
  "demo_gateway_new = gateway_new [] []"

lemma demo_gateway:
  obtains w1 sess where "open_channel demo_handler None 0 1 demo_metadata demo_world = (w1, Inr sess)"
    and "gateway_step demo_handler demo_ws_state demo_gateway_new
      (demo_gateway_new\<lparr>gw_world := w1, gw_sessions := [1 \<mapsto> GrpcLive sess]\<rparr>)"
    and "gateway_reachable demo_handler demo_ws_state
      (demo_gateway_new\<lparr>gw_world := w1, gw_sessions := [1 \<mapsto> GrpcLive sess]\<rparr>)"
proof -
  obtain w1 sess where o: "open_channel demo_handler None 0 1 demo_metadata demo_world = (w1, Inr sess)"
    by (rule demo_open)
  have w: "gw_world demo_gateway_new = demo_world" by (simp add: demo_gateway_new_def gateway_new_def demo_world_def)
  have "gateway_step demo_handler demo_ws_state demo_gateway_new
      (demo_gateway_new\<lparr>gw_world := w1, gw_sessions := (gw_sessions demo_gateway_new)(1 \<mapsto> GrpcLive sess)\<rparr>)"
    by (rule grpc_opened [OF _ o [folded w]]) (simp add: w demo_fresh(1))
  then have s: "gateway_step demo_handler demo_ws_state demo_gateway_new
      (demo_gateway_new\<lparr>gw_world := w1, gw_sessions := [1 \<mapsto> GrpcLive sess]\<rparr>)"
    by (simp add: demo_gateway_new_def gateway_new_def)
  from gateway_reachable.step [OF gateway_reachable.start s [unfolded demo_gateway_new_def], folded demo_gateway_new_def] o s that show thesis by blast
qed

theorem gateway_refines_hub_witness:
  "\<exists>w1 sess. (hub_step recording_client (device_support demo_handler demo_ws_state))\<^sup>*\<^sup>* (hub_of demo_gateway_new)
     (hub_of (demo_gateway_new\<lparr>gw_world := w1, gw_sessions := [1 \<mapsto> GrpcLive sess]\<rparr>))"
proof -
  obtain w1 sess where "gateway_step demo_handler demo_ws_state demo_gateway_new
      (demo_gateway_new\<lparr>gw_world := w1, gw_sessions := [1 \<mapsto> GrpcLive sess]\<rparr>)" by (rule demo_gateway)
  from gateway_refines_hub [OF demo_wired r_into_rtranclp [of "gateway_step demo_handler demo_ws_state", OF this]]
  show ?thesis by blast
qed

theorem sessions_receive_only_their_tenant_witness:
  "\<exists>g s. gateway_reachable demo_handler demo_ws_state g \<and> gw_sessions g 1 = Some s \<and>
     set (live_topics s) \<subseteq> tenant_channels (live_tenant s)"
proof -
  obtain w1 sess where g: "gateway_reachable demo_handler demo_ws_state
      (demo_gateway_new\<lparr>gw_world := w1, gw_sessions := [1 \<mapsto> GrpcLive sess]\<rparr>)" by (rule demo_gateway)
  from sessions_receive_only_their_tenant [OF demo_wired g, of 1 "GrpcLive sess"] g show ?thesis
    by (intro exI conjI) auto
qed

theorem connection_gauge_is_exact_witness:
  "\<exists>g. gateway_reachable demo_handler demo_ws_state g \<and> m_connections (pw_metrics (gw_world g)) = 1"
proof -
  obtain w1 sess where g: "gateway_reachable demo_handler demo_ws_state
      (demo_gateway_new\<lparr>gw_world := w1, gw_sessions := [1 \<mapsto> GrpcLive sess]\<rparr>)" by (rule demo_gateway)
  from connection_gauge_is_exact [OF demo_wired g] g show ?thesis
    by (intro exI [of _ "demo_gateway_new\<lparr>gw_world := w1, gw_sessions := [1 \<mapsto> GrpcLive sess]\<rparr>"])
      (simp add: demo_gateway_new_def gateway_new_def)
qed

theorem listeners_belong_to_sessions_witness:
  "\<exists>g. gateway_reachable demo_handler demo_ws_state g \<and> gw_leaks g = [] \<and> dom (gw_sessions g) = {1} \<and>
     list_all (\<lambda>t. ls_shutdown t \<or> ls_sub t = 1) (rp_tasks (gw_broker g))"
proof -
  obtain w1 sess where g: "gateway_reachable demo_handler demo_ws_state
      (demo_gateway_new\<lparr>gw_world := w1, gw_sessions := [1 \<mapsto> GrpcLive sess]\<rparr>)" by (rule demo_gateway)
  from listeners_belong_to_sessions [OF demo_wired g] g show ?thesis
    by (intro exI [of _ "demo_gateway_new\<lparr>gw_world := w1, gw_sessions := [1 \<mapsto> GrpcLive sess]\<rparr>"] conjI)
      (auto simp: demo_gateway_new_def gateway_new_def list_all_iff split: if_splits)
qed

end
