(* ===== verification/Answers.thy ===== *)
theory Answers
  imports Grpc
begin

text \<open>
  What a client of a gRPC channel can rely on: each of its topic requests is answered once and in
  order, events come in the order in which they were received, and a channel that falls silent is
  closed, whatever is delivered to it meanwhile.
\<close>

section \<open>Answers\<close>

text \<open>
  A response without the status of an acknowledgement, which depends on the broker, and the
  responses that an input of the loop calls for.
\<close>

datatype answer =
    ConnectKey
  | EventKey string bytes
  | SubscribeKey string
  | UnsubscribeKey string
  | StatusKey

fun response_key :: "status + channel_response \<Rightarrow> answer" where
  "response_key (Inr (ConnectAckResp st)) = ConnectKey"
| "response_key (Inr (ChannelEventResp topic data)) = EventKey topic data"
| "response_key (Inr (TopicSubscriptionAckResp topic st)) = SubscribeKey topic"
| "response_key (Inr (TopicUnsubscriptionAckResp topic st)) = UnsubscribeKey topic"
| "response_key (Inl st) = StatusKey"

fun answers_to :: "grpc_input \<Rightarrow> answer list" where
  "answers_to (ClientMessage now (Some (TopicSubscriptionReq topic))) = [SubscribeKey topic]"
| "answers_to (ClientMessage now (Some (TopicUnsubscriptionReq topic))) = [UnsubscribeKey topic]"
| "answers_to (SubEvent e) = [EventKey (te_topic e) (te_event e)]"
| "answers_to _ = []"

definition answered :: "grpc_session \<Rightarrow> answer list" where
  "answered sess = map response_key (gs_out sess)"

lemma answered_send [simp]:
  "gs_open sess \<Longrightarrow> answered (resp_send r sess) = answered sess @ [response_key r]"
  by (simp add: answered_def resp_send_def)

lemma answered_frame [simp]:
  "answered (sess\<lparr>gs_last_inbound := n\<rparr>) = answered sess" "answered (sess\<lparr>gs_running := b\<rparr>) = answered sess"
  by (simp_all add: answered_def)

lemma request_answered:
  assumes "gs_open sess"
  shows "answered (fst (handle_client_request S req sess w)) = answered sess @ answers_to (ClientMessage now req)"
  using assms
  by (cases req; cases "the req")
    (auto simp: handle_client_request_def split: prod.splits sum.splits)

text \<open>A turn that does not end the session answers its input and keeps the receiver.\<close>

lemma turn_answers:
  assumes "gs_open sess" and "keeps_open inp" and "grpc_turn S keepalive inp (sess, w) = (sess', w')"
    and "gs_running sess'"
  shows "gs_open sess' \<and> answered sess' = answered sess @ answers_to inp"
proof (cases inp)
  case (ClientMessage now req)
  with assms(3) have h: "handle_client_request S req (sess\<lparr>gs_last_inbound := now\<rparr>) w = (sess', w')"
    by (simp add: grpc_turn_def)
  have "gs_open (sess\<lparr>gs_last_inbound := now\<rparr>)" using assms(1) by simp
  from request_answered [OF this, of S req w now] handle_client_request_session [of S req "sess\<lparr>gs_last_inbound := now\<rparr>" w]
  show ?thesis by (simp add: ClientMessage h assms(1))
next
  case (Tick now)
  with assms(1,3,4) show ?thesis by (auto simp: grpc_turn_def split: if_splits)
qed (use assms in \<open>auto simp: grpc_turn_def\<close>)

text \<open>
  C25: While a channel runs, its client gets exactly one answer to every topic request and one
  message for every event, in the order in which the loop took them, and nothing else, whatever
  the broker answers.
\<close>

theorem requests_are_answered_in_order:
  assumes "gs_running sess" and "gs_open sess" and "list_all keeps_open inputs"
    and "gs_running (fst (grpc_loop S keepalive inputs (sess, w)))"
  shows "answered (fst (grpc_loop S keepalive inputs (sess, w))) = answered sess @ concat (map answers_to inputs)"
  using assms
proof (induction inputs arbitrary: sess w)
  case (Cons inp inps)
  obtain s1 w1 where t: "grpc_turn S keepalive inp (sess, w) = (s1, w1)"
    by (cases "grpc_turn S keepalive inp (sess, w)")
  from Cons.prems(4) t have run: "gs_running s1"
    by (simp add: Let_def grpc_finish_session split: if_splits)
  from turn_answers [OF Cons.prems(2) _ t run] Cons.prems(3)
  have s1: "gs_open s1" "answered s1 = answered sess @ answers_to inp" by simp_all
  from Cons.prems(3,4) t run Cons.IH [OF run s1(1), of w1] s1(2) show ?case by simp
qed simp

section \<open>A silent client\<close>

text \<open>Anything but a message of the client: events, ticks, and the ends of either side.\<close>

fun silent :: "grpc_input \<Rightarrow> bool" where
  "silent (ClientMessage now req) = False"
| "silent _ = True"

lemma silent_turn:
  assumes "silent inp" and "grpc_turn S keepalive inp (sess, w) = (sess', w')"
  shows "gs_last_inbound sess' = gs_last_inbound sess"
  using assms by (cases inp) (auto simp: grpc_turn_def split: if_splits)

lemma late_tick_ends:
  assumes "gs_last_inbound sess + secs (kc_grpc_stream_idle_timeout_secs keepalive) < now"
    and "grpc_turn S keepalive (Tick now) (sess, w) = (sess', w')"
  shows "\<not> gs_running sess'"
  using assms by (auto simp: grpc_turn_def split: if_splits)

text \<open>
  C26: A channel whose client falls silent is closed: the loop ends at the first tick later than
  the idle timeout at the latest, however many events are delivered to the client. As the loop ticks
  every second, it ends within a second of the timeout, unless it waits for room in the response
  queue then (theory \<open>Backpressure\<close>).
\<close>

theorem silent_channel_terminates:
  assumes "gs_running sess" and "list_all silent inputs" and "Tick now \<in> set inputs"
    and "gs_last_inbound sess + secs (kc_grpc_stream_idle_timeout_secs keepalive) < now"
  shows "\<not> gs_running (fst (grpc_loop S keepalive inputs (sess, w)))"
  using assms
proof (induction inputs arbitrary: sess w)
  case (Cons inp inps)
  obtain s1 w1 where t: "grpc_turn S keepalive inp (sess, w) = (s1, w1)"
    by (cases "grpc_turn S keepalive inp (sess, w)")
  show ?case
  proof (cases "gs_running s1")
    case False
    with t show ?thesis by (simp add: grpc_finish_session)
  next
    case True
    with late_tick_ends [OF Cons.prems(4), of S w s1 w1] t have "inp \<noteq> Tick now" by auto
    with Cons.prems(3) have "Tick now \<in> set inps" by auto
    moreover from Cons.prems(2) silent_turn [OF _ t] have "gs_last_inbound s1 = gs_last_inbound sess" by simp
    ultimately show ?thesis using Cons.IH [of s1 w1] Cons.prems(2,4) True t by simp
  qed
qed simp

section \<open>Witnesses\<close>

theorem requests_are_answered_in_order_witness:
  "\<exists>w1 sess. open_channel demo_handler None 0 1 demo_metadata demo_world = (w1, Inr sess) \<and>
     answered (fst (grpc_loop demo_service shipped_keepalive
       [ClientMessage 5 (Some (TopicSubscriptionReq ''news'')), Tick 9, SubEvent \<lparr>te_topic = ''a'', te_event = [1]\<rparr>] (sess, w1))) =
     answered sess @ [SubscribeKey ''news'', EventKey ''a'' [1]]"
proof -
  let ?inputs = "[ClientMessage 5 (Some (TopicSubscriptionReq ''news'')), Tick 9, SubEvent \<lparr>te_topic = ''a'', te_event = [1]\<rparr>]"
  obtain w1 sess where o: "open_channel demo_handler None 0 1 demo_metadata demo_world = (w1, Inr sess)"
    and s: "gs_running sess" "gs_open sess" by (rule demo_open)
  have k: "list_all keeps_open ?inputs" by simp
  have "gs_running (fst (grpc_loop demo_service shipped_keepalive ?inputs (sess, w1)))"
  proof -
    have "handle_client_request demo_service r (sess\<lparr>gs_last_inbound := 5\<rparr>) w1 =
        (fst (handle_client_request demo_service r (sess\<lparr>gs_last_inbound := 5\<rparr>) w1),
         snd (handle_client_request demo_service r (sess\<lparr>gs_last_inbound := 5\<rparr>) w1))" for r by simp
    with handle_client_request_session [of demo_service _ "sess\<lparr>gs_last_inbound := 5\<rparr>" w1] s show ?thesis
      by (simp add: grpc_turn_def case_prod_beta Let_def secs_def shipped_keepalive_def)
  qed
  from requests_are_answered_in_order [OF s k this] o show ?thesis by (simp del: grpc_loop.simps)
qed

theorem silent_channel_terminates_witness:
  "\<exists>w1 sess. open_channel demo_handler None 0 1 demo_metadata demo_world = (w1, Inr sess) \<and>
     \<not> gs_running (fst (grpc_loop demo_service shipped_keepalive
       [SubEvent \<lparr>te_topic = ''a'', te_event = [1]\<rparr>, Tick 41000000000] (sess, w1)))"
proof -
  obtain w1 sess where o: "open_channel demo_handler None 0 1 demo_metadata demo_world = (w1, Inr sess)"
    and s: "gs_running sess" "gs_last_inbound sess = 0" by (rule demo_open)
  have "secs (kc_grpc_stream_idle_timeout_secs shipped_keepalive) < 41000000000"
    by (simp add: secs_def shipped_keepalive_def)
  with silent_channel_terminates [OF s(1), of "[SubEvent \<lparr>te_topic = ''a'', te_event = [1]\<rparr>, Tick 41000000000]"
      41000000000 shipped_keepalive demo_service w1] o s(2) show ?thesis by (simp del: grpc_loop.simps)
qed

end
