(* ===== verification/Propeller.thy ===== *)
theory Propeller
  imports Sessions Answers
begin

text \<open>
  How the realtime gateway is put together (\<open>approach-2/src/main.rs\<close>): the start-up sequence with
  its early returns, the components it wires to each other, and the HTTP routes. Reading the
  configuration file, connecting to Redis, parsing an address and binding a socket are library
  calls and parameters; serving until a signal comes is not modelled.
\<close>

section \<open>Start-up\<close>

record ('r, 'k) platform =
  pf_read_config :: "string \<Rightarrow> string + app_config"
  pf_open_client :: "string \<Rightarrow> string + unit"
  pf_connect_pubsub :: "string \<Rightarrow> string + 'r"
  pf_connect_kv :: "string \<Rightarrow> string + 'k"
  pf_parse_addr :: "string \<Rightarrow> string + unit"
  pf_bind :: "string \<Rightarrow> string + unit"
  pf_pubsub_client :: "'r redis_pubsub_client"
  pf_hashes :: "'k redis_hashes"
  pf_auth_lib :: auth_lib
  pf_write_attrs :: "(string \<Rightarrow> string option) \<Rightarrow> string + string"
  pf_read_attrs :: "string \<Rightarrow> (string \<Rightarrow> string option) option"

text \<open>\<open>RedisPubSub::new\<close>.\<close>

definition redis_pubsub_connect :: "('r, 'k) platform \<Rightarrow> string \<Rightarrow> string + 'r redis_pubsub" where
  "redis_pubsub_connect P url =
     res_bind (map_sum (\<lambda>_. ''failed to create redis client'') id (pf_open_client P url)) (\<lambda>_.
     res_bind (map_sum (\<lambda>_. ''failed to connect to redis'') id (pf_connect_pubsub P url)) (\<lambda>r.
     Inr (redis_pubsub_new r)))"

record ('b, 'k) propeller_app =
  pa_grpc :: "('b, 'k) grpc_handler"
  pa_ws :: "('b, 'k) ws_state"
  pa_world :: "('b, 'k) push_world"

definition propeller_start :: "('r, 'k) platform \<Rightarrow> string + ('r redis_pubsub, 'k) propeller_app" where
  "propeller_start P =
     res_bind (load (pf_read_config P) ''config/propeller'') (\<lambda>cfg.
     res_bind (redis_pubsub_connect P (bc_address (app_broker cfg))) (\<lambda>pubsub.
     res_bind (pf_open_client P (bc_address (app_broker cfg))) (\<lambda>_.
     res_bind (pf_connect_kv P (bc_address (app_broker cfg))) (\<lambda>kv.
     let push = redis_push_service (pf_pubsub_client P) (pf_hashes P) (app_client cfg)
                  (pf_write_attrs P) (pf_read_attrs P) in
     res_bind (pf_parse_addr P (gc_address (app_grpc cfg))) (\<lambda>_.
     res_bind (pf_parse_addr P (app_http_address cfg)) (\<lambda>_.
     res_bind (pf_bind P (app_http_address cfg)) (\<lambda>_.
     Inr \<lparr>pa_grpc = \<lparr>gh_push_service = push, gh_lib = pf_auth_lib P, gh_auth = app_auth cfg,
            gh_client_config = app_client cfg, gh_keepalive = app_keepalive cfg\<rparr>,
          pa_ws = \<lparr>ws_push_service = push, ws_lib = pf_auth_lib P, ws_auth = app_auth cfg,
            ws_client_config = app_client cfg, ws_keepalive = app_keepalive cfg\<rparr>,
          pa_world = \<lparr>pw_pubsub = pubsub, pw_kv = kv, pw_metrics = metrics_new\<rparr>\<rparr>)))))))"

section \<open>HTTP routes\<close>

datatype http_endpoint = WsConnectEndpoint | HealthEndpoint | MetricsEndpoint

definition http_route :: "string \<Rightarrow> http_endpoint option" where
  "http_route path =
     (if path = ''/ws/connect'' then Some WsConnectEndpoint
      else if path = ''/health'' then Some HealthEndpoint
      else if path = ''/metrics'' then Some MetricsEndpoint
      else None)"

definition health_answer :: string where
  "health_answer = ''ok''"

text \<open>The one counter that the broker keeps itself is read from it.\<close>

definition metrics_answer :: "'b pubsub_ops \<Rightarrow> ('b, 'k) push_world \<Rightarrow> metrics_snapshot" where
  "metrics_answer P w =
     (snapshot (pw_metrics w))\<lparr>sn_active_topic_listeners := ps_active_topic_listeners P (pw_pubsub w)\<rparr>"

section \<open>What a started service has\<close>

lemma propeller_start_shares:
  assumes "propeller_start P = Inr app"
  shows "ws_push_service (pa_ws app) = gh_push_service (pa_grpc app) \<and>
     ws_auth (pa_ws app) = gh_auth (pa_grpc app) \<and>
     ws_client_config (pa_ws app) = gh_client_config (pa_grpc app) \<and>
     svc_config (gh_push_service (pa_grpc app)) = gh_client_config (pa_grpc app)"
  using assms by (auto simp: propeller_start_def res_bind_eq_Inr Let_def)

lemma propeller_start_pubsub:
  assumes "propeller_start P = Inr app"
  shows "pubsub_reachable (pf_pubsub_client P) (pw_pubsub (pa_world app))"
  using assms
  by (auto simp: propeller_start_def redis_pubsub_connect_def res_bind_eq_Inr Let_def
      intro: pubsub_reachable.start)

text \<open>Both servers share one broker, so what holds of theory \<open>Sessions\<close> holds of them.\<close>

lemma propeller_start_wired:
  assumes "propeller_start P = Inr app"
  shows "wired (pf_pubsub_client P) (pa_grpc app) (pa_ws app)"
  using assms by (auto simp: propeller_start_def res_bind_eq_Inr Let_def wired_def)

lemma propeller_start_world:
  assumes "propeller_start P = Inr app"
  shows "\<exists>r k. pa_world app = gw_world (gateway_new r k)"
  using assms
  by (auto simp: propeller_start_def redis_pubsub_connect_def res_bind_eq_Inr Let_def gateway_new_def)

lemma metrics_answer_listeners:
  assumes "pubsub_reachable R (pw_pubsub w)"
  shows "sn_active_topic_listeners (metrics_answer (redis_pubsub_ops R) w) =
     of_nat (active_topic_tasks (rp_tasks (pw_pubsub w)))"
  using inv_reachable [OF assms] by (simp add: metrics_answer_def redis_pubsub_ops_def pubsub_inv_def)

lemma propeller_start_secret:
  assumes "propeller_start P = Inr app" and "auth_enabled (gh_auth (pa_grpc app))"
  shows "\<exists>secret. jwt_hmac_secret (auth_jwt (gh_auth (pa_grpc app))) = Some secret \<and> secret \<noteq> []"
proof -
  from assms(1) obtain cfg where l: "load (pf_read_config P) ''config/propeller'' = Inr cfg"
    and a: "gh_auth (pa_grpc app) = app_auth cfg"
    by (auto simp: propeller_start_def res_bind_eq_Inr Let_def)
  from loadD [OF l] validated_secret [of cfg] a assms(2) show ?thesis by simp
qed

end
