(* ===== verification/Fanout.thy ===== *)
theory Fanout
  imports Sessions "HOL-Library.Sublist"
begin

text \<open>
  From a publish to the sessions: the gateway together with what Redis does between a \<open>PUBLISH\<close> and
  the connections that subscribed to its channel. Redis is a third-party server and a parameter:
  \<open>log r\<close> is the list of what was published so far, by this process or any other, and a
  connection is sent the messages on its channels that were published after it subscribed, in order,
  until it is closed. The invariant says what each receiver holds, however handlers, sessions and
  listeners interleave; theory \<open>Arrival\<close> draws the conclusions.
\<close>

section \<open>What Redis sends\<close>

definition redis_log :: "'r redis_pubsub_client \<Rightarrow> ('r \<Rightarrow> (string \<times> bytes) list) \<Rightarrow> bool" where
  "redis_log R log \<longleftrightarrow>
     (\<forall>r r'. client_call R r r' \<longrightarrow> prefix (log r) (log r')) \<and>
     (\<forall>ch d r r'. rc_publish R ch d r = (r', Inr ()) \<longrightarrow> log r' = log r @ [(ch, d)])"

definition sent_on :: "(string \<times> bytes) list \<Rightarrow> nat \<Rightarrow> string list \<Rightarrow> (string \<times> bytes) list" where
  "sent_on L j chs = filter (\<lambda>m. fst m \<in> set chs) (drop j L)"

definition as_event :: "string \<times> bytes \<Rightarrow> topic_event" where
  "as_event m = \<lparr>te_topic = fst m, te_event = snd m\<rparr>"

text \<open>
  For each listener task, \<open>fo_joined\<close> is the length of the log when its connection subscribed and
  \<open>fo_read\<close> the number of messages that it has read from the connection.
\<close>

record ('r, 'k) fanout =
  fo_gateway :: "('r, 'k) gateway_state"
  fo_joined :: "nat \<Rightarrow> nat"
  fo_read :: "nat \<Rightarrow> nat"

abbreviation fo_broker :: "('r, 'k) fanout \<Rightarrow> 'r redis_pubsub" where
  "fo_broker f \<equiv> gw_broker (fo_gateway f)"

definition fanout_new :: "'r \<Rightarrow> 'k \<Rightarrow> ('r, 'k) fanout" where
  "fanout_new r k = \<lparr>fo_gateway = gateway_new r k, fo_joined = (\<lambda>_. 0), fo_read = (\<lambda>_. 0)\<rparr>"

definition sent_to :: "('r \<Rightarrow> (string \<times> bytes) list) \<Rightarrow> ('r, 'k) fanout \<Rightarrow> nat \<Rightarrow> (string \<times> bytes) list" where
  "sent_to log f n = sent_on (log (rp_redis (fo_broker f))) (fo_joined f n) (ls_channels (rp_tasks (fo_broker f) ! n))"

text \<open>
  The gateway moves without a message being passed on; the tasks it spawns have subscribed just now.
\<close>

definition no_delivery :: "'r redis_pubsub \<Rightarrow> 'r redis_pubsub \<Rightarrow> bool" where
  "no_delivery b b' \<longleftrightarrow>
     (\<forall>i q q'. rp_mailboxes b i = Some q \<longrightarrow> rp_mailboxes b' i = Some q' \<longrightarrow> length q' \<le> length q)"

definition carry :: "('r \<Rightarrow> (string \<times> bytes) list) \<Rightarrow> ('r, 'k) fanout \<Rightarrow> ('r, 'k) gateway_state \<Rightarrow> ('r, 'k) fanout" where
  "carry log f g' = \<lparr>fo_gateway = g',
     fo_joined = (\<lambda>n. if n < length (rp_tasks (fo_broker f)) then fo_joined f n else length (log (rp_redis (gw_broker g')))),
     fo_read = (\<lambda>n. if n < length (rp_tasks (fo_broker f)) then fo_read f n else 0)\<rparr>"

definition set_broker :: "'r redis_pubsub \<Rightarrow> ('r, 'k) gateway_state \<Rightarrow> ('r, 'k) gateway_state" where
  "set_broker b g = g\<lparr>gw_world := (gw_world g)\<lparr>pw_pubsub := b\<rparr>\<rparr>"

text \<open>A task reads the next message that Redis sent to its connection.\<close>

definition relay :: "('r \<Rightarrow> (string \<times> bytes) list) \<Rightarrow> nat \<Rightarrow> ('r, 'k) fanout \<Rightarrow> ('r, 'k) fanout" where
  "relay log n f = (let (ch, d) = sent_to log f n ! fo_read f n in
     f\<lparr>fo_gateway := set_broker (listener_message n ch d (fo_broker f)) (fo_gateway f),
       fo_read := (fo_read f)(n := Suc (fo_read f n))\<rparr>)"

definition can_relay :: "('r \<Rightarrow> (string \<times> bytes) list) \<Rightarrow> nat \<Rightarrow> ('r, 'k) fanout \<Rightarrow> bool" where
  "can_relay log n f \<longleftrightarrow> n < length (rp_tasks (fo_broker f)) \<and> ls_alive (rp_tasks (fo_broker f) ! n) \<and>
     fo_read f n < length (sent_to log f n)"

inductive fanout_step ::
    "('r \<Rightarrow> (string \<times> bytes) list) \<Rightarrow> ('r redis_pubsub, 'k) grpc_handler \<Rightarrow> ('r redis_pubsub, 'k) ws_state \<Rightarrow>
     ('r, 'k) fanout \<Rightarrow> ('r, 'k) fanout \<Rightarrow> bool"
  for log :: "'r \<Rightarrow> (string \<times> bytes) list" and H :: "('r redis_pubsub, 'k) grpc_handler"
    and X :: "('r redis_pubsub, 'k) ws_state" where
  handled: "gateway_step H X (fo_gateway f) g' \<Longrightarrow> no_delivery (fo_broker f) (gw_broker g') \<Longrightarrow>
    fanout_step log H X f (carry log f g')"
| relayed: "can_relay log n f \<Longrightarrow> fanout_step log H X f (relay log n f)"
| elsewhere: "prefix (log (rp_redis (fo_broker f))) (log r) \<Longrightarrow>
    fanout_step log H X f (carry log f (set_broker ((fo_broker f)\<lparr>rp_redis := r\<rparr>) (fo_gateway f)))"

inductive fanout_reachable ::
    "('r \<Rightarrow> (string \<times> bytes) list) \<Rightarrow> ('r redis_pubsub, 'k) grpc_handler \<Rightarrow> ('r redis_pubsub, 'k) ws_state \<Rightarrow>
     ('r, 'k) fanout \<Rightarrow> bool"
  for log :: "'r \<Rightarrow> (string \<times> bytes) list" and H :: "('r redis_pubsub, 'k) grpc_handler"
    and X :: "('r redis_pubsub, 'k) ws_state" where
  start: "fanout_reachable log H X (fanout_new r k)"
| step: "fanout_reachable log H X f \<Longrightarrow> fanout_step log H X f f' \<Longrightarrow> fanout_reachable log H X f'"

lemma set_broker_simps [simp]:
  "gw_broker (set_broker b g) = b" "gw_sessions (set_broker b g) = gw_sessions g"
  "gw_leaks (set_broker b g) = gw_leaks g"
  by (simp_all add: set_broker_def)

lemma hub_of_set_broker [simp]: "hub_of (set_broker b g) = (hub_of g)\<lparr>hb_broker := b\<rparr>"
  by (simp add: hub_of_def set_broker_def)

lemma carry_simps [simp]: "fo_gateway (carry log f g') = g'"
  by (simp add: carry_def)

lemma sent_on_extended:
  assumes "prefix L L'" and "j \<le> length L"
  shows "prefix (sent_on L j chs) (sent_on L' j chs)"
  using assms by (auto simp: sent_on_def prefix_def)

lemma sent_on_fresh [simp]: "sent_on L (length L) chs = []"
  by (simp add: sent_on_def)

section \<open>The log only grows\<close>

definition logged :: "('r \<Rightarrow> (string \<times> bytes) list) \<Rightarrow> 'r redis_pubsub \<Rightarrow> 'r redis_pubsub \<Rightarrow> bool" where
  "logged log b b' \<longleftrightarrow> prefix (log (rp_redis b)) (log (rp_redis b'))"

interpretation lg_log: effect_preorder "logged log" for log :: "'r \<Rightarrow> (string \<times> bytes) list"
  by unfold_locales (auto simp: logged_def intro: prefix_order.trans)

lemma logged_call: "redis_log R log \<Longrightarrow> client_call R (rp_redis b) r \<Longrightarrow> logged log b (b\<lparr>rp_redis := r\<rparr>)"
  by (simp add: redis_log_def logged_def)

lemma logged_same: "rp_redis b' = rp_redis b \<Longrightarrow> logged log b b'"
  by (simp add: logged_def)

lemma logged_calls:
  assumes "redis_log R log" and "(client_call R)\<^sup>*\<^sup>* r r'"
  shows "prefix (log r) (log r')"
  using assms(2) by induction (use assms(1) in \<open>auto simp: redis_log_def intro: prefix_order.trans\<close>)

lemma conforms_logged:
  assumes "redis_log R log" and "\<And>r. client_call R r (fst (m r))"
  shows "conforms (logged log) (on_redis m)"
  unfolding on_redis_def using assms by (intro conforms_zoom) (simp add: logged_def redis_log_def)

lemma logged_subscribe_channels:
  assumes "redis_log R log"
  shows "conforms (logged log) (subscribe_channels R chs)"
  by (induction chs)
    (simp_all add: lg_log.conforms_combinators conforms_logged [OF assms] client_call.intros)

lemma logged_open: "redis_log R log \<Longrightarrow> conforms (logged log) (open_pubsub R)"
  unfolding open_pubsub_def by (intro lg_log.conforms_map_err conforms_logged [of R]) (simp_all add: connected)

lemma logged_subscribe:
  assumes "redis_log R log"
  shows "conforms (logged log) (redis_subscribe R i chs)"
proof -
  have "conforms (logged log) (io_modify (f :: 'a redis_pubsub \<Rightarrow> 'a redis_pubsub) :: ('a redis_pubsub, string, unit) io)"
    if "\<And>b. rp_redis (f b) = rp_redis b" for f
    by (rule lg_log.conforms_modify) (simp add: logged_same that)
  then show ?thesis
    unfolding redis_subscribe_def
    by (intro lg_log.conforms_bind lg_log.conforms_try logged_open logged_subscribe_channels assms)
      (auto simp: register_def drop_subscription_def spawn_main_def lg_log.conforms_combinators split: sum.splits)
qed

lemma logged_add:
  assumes "redis_log R log"
  shows "conforms (logged log) (redis_add_subscription R ch i)"
proof -
  have "conforms (logged log) (io_modify (spawn_topic ch i) :: ('a redis_pubsub, string, unit) io)"
    by (rule lg_log.conforms_modify) (simp add: logged_same spawn_topic_def)
  with conforms_logged [OF assms client_call.subscribed] logged_open [OF assms] show ?thesis
    unfolding redis_add_subscription_def
    by (auto simp: lg_log.conforms_combinators intro!: lg_log.conforms_bind split: option.splits)
qed

lemma logged_move:
  assumes "redis_log R log" and "session_move R i t b b'"
  shows "logged log b b'"
  using assms(2)
proof cases
  case idle
  then show ?thesis by (simp add: logged_same)
next
  case (join p)
  with conformsD [OF logged_add [OF assms(1)]] show ?thesis by simp
next
  case (leave p)
  then show ?thesis
    by (auto simp: redis_remove_subscription_def remove_topic_def io_defs logged_same split: option.splits)
qed

lemma redis_unsubscribe_redis [simp]: "rp_redis (fst (redis_unsubscribe i b)) = rp_redis b"
  by (simp add: redis_unsubscribe_def io_defs split: option.splits)

lemma listener_redis [simp]:
  "rp_redis (listener_exit n b) = rp_redis b" "rp_redis (listener_message n ch d b) = rp_redis b"
  by (simp_all add: listener_message_def listener_exit_def Let_def split: option.splits)

lemma reads_redis: "reads i es b b' \<Longrightarrow> rp_redis b' = rp_redis b"
  by (erule reads.cases) (simp_all add: take_event_def)

lemma hub_step_logged:
  assumes "redis_log R log" and "hub_step R D h h'"
  shows "logged log (hb_broker h) (hb_broker h')"
  using assms(2)
proof cases
  case (quiet b')
  with logged_calls [OF assms(1)] show ?thesis by (simp add: quiet_broker_def logged_def)
next
  case (opened i chs b' s)
  with conforms_run [OF logged_subscribe [OF assms(1)] opened(3)] show ?thesis by simp
next
  case (refused i chs b1 res b' new_leak)
  with conforms_run [OF logged_subscribe [OF assms(1)] refused(3)] show ?thesis
    by (auto simp: logged_def drop_subscription_def)
next
  case (turned i s es b1 b' s')
  with logged_move [OF assms(1) turned(4)] reads_redis [OF turned(3)] show ?thesis by (simp add: logged_def)
next
  case (ended i s es b1 b2)
  with logged_move [OF assms(1) ended(4)] reads_redis [OF ended(3)] show ?thesis
    by (simp add: logged_def drop_subscription_def)
qed (simp_all add: logged_same)

section \<open>The main listener of a session\<close>

text \<open>
  Each session has one listener for the channel of its client and, where devices are supported and
  it named one, of its device; the others are for topics.
\<close>

definition main_listener :: "(live_session \<Rightarrow> bool) \<Rightarrow> 'r redis_pubsub \<Rightarrow> live_session \<Rightarrow> nat \<Rightarrow> bool" where
  "main_listener D b s n \<longleftrightarrow> n < length (rp_tasks b) \<and> ls_sub (rp_tasks b ! n) = live_sub s \<and>
     ls_channels (rp_tasks b ! n) = live_channels D s \<and>
     (\<forall>m<length (rp_tasks b). m \<noteq> n \<and> ls_sub (rp_tasks b ! m) = live_sub s \<longrightarrow>
        set (ls_channels (rp_tasks b ! m)) \<subseteq> range (topic_channel (live_tenant s)))"

lemma live_channels_direct: "set (live_channels D s) \<subseteq> direct_channels (live_tenant s)"
  and client_channel_live: "client_channel (live_tenant s) (live_client s) \<in> set (live_channels D s)"
  using own_channels_direct by (auto simp: live_channels_def)

lemma direct_not_topic: "direct_channels t \<inter> range (topic_channel t) = {}"
  by (auto simp: direct_channels_def client_channel_def device_channel_def topic_channel_def)

text \<open>The tasks of \<open>b'\<close> are those of \<open>b\<close> but for flags, and then new ones of \<open>i\<close> on \<open>A\<close>.\<close>

definition feeds_grow :: "uuid \<Rightarrow> string set \<Rightarrow> 'r redis_pubsub \<Rightarrow> 'r redis_pubsub \<Rightarrow> bool" where
  "feeds_grow i A b b' \<longleftrightarrow> length (rp_tasks b) \<le> length (rp_tasks b') \<and>
     (\<forall>n<length (rp_tasks b'). if n < length (rp_tasks b) then same_feed (rp_tasks b ! n) (rp_tasks b' ! n)
        else ls_sub (rp_tasks b' ! n) = i \<and> set (ls_channels (rp_tasks b' ! n)) \<subseteq> A)"

lemma touches_grow: "touches i A b b' \<Longrightarrow> feeds_grow i A b b'"
  by (simp add: touches_def feeds_grow_def)

lemma feeds_grow_cong: "feeds_grow i A b b' \<Longrightarrow> rp_tasks c = rp_tasks b \<Longrightarrow> feeds_grow i A c b'"
  by (simp add: feeds_grow_def)

lemma feeds_grow_new:
  "feeds_grow i A b b' \<Longrightarrow> n < length (rp_tasks b') \<Longrightarrow> \<not> n < length (rp_tasks b) \<Longrightarrow>
     ls_sub (rp_tasks b' ! n) = i \<and> set (ls_channels (rp_tasks b' ! n)) \<subseteq> A"
  by (simp add: feeds_grow_def)

lemma feeds_growD:
  assumes "feeds_grow i A b b'" and "n < length (rp_tasks b)"
  shows "n < length (rp_tasks b')" "ls_sub (rp_tasks b' ! n) = ls_sub (rp_tasks b ! n)"
    "ls_channels (rp_tasks b' ! n) = ls_channels (rp_tasks b ! n)"
proof -
  from assms show n: "n < length (rp_tasks b')" by (simp add: feeds_grow_def)
  with assms have "same_feed (rp_tasks b ! n) (rp_tasks b' ! n)" by (simp add: feeds_grow_def)
  then show "ls_sub (rp_tasks b' ! n) = ls_sub (rp_tasks b ! n)"
    and "ls_channels (rp_tasks b' ! n) = ls_channels (rp_tasks b ! n)" by (simp_all add: same_feed_def)
qed

lemma grow_exit: "feeds_grow i A b (listener_exit n b)"
  by (cases "n < length (rp_tasks b)")
    (auto simp: feeds_grow_def listener_exit_def same_feed_def nth_list_update)

lemma listener_exit_mailboxes [simp]: "rp_mailboxes (listener_exit n b) = rp_mailboxes b"
  by (simp add: listener_exit_def)

lemma grow_message: "feeds_grow i A b (listener_message n ch d b)"
  using grow_exit [of i A b n]
  by (auto simp: listener_message_def Let_def feeds_grow_def split: option.splits)

lemma main_listener_kept:
  assumes "feeds_grow j A b b'" and "j = live_sub s \<Longrightarrow> A \<subseteq> range (topic_channel (live_tenant s))"
    and "live_sub s' = live_sub s" "live_tenant s' = live_tenant s" "live_channels D s' = live_channels D s"
    and "main_listener D b s n"
  shows "main_listener D b' s' n"
proof -
  note more = feeds_growD [OF assms(1)]
  have "set (ls_channels (rp_tasks b' ! m)) \<subseteq> range (topic_channel (live_tenant s))"
    if m: "m < length (rp_tasks b')" "m \<noteq> n" "ls_sub (rp_tasks b' ! m) = live_sub s" for m
  proof (cases "m < length (rp_tasks b)")
    case True
    with m more [OF True] assms(6) show ?thesis by (simp add: main_listener_def)
  next
    case False
    with feeds_grow_new [OF assms(1) m(1) False] assms(2) m(3) show ?thesis by auto
  qed
  with assms(3-6) more [of n] show ?thesis by (auto simp: main_listener_def)
qed

text \<open>A new session's listener is the last task; no other task has its id.\<close>

lemma subscribe_started:
  assumes "redis_subscribe R i chs b = (b', Inr i)"
  shows "rp_mailboxes b' = (rp_mailboxes b)(i \<mapsto> [])"
    and "\<exists>t. rp_tasks b' = rp_tasks b @ [t] \<and> ls_sub t = i \<and> ls_channels t = chs"
proof -
  from assms obtain t where t: "same_core (register i b) t" "b' = spawn_main i chs t"
    by (cases rule: redis_subscribe_cases) auto
  from t(2) same_coreD [OF t(1)] show "rp_mailboxes b' = (rp_mailboxes b)(i \<mapsto> [])"
    and "\<exists>t. rp_tasks b' = rp_tasks b @ [t] \<and> ls_sub t = i \<and> ls_channels t = chs"
    by (simp_all add: spawn_main_def register_def)
qed

lemma main_listener_opened:
  assumes "fresh_id i b" and "redis_subscribe R i chs b = (b', Inr i)"
    and "chs = live_channels D s" and "live_sub s = i"
  shows "main_listener D b' s (length (rp_tasks b))"
proof -
  from subscribe_started(2) [OF assms(2)] obtain t
    where t: "rp_tasks b' = rp_tasks b @ [t]" "ls_sub t = i" "ls_channels t = chs" by blast
  have "ls_sub (rp_tasks b ! m) \<noteq> i" if "m < length (rp_tasks b)" for m
    using assms(1) that by (auto simp: fresh_id_def)
  with t assms(3,4) show ?thesis by (auto simp: main_listener_def nth_append)
qed

section \<open>What a step does to one session\<close>

text \<open>
  A session after a step without a delivery is new, or was there before: then its tasks are as
  before but for new ones on topics, and what it was handed came off the front of its receiver.
\<close>

definition handed_over :: "uuid \<Rightarrow> topic_event list \<Rightarrow> 'r redis_pubsub \<Rightarrow> 'r redis_pubsub \<Rightarrow> bool" where
  "handed_over i es b b' \<longleftrightarrow>
     (\<forall>q. rp_mailboxes b i = Some q \<longrightarrow> (\<exists>q'. q = es @ q' \<and> rp_mailboxes b' i = Some q'))"

lemma handed_nothing: "rp_mailboxes b' i = rp_mailboxes b i \<Longrightarrow> handed_over i [] b b'"
  by (simp add: handed_over_def)

lemma touches_other: "touches j A b b' \<Longrightarrow> i \<noteq> j \<Longrightarrow> rp_mailboxes b' i = rp_mailboxes b i"
  by (simp add: touches_def)

lemma session_move_mailboxes:
  assumes "session_move R i t b b'"
  shows "rp_mailboxes b' = rp_mailboxes b"
  using assms
proof cases
  case (join p)
  obtain b1 r where a: "redis_add_subscription R (topic_channel t p) i b = (b1, r)"
    by (cases "redis_add_subscription R (topic_channel t p) i b")
  then have "rp_mailboxes b1 = rp_mailboxes b"
    by (cases rule: redis_add_cases) (auto simp: same_coreD spawn_topic_def)
  with join a show ?thesis by simp
qed (auto simp: redis_remove_subscription_def remove_topic_def io_defs split: option.splits)

lemma reads_handed: "reads i es b b' \<Longrightarrow> handed_over i es b b'"
  by (cases rule: reads.cases) (auto simp: handed_over_def take_event_def)

lemma reads_frame:
  assumes "reads i es b b'"
  shows "rp_tasks b' = rp_tasks b" and "j \<noteq> i \<Longrightarrow> rp_mailboxes b' j = rp_mailboxes b j"
  using assms by (cases; simp add: take_event_def)+

lemma silent_message:
  assumes "no_delivery b (listener_message n ch d b)"
  shows "listener_message n ch d b = listener_exit n b"
proof (cases "rp_mailboxes b (ls_sub (rp_tasks b ! n))")
  case (Some q)
  with assms have "length (q @ [\<lparr>te_topic = ch, te_event = d\<rparr>]) \<le> length q"
    unfolding no_delivery_def by (fastforce simp: listener_message_def Let_def)
  then show ?thesis by simp
qed (simp add: listener_message_def)

lemma hub_step_session:
  assumes "hub_step R D h h'" and "hub_safe h" and "no_delivery (hb_broker h) (hb_broker h')"
    and "hb_sessions h' i = Some s'"
  obtains (opened) chs where "fresh_id i (hb_broker h)" "redis_subscribe R i chs (hb_broker h) = (hb_broker h', Inr i)"
      "chs = live_channels D s'" "live_sub s' = i" "live_events s' = []"
    | (kept) s j A es where "hb_sessions h i = Some s" "feeds_grow j A (hb_broker h) (hb_broker h')"
      "j = i \<Longrightarrow> A \<subseteq> range (topic_channel (live_tenant s))" "live_sub s' = live_sub s"
      "live_tenant s' = live_tenant s" "live_channels D s' = live_channels D s" "live_events s' = live_events s @ es"
      "handed_over i es (hb_broker h) (hb_broker h')"
proof -
  note new = opened
  have old: thesis if "hb_sessions h i = Some s'" "feeds_grow j A (hb_broker h) (hb_broker h')"
      "j \<noteq> i \<or> A = {}" "rp_mailboxes (hb_broker h') i = rp_mailboxes (hb_broker h) i" for j A
    using that by (intro kept [of s' j A "[]"]) (auto intro: handed_nothing)
  from assms(1) show thesis
  proof cases
    case (quiet b')
    note c = quiet_broker_core [OF quiet(2)]
    from quiet assms(4) touches_grow [OF touches_core [OF c], of i "{}"] same_coreD [OF c] show thesis
      by (intro old [of i "{}"]) simp_all
  next
    case (opened j chs b' s)
    show thesis
    proof (cases "i = j")
      case True
      with opened assms(4) show thesis by (intro new [of chs]) simp_all
    next
      case False
      note t = touches_subscribe [OF opened(4,3)]
      from opened(1) False assms(4) touches_grow [OF t] touches_other [OF t] show thesis
        by (intro old [of j "direct_channels (live_tenant s)"]) simp_all
    qed
  next
    case (refused j chs b1 res b' new_leak)
    have t: "touches j UNIV (hb_broker h) b'"
      using refused(4) touches_subscribe [OF _ refused(3), of UNIV] touches_same [of "hb_broker h" "hb_broker h" j UNIV]
      by (auto intro: touches_trans touches_drop)
    have "i \<noteq> j" using hub_safe_fresh [OF assms(2) refused(2)] refused(1) assms(4) by auto
    with refused(1) assms(4) touches_grow [OF t] touches_other [OF t] show thesis
      by (intro old [of j UNIV]) simp_all
  next
    case (turned j s es b1 b' s2)
    from assms(2) turned(2) have j: "live_sub s = j" by (simp add: hub_safe_def session_safe_def)
    note t = session_move_topics [OF turned(4)]
    have g: "feeds_grow j (range (topic_channel (live_tenant s))) (hb_broker h) b'"
      using feeds_grow_cong [OF touches_grow [OF t]] reads_frame(1) [OF turned(3)] j by simp
    show thesis
    proof (cases "i = j")
      case True
      have "handed_over i es (hb_broker h) b'"
        using reads_handed [OF turned(3)] session_move_mailboxes [OF turned(4)] True by (simp add: handed_over_def)
      with True turned assms(4) g show thesis by (intro kept [of s j _ es]) auto
    next
      case False
      with turned(1) assms(4) g session_move_mailboxes [OF turned(4)] reads_frame(2) [OF turned(3)] show thesis
        by (intro old [of j]) simp_all
    qed
  next
    case (ended j s es b1 b2)
    from assms(2) ended(2) have j: "live_sub s = j" by (simp add: hub_safe_def session_safe_def)
    have "i \<noteq> j" using ended(1) assms(4) by auto
    let ?b = "drop_subscription j (fst (redis_unsubscribe j b2))"
    have t: "touches j (range (topic_channel (live_tenant s))) b1 ?b"
      using session_move_topics [OF ended(4)] j
      by (intro touches_trans [OF _ touches_trans [OF touches_unsubscribe touches_drop]]) simp
    from feeds_grow_cong [OF touches_grow [OF t]] reads_frame(1) [OF ended(3)]
    have "feeds_grow j (range (topic_channel (live_tenant s))) (hb_broker h) ?b" by simp
    with ended(1) assms(4) j \<open>i \<noteq> j\<close> touches_other [OF t \<open>i \<noteq> j\<close>] reads_frame(2) [OF ended(3) \<open>i \<noteq> j\<close>]
    show thesis by (intro old [of j]) simp_all
  next
    case (message n ch data)
    from silent_message [of "hb_broker h" n ch data] assms(3) message(1)
    have "hb_broker h' = listener_exit n (hb_broker h)" by simp
    with message(1) assms(4) show thesis by (intro old [of i "{}"]) (simp_all add: grow_exit)
  next
    case (exit n)
    with assms(4) show thesis by (intro old [of i "{}"]) (simp_all add: grow_exit)
  qed
qed

lemma hub_step_grows:
  assumes "hub_step R D h h'"
  shows "\<exists>j A. feeds_grow j A (hb_broker h) (hb_broker h')"
  using assms
proof cases
  case (quiet b')
  with touches_grow [OF touches_core [OF quiet_broker_core [OF quiet(2)]]] show ?thesis by auto
next
  case (opened j chs b' s)
  with touches_grow [OF touches_subscribe [OF _ opened(3)]] show ?thesis by auto
next
  case (refused j chs b1 res b' new_leak)
  have t: "touches j UNIV (hb_broker h) b'"
    using refused(4) touches_subscribe [OF _ refused(3), of UNIV] touches_same [of "hb_broker h" "hb_broker h" j UNIV]
    by (auto intro: touches_trans touches_drop)
  with refused(1) touches_grow [OF t] show ?thesis by auto
next
  case (turned j s es b1 b' s2)
  from feeds_grow_cong [OF touches_grow [OF session_move_topics [OF turned(4)]]] reads_frame(1) [OF turned(3)]
    turned(1) show ?thesis by auto
next
  case (ended j s es b1 b2)
  let ?i = "live_sub s"
  have t: "touches ?i (range (topic_channel (live_tenant s))) b1 (drop_subscription ?i (fst (redis_unsubscribe ?i b2)))"
    using session_move_topics [OF ended(4)]
    by (intro touches_trans [OF _ touches_trans [OF touches_unsubscribe touches_drop]])
  from feeds_grow_cong [OF touches_grow [OF t]] reads_frame(1) [OF ended(3)] ended(1) show ?thesis by auto
next
  case (message n ch data)
  with grow_message [of 0 "{}" "hb_broker h" n ch data] show ?thesis by auto
next
  case (exit n)
  with grow_exit [of 0 "{}" "hb_broker h" n] show ?thesis by auto
qed

section \<open>What the receivers hold\<close>

text \<open>A listener on whose channels no other task of its subscription listens or has listened.\<close>

definition sole_listener :: "listener list \<Rightarrow> nat \<Rightarrow> bool" where
  "sole_listener ts n \<longleftrightarrow> (\<forall>m<length ts. m \<noteq> n \<and> ls_sub (ts ! m) = ls_sub (ts ! n) \<longrightarrow>
     set (ls_channels (ts ! m)) \<inter> set (ls_channels (ts ! n)) = {})"

definition on_channels :: "string list \<Rightarrow> topic_event list \<Rightarrow> topic_event list" where
  "on_channels chs = filter (\<lambda>e. te_topic e \<in> set chs)"

lemma on_channels_simps [simp]:
  "on_channels chs [] = []" "on_channels chs (es @ es') = on_channels chs es @ on_channels chs es'"
  "on_channels chs [e] = (if te_topic e \<in> set chs then [e] else [])"
  by (simp_all add: on_channels_def)

lemma main_is_sole: "main_listener D b s n \<Longrightarrow> sole_listener (rp_tasks b) n"
  using direct_not_topic [of "live_tenant s"] live_channels_direct [of D s] unfolding main_listener_def sole_listener_def by fastforce

text \<open>
  Handed over or waiting in the receiver: events on the channels of the session's tasks only, and of
  those on the channels of a sole listener just what it has read from its connection.
\<close>

definition session_fed :: "(string \<times> bytes) list \<Rightarrow> 'r redis_pubsub \<Rightarrow> (nat \<Rightarrow> nat) \<Rightarrow> (nat \<Rightarrow> nat) \<Rightarrow>
    live_session \<Rightarrow> topic_event list \<Rightarrow> bool" where
  "session_fed L b joined rd s es \<longleftrightarrow>
     (\<forall>e\<in>set es. \<exists>n<length (rp_tasks b). ls_sub (rp_tasks b ! n) = live_sub s \<and>
        te_topic e \<in> set (ls_channels (rp_tasks b ! n))) \<and>
     (\<forall>n<length (rp_tasks b). ls_sub (rp_tasks b ! n) = live_sub s \<and> sole_listener (rp_tasks b) n \<longrightarrow>
        on_channels (ls_channels (rp_tasks b ! n)) es =
          map as_event (take (rd n) (sent_on L (joined n) (ls_channels (rp_tasks b ! n)))))"

definition counts_ok :: "(string \<times> bytes) list \<Rightarrow> listener list \<Rightarrow> (nat \<Rightarrow> nat) \<Rightarrow> (nat \<Rightarrow> nat) \<Rightarrow> bool" where
  "counts_ok L ts joined rd \<longleftrightarrow> (\<forall>n<length ts. joined n \<le> length L \<and>
     rd n \<le> length (sent_on L (joined n) (ls_channels (ts ! n))))"

definition session_ok :: "(live_session \<Rightarrow> bool) \<Rightarrow> ('r \<Rightarrow> (string \<times> bytes) list) \<Rightarrow> ('r, 'k) fanout \<Rightarrow> uuid \<Rightarrow> live_session \<Rightarrow> bool" where
  "session_ok D log f i s \<longleftrightarrow> (\<exists>n. main_listener D (fo_broker f) s n) \<and>
     (\<exists>q. rp_mailboxes (fo_broker f) i = Some q \<and>
        session_fed (log (rp_redis (fo_broker f))) (fo_broker f) (fo_joined f) (fo_read f) s (live_events s @ q))"

definition fan_inv :: "(live_session \<Rightarrow> bool) \<Rightarrow> ('r \<Rightarrow> (string \<times> bytes) list) \<Rightarrow> ('r, 'k) fanout \<Rightarrow> bool" where
  "fan_inv D log f \<longleftrightarrow>
     counts_ok (log (rp_redis (fo_broker f))) (rp_tasks (fo_broker f)) (fo_joined f) (fo_read f) \<and>
     (\<forall>i s. gw_sessions (fo_gateway f) i = Some s \<longrightarrow> session_ok D log f i s)"

lemma sole_listener_before:
  assumes "feeds_grow j A b b'" and "n < length (rp_tasks b)" and "sole_listener (rp_tasks b') n"
  shows "sole_listener (rp_tasks b) n"
  using assms(3) feeds_growD [OF assms(1)] assms(2) unfolding sole_listener_def by metis

lemma counts_kept:
  assumes "prefix L L'" and "feeds_grow j A b b'" and "counts_ok L (rp_tasks b) joined rd"
  shows "counts_ok L' (rp_tasks b') (\<lambda>n. if n < length (rp_tasks b) then joined n else length L')
     (\<lambda>n. if n < length (rp_tasks b) then rd n else 0)"
proof -
  have "joined n \<le> length L' \<and> rd n \<le> length (sent_on L' (joined n) (ls_channels (rp_tasks b' ! n)))"
    if n: "n < length (rp_tasks b)" for n
  proof -
    from assms(3) n have c: "joined n \<le> length L" "rd n \<le> length (sent_on L (joined n) (ls_channels (rp_tasks b ! n)))"
      by (simp_all add: counts_ok_def)
    from prefix_length_le [OF assms(1)] c(1)
      prefix_length_le [OF sent_on_extended [OF assms(1) c(1), of "ls_channels (rp_tasks b ! n)"]] c(2)
      feeds_growD(3) [OF assms(2) n] show ?thesis by simp
  qed
  then show ?thesis by (simp add: counts_ok_def)
qed

lemma fed_kept:
  assumes "prefix L L'" and g: "feeds_grow j A b b'" and c: "counts_ok L (rp_tasks b) joined rd"
    and fed: "session_fed L b joined rd s es" and sub: "live_sub s' = live_sub s"
  shows "session_fed L' b' (\<lambda>n. if n < length (rp_tasks b) then joined n else length L')
     (\<lambda>n. if n < length (rp_tasks b) then rd n else 0) s' es"
proof -
  note more = feeds_growD [OF g]
  have from_task: "\<exists>n<length (rp_tasks b'). ls_sub (rp_tasks b' ! n) = live_sub s \<and>
      te_topic e \<in> set (ls_channels (rp_tasks b' ! n)) \<and> n < length (rp_tasks b)" if "e \<in> set es" for e
    using fed that more unfolding session_fed_def by metis
  have "on_channels (ls_channels (rp_tasks b' ! n)) es = map as_event (take (if n < length (rp_tasks b) then rd n else 0)
      (sent_on L' (if n < length (rp_tasks b) then joined n else length L') (ls_channels (rp_tasks b' ! n))))"
    if n: "n < length (rp_tasks b')" "ls_sub (rp_tasks b' ! n) = live_sub s" "sole_listener (rp_tasks b') n" for n
  proof (cases "n < length (rp_tasks b)")
    case True
    let ?chs = "ls_channels (rp_tasks b ! n)"
    from c True have ok: "joined n \<le> length L" "rd n \<le> length (sent_on L (joined n) ?chs)"
      by (simp_all add: counts_ok_def)
    from sent_on_extended [OF assms(1) ok(1), of ?chs] ok(2)
    have "take (rd n) (sent_on L' (joined n) ?chs) = take (rd n) (sent_on L (joined n) ?chs)"
      by (auto simp: prefix_def)
    moreover have "on_channels ?chs es = map as_event (take (rd n) (sent_on L (joined n) ?chs))"
      using fed True n(2) more [OF True] sole_listener_before [OF g True n(3)] by (simp add: session_fed_def)
    ultimately show ?thesis using True more(3) [OF True] by simp
  next
    case False
    have "te_topic e \<notin> set (ls_channels (rp_tasks b' ! n))" if e: "e \<in> set es" for e
    proof -
      from from_task [OF e] obtain m where "m < length (rp_tasks b')" "ls_sub (rp_tasks b' ! m) = live_sub s"
        "te_topic e \<in> set (ls_channels (rp_tasks b' ! m))" "m < length (rp_tasks b)" by blast
      with n(2,3) False show ?thesis unfolding sole_listener_def by (metis disjoint_iff)
    qed
    with False show ?thesis by (simp add: on_channels_def filter_empty_conv)
  qed
  with from_task sub show ?thesis unfolding session_fed_def by metis
qed

lemma fed_opened:
  assumes "fresh_id i b" and "redis_subscribe R i chs b = (b', Inr i)" and "live_sub s = i"
  shows "session_fed L b' (\<lambda>n. if n < length (rp_tasks b) then joined n else length L)
     (\<lambda>n. if n < length (rp_tasks b) then rd n else 0) s []"
proof -
  from subscribe_started(2) [OF assms(2)] obtain t where "rp_tasks b' = rp_tasks b @ [t]" by blast
  with assms(1) have "n = length (rp_tasks b)" if "n < length (rp_tasks b')" "ls_sub (rp_tasks b' ! n) = i" for n
    using that by (auto simp: nth_append fresh_id_def split: if_splits)
  with assms(3) show ?thesis by (simp add: session_fed_def)
qed

lemma session_ok_carry:
  "session_ok D log (carry log f g') i s \<longleftrightarrow> (\<exists>n. main_listener D (gw_broker g') s n) \<and>
     (\<exists>q. rp_mailboxes (gw_broker g') i = Some q \<and> session_fed (log (rp_redis (gw_broker g'))) (gw_broker g')
        (\<lambda>n. if n < length (rp_tasks (fo_broker f)) then fo_joined f n else length (log (rp_redis (gw_broker g'))))
        (\<lambda>n. if n < length (rp_tasks (fo_broker f)) then fo_read f n else 0) s (live_events s @ q))"
  by (simp add: session_ok_def carry_def)

lemma session_ok_opened:
  assumes "fresh_id i (fo_broker f)" and "redis_subscribe R i chs (fo_broker f) = (gw_broker g', Inr i)"
    and "chs = live_channels D s" and "live_sub s = i" and "live_events s = []"
  shows "session_ok D log (carry log f g') i s"
  unfolding session_ok_carry
  using main_listener_opened [OF assms(1-4)] fed_opened [OF assms(1,2,4)] subscribe_started(1) [OF assms(2)] assms(5)
  by (intro conjI exI [of _ "length (rp_tasks (fo_broker f))"] exI [of _ "[]"]) simp_all

lemma session_ok_kept:
  assumes "prefix (log (rp_redis (fo_broker f))) (log (rp_redis (gw_broker g')))"
    and "counts_ok (log (rp_redis (fo_broker f))) (rp_tasks (fo_broker f)) (fo_joined f) (fo_read f)"
    and "feeds_grow j A (fo_broker f) (gw_broker g')"
    and "j = live_sub s \<Longrightarrow> A \<subseteq> range (topic_channel (live_tenant s))"
    and ids: "live_sub s' = live_sub s" "live_tenant s' = live_tenant s" "live_channels D s' = live_channels D s"
    and "live_events s' = live_events s @ es" and "handed_over i es (fo_broker f) (gw_broker g')"
    and "session_ok D log f i s"
  shows "session_ok D log (carry log f g') i s'"
proof -
  from assms(10) obtain n q where main: "main_listener D (fo_broker f) s n" and q: "rp_mailboxes (fo_broker f) i = Some q"
    and fed: "session_fed (log (rp_redis (fo_broker f))) (fo_broker f) (fo_joined f) (fo_read f) s (live_events s @ q)"
    unfolding session_ok_def by blast
  from assms(9) q obtain q' where q': "q = es @ q'" "rp_mailboxes (gw_broker g') i = Some q'" by (auto simp: handed_over_def)
  from fed_kept [OF assms(1,3,2) fed ids(1)] main_listener_kept [OF assms(3,4) ids main] q' assms(8)
  show ?thesis unfolding session_ok_carry by auto
qed

lemma handled_keeps_inv:
  assumes "redis_log R log" and "hub_step R D (hub_of (fo_gateway f)) (hub_of g')" and "hub_safe (hub_of (fo_gateway f))"
    and "no_delivery (fo_broker f) (gw_broker g')" and "fan_inv D log f"
  shows "fan_inv D log (carry log f g')"
proof -
  from hub_step_logged [OF assms(1,2)] have L: "prefix (log (rp_redis (fo_broker f))) (log (rp_redis (gw_broker g')))"
    by (simp add: logged_def)
  from assms(5) have c: "counts_ok (log (rp_redis (fo_broker f))) (rp_tasks (fo_broker f)) (fo_joined f) (fo_read f)"
    by (simp add: fan_inv_def)
  have "session_ok D log (carry log f g') i s'" if "gw_sessions g' i = Some s'" for i s'
  proof -
    have nd: "no_delivery (hb_broker (hub_of (fo_gateway f))) (hb_broker (hub_of g'))" using assms(4) by simp
    from that have s': "hb_sessions (hub_of g') i = Some s'" by simp
    from assms(2,3) nd s' show ?thesis
    proof (cases rule: hub_step_session)
      case (opened chs)
      then show ?thesis by (intro session_ok_opened [of i f R chs]) simp_all
    next
      case (kept s j A es)
      with assms(3) have "live_sub s = i" by (simp add: hub_safe_def session_safe_def)
      moreover from kept(1) assms(5) have "session_ok D log f i s" by (simp add: fan_inv_def)
      ultimately show ?thesis using kept by (intro session_ok_kept [OF L c]) simp_all
    qed
  qed
  moreover from hub_step_grows [OF assms(2)] obtain j A where "feeds_grow j A (fo_broker f) (gw_broker g')" by auto
  from counts_kept [OF L this c]
  have "counts_ok (log (rp_redis (gw_broker g'))) (rp_tasks (gw_broker g')) (fo_joined (carry log f g')) (fo_read (carry log f g'))"
    by (simp add: carry_def)
  ultimately show ?thesis by (simp add: fan_inv_def)
qed

section \<open>A message that is passed on\<close>

lemma message_feeds:
  "length (rp_tasks (listener_message n ch d b)) = length (rp_tasks b)"
  "m < length (rp_tasks b) \<Longrightarrow> ls_sub (rp_tasks (listener_message n ch d b) ! m) = ls_sub (rp_tasks b ! m) \<and>
     ls_channels (rp_tasks (listener_message n ch d b) ! m) = ls_channels (rp_tasks b ! m)"
proof -
  show "length (rp_tasks (listener_message n ch d b)) = length (rp_tasks b)"
    by (simp add: listener_message_def listener_exit_def Let_def split: option.splits)
  assume "m < length (rp_tasks b)"
  from feeds_growD [OF grow_message this] show "ls_sub (rp_tasks (listener_message n ch d b) ! m) = ls_sub (rp_tasks b ! m) \<and>
     ls_channels (rp_tasks (listener_message n ch d b) ! m) = ls_channels (rp_tasks b ! m)" by simp
qed

lemma sole_message:
  "n' < length (rp_tasks b) \<Longrightarrow> sole_listener (rp_tasks (listener_message n ch d b)) n' = sole_listener (rp_tasks b) n'"
  by (simp add: sole_listener_def message_feeds)

lemma fed_message:
  "session_fed L (listener_message n ch d b) joined rd s es = session_fed L b joined rd s es"
  by (simp add: session_fed_def message_feeds sole_message cong: conj_cong)

lemma fed_elsewhere_read:
  assumes "ls_sub (rp_tasks b ! n) \<noteq> live_sub s" and "session_fed L b joined rd s es"
  shows "session_fed L b joined (rd(n := k)) s es"
proof -
  have "(rd(n := k)) m = rd m" if "ls_sub (rp_tasks b ! m) = live_sub s" for m
    using assms(1) that by auto
  with assms(2) show ?thesis unfolding session_fed_def by simp
qed

lemma fed_next:
  assumes "n < length (rp_tasks b)" and "ls_sub (rp_tasks b ! n) = live_sub s"
    and k: "rd n < length (sent_on L (joined n) (ls_channels (rp_tasks b ! n)))"
    and m: "sent_on L (joined n) (ls_channels (rp_tasks b ! n)) ! rd n = m"
    and fed: "session_fed L b joined rd s es"
  shows "session_fed L b joined (rd(n := Suc (rd n))) s (es @ [as_event m])"
proof -
  from nth_mem [OF k] have ch: "te_topic (as_event m) \<in> set (ls_channels (rp_tasks b ! n))"
    by (simp add: m as_event_def) (simp add: sent_on_def)
  have "on_channels (ls_channels (rp_tasks b ! j)) (es @ [as_event m]) =
      map as_event (take ((rd(n := Suc (rd n))) j) (sent_on L (joined j) (ls_channels (rp_tasks b ! j))))"
    if j: "j < length (rp_tasks b)" "ls_sub (rp_tasks b ! j) = live_sub s" "sole_listener (rp_tasks b) j" for j
  proof (cases "j = n")
    case True
    with fed j have "on_channels (ls_channels (rp_tasks b ! n)) es =
        map as_event (take (rd n) (sent_on L (joined n) (ls_channels (rp_tasks b ! n))))"
      by (simp add: session_fed_def)
    with True ch k m show ?thesis by (simp add: take_Suc_conv_app_nth)
  next
    case False
    with j(2,3) assms(1,2) have "set (ls_channels (rp_tasks b ! n)) \<inter> set (ls_channels (rp_tasks b ! j)) = {}"
      by (simp add: sole_listener_def)
    with ch False fed j show ?thesis by (auto simp: session_fed_def)
  qed
  with fed ch assms(1,2) show ?thesis by (auto simp: session_fed_def)
qed

lemma relay_simps [simp]:
  "gw_sessions (fo_gateway (relay log n f)) = gw_sessions (fo_gateway f)"
  "fo_joined (relay log n f) = fo_joined f"
  "fo_read (relay log n f) = (fo_read f)(n := Suc (fo_read f n))"
  by (simp_all add: relay_def case_prod_beta Let_def)

lemma relay_broker:
  "fo_broker (relay log n f) = listener_message n (fst (sent_to log f n ! fo_read f n))
     (snd (sent_to log f n ! fo_read f n)) (fo_broker f)"
  by (simp add: relay_def case_prod_beta Let_def)

lemma session_ok_relayI:
  assumes "main_listener D (listener_message n ch d (fo_broker f)) s k"
    and "rp_mailboxes (listener_message n ch d (fo_broker f)) i = Some q"
    and "session_fed (log (rp_redis (fo_broker f))) (fo_broker f) (fo_joined f)
          ((fo_read f)(n := Suc (fo_read f n))) s (live_events s @ q)"
    and "sent_to log f n ! fo_read f n = (ch, d)"
  shows "session_ok D log (relay log n f) i s"
  unfolding session_ok_def relay_broker relay_simps assms(4) fst_conv snd_conv fed_message listener_redis
  using assms(1-3) by blast

lemma relay_keeps_inv:
  assumes "can_relay log n f" and "hub_safe (hub_of (fo_gateway f))" and "fan_inv D log f"
  shows "fan_inv D log (relay log n f)"
proof -
  let ?b = "fo_broker f" and ?L = "log (rp_redis (fo_broker f))"
  obtain ch d where m: "sent_to log f n ! fo_read f n = (ch, d)" by fastforce
  have n: "n < length (rp_tasks ?b)" "fo_read f n < length (sent_on ?L (fo_joined f n) (ls_channels (rp_tasks ?b ! n)))"
    using assms(1) by (simp_all add: can_relay_def sent_to_def)
  have "session_ok D log (relay log n f) i s" if s: "gw_sessions (fo_gateway f) i = Some s" for i s
  proof -
    from assms(2) s have i: "live_sub s = i" by (auto simp: hub_safe_def session_safe_def)
    from assms(3) s have "session_ok D log f i s" by (simp add: fan_inv_def)
    then obtain k q where main: "main_listener D ?b s k" and q: "rp_mailboxes ?b i = Some q"
      and fed: "session_fed ?L ?b (fo_joined f) (fo_read f) s (live_events s @ q)"
      unfolding session_ok_def by blast
    have main': "main_listener D (listener_message n ch d ?b) s k"
      by (rule main_listener_kept [OF grow_message [of i "{}"] _ refl refl refl main]) simp
    show ?thesis
    proof (cases "ls_sub (rp_tasks ?b ! n) = i")
      case True
      from q True have box: "rp_mailboxes (listener_message n ch d ?b) i = Some (q @ [as_event (ch, d)])"
        by (simp add: listener_message_def as_event_def)
      from fed_next [OF n(1) _ n(2) m [unfolded sent_to_def] fed] True i
      have "session_fed ?L ?b (fo_joined f) ((fo_read f)(n := Suc (fo_read f n))) s (live_events s @ q @ [as_event (ch, d)])"
        by simp
      from session_ok_relayI [OF main' box this m] show ?thesis .
    next
      case False
      with q have box: "rp_mailboxes (listener_message n ch d ?b) i = Some q"
        by (simp add: listener_message_def Let_def split: option.splits)
      from fed False i
      have "session_fed ?L ?b (fo_joined f) ((fo_read f)(n := Suc (fo_read f n))) s (live_events s @ q)"
        by (intro fed_elsewhere_read) simp_all
      from session_ok_relayI [OF main' box this m] show ?thesis .
    qed
  qed
  moreover have "counts_ok ?L (rp_tasks (listener_message n ch d ?b)) (fo_joined f) ((fo_read f)(n := Suc (fo_read f n)))"
    using assms(3) n(2) by (simp add: fan_inv_def counts_ok_def message_feeds)
  ultimately show ?thesis by (simp add: fan_inv_def relay_broker m)
qed

section \<open>The invariant of the whole\<close>

definition fanout_inv :: "(live_session \<Rightarrow> bool) \<Rightarrow> ('r \<Rightarrow> (string \<times> bytes) list) \<Rightarrow> ('r, 'k) fanout \<Rightarrow> bool" where
  "fanout_inv D log f \<longleftrightarrow> hub_inv (hub_of (fo_gateway f)) \<and> fan_inv D log f"

lemma fanout_inv_new: "fanout_inv D log (fanout_new r k)"
  by (simp add: fanout_inv_def fanout_new_def hub_inv_new)
    (simp add: fan_inv_def counts_ok_def gateway_new_def redis_pubsub_new_def)

lemma hub_of_relay:
  "hub_of (fo_gateway (relay log n f)) = (hub_of (fo_gateway f))\<lparr>hb_broker := fo_broker (relay log n f)\<rparr>"
  by (simp add: relay_def case_prod_beta Let_def)

lemma relay_hub_step:
  assumes "can_relay log n f"
  shows "hub_step R D (hub_of (fo_gateway f)) (hub_of (fo_gateway (relay log n f)))"
proof -
  from assms have n: "n < length (rp_tasks (fo_broker f))" "ls_alive (rp_tasks (fo_broker f) ! n)"
    and k: "fo_read f n < length (sent_to log f n)" by (simp_all add: can_relay_def)
  from nth_mem [OF k] have ch: "fst (sent_to log f n ! fo_read f n) \<in> set (ls_channels (rp_tasks (fo_broker f) ! n))"
    by (simp add: sent_to_def) (simp add: sent_on_def)
  show ?thesis
    unfolding hub_of_relay relay_broker using message [of n "hub_of (fo_gateway f)"] n ch by simp
qed

lemma elsewhere_hub_inv:
  assumes "hub_inv (hub_of g)"
  shows "hub_inv (hub_of (set_broker ((gw_broker g)\<lparr>rp_redis := r\<rparr>) g))"
proof -
  have "same_core (gw_broker g) ((gw_broker g)\<lparr>rp_redis := r\<rparr>)" by (auto simp: same_core_def)
  from session_safe_core [OF this] assms show ?thesis
    by (simp add: hub_inv_def hub_safe_def hub_counted_def hub_known_def)
qed

lemma elsewhere_keeps_inv:
  assumes "prefix (log (rp_redis (fo_broker f))) (log r)" and "fan_inv D log f"
  shows "fan_inv D log (carry log f (set_broker ((fo_broker f)\<lparr>rp_redis := r\<rparr>) (fo_gateway f)))"
proof -
  let ?g = "set_broker ((fo_broker f)\<lparr>rp_redis := r\<rparr>) (fo_gateway f)"
  have L: "prefix (log (rp_redis (fo_broker f))) (log (rp_redis (gw_broker ?g)))" using assms(1) by simp
  have g: "feeds_grow i {} (fo_broker f) (gw_broker ?g)" for i by (simp add: feeds_grow_def)
  from assms(2) have c: "counts_ok (log (rp_redis (fo_broker f))) (rp_tasks (fo_broker f)) (fo_joined f) (fo_read f)"
    by (simp add: fan_inv_def)
  have "session_ok D log (carry log f ?g) i s" if "gw_sessions (fo_gateway f) i = Some s" for i s
    by (rule session_ok_kept [where es = "[]" and s = s, OF L c g [of i]])
      (use assms(2) that in \<open>simp_all add: fan_inv_def handed_nothing\<close>)
  moreover from counts_kept [OF L g c]
  have "counts_ok (log r) (rp_tasks (fo_broker f)) (fo_joined (carry log f ?g)) (fo_read (carry log f ?g))"
    by (simp add: carry_def)
  ultimately show ?thesis by (simp add: fan_inv_def)
qed

lemma fanout_step_inv:
  assumes "wired R H X" and "redis_log R log" and "fanout_step log H X f f'" and "fanout_inv (device_support H X) log f"
  shows "fanout_inv (device_support H X) log f'"
  using assms(3)
proof cases
  case (handled g')
  note h = gateway_refines_hub_step [OF assms(1) handled(2)]
  from assms(4) have i: "hub_inv (hub_of (fo_gateway f))" "fan_inv (device_support H X) log f" by (simp_all add: fanout_inv_def)
  then have "hub_safe (hub_of (fo_gateway f))" by (simp add: hub_inv_def)
  from handled_keeps_inv [OF assms(2) h this handled(3) i(2)] hub_step_keeps_inv [OF h i(1)] handled(1)
  show ?thesis by (simp add: fanout_inv_def)
next
  case (relayed n)
  from assms(4) have i: "hub_inv (hub_of (fo_gateway f))" "fan_inv (device_support H X) log f" by (simp_all add: fanout_inv_def)
  then have "hub_safe (hub_of (fo_gateway f))" by (simp add: hub_inv_def)
  from relay_keeps_inv [OF relayed(2) this i(2)] hub_step_keeps_inv [OF relay_hub_step [OF relayed(2)] i(1)] relayed(1)
  show ?thesis by (simp add: fanout_inv_def)
next
  case (elsewhere r)
  with assms(4) elsewhere_hub_inv [of "fo_gateway f" r] elsewhere_keeps_inv [of log f r] show ?thesis
    by (simp add: fanout_inv_def)
qed

lemma fanout_reachable_inv:
  assumes "wired R H X" and "redis_log R log" and "fanout_reachable log H X f"
  shows "fanout_inv (device_support H X) log f"
  using assms(3)
  by (induction rule: fanout_reachable.induct) (auto intro: fanout_inv_new fanout_step_inv [OF assms(1,2)])

lemma fanout_run_inv:
  assumes "wired R H X" and "redis_log R log" and "(fanout_step log H X)\<^sup>*\<^sup>* f f'" and "fanout_inv (device_support H X) log f"
  shows "fanout_inv (device_support H X) log f'"
  using assms(3,4) by (induction rule: rtranclp_induct) (auto intro: fanout_step_inv [OF assms(1,2)])

end
