(* ===== verification/Arrival.thy ===== *)
theory Arrival
  imports Fanout
begin

text \<open>
  What arrives at the sessions of the gateway: the messages of a client come to each of its sessions
  exactly once and in order, what a publisher is told to have sent reaches every open session, and a
  topic that a client leaves and asks for again can come twice.
\<close>

section \<open>From a publisher to the client\<close>

text \<open>A publish that is answered put one message on the client's channel and changed nothing else.\<close>

lemma send_event_to_client:
  assumes "svc_pubsub (gh_push_service H) = redis_pubsub_ops R" and "redis_log R log"
    and "authorize_publisher H clock md = Inr p"
    and "send_event H clock md (SendEventToClientChannel c ev) w = (w', Inr st)"
  shows "log (rp_redis (pw_pubsub w')) =
      log (rp_redis (pw_pubsub w)) @ [(client_channel (ac_tenant_id p) c, fst (extract_event ev))]"
    and "same_core (pw_pubsub w) (pw_pubsub w')"
proof -
  let ?ch = "client_channel (ac_tenant_id p) c" and ?d = "fst (extract_event ev)"
  obtain r x where r: "rc_publish R ?ch ?d (rp_redis (pw_pubsub w)) = (r, x)" by fastforce
  with assms(1,3,4) have x: "x = Inr ()" and w': "pw_pubsub w' = (pw_pubsub w)\<lparr>rp_redis := r\<rparr>"
    by (cases x; auto simp: send_event_def publish_call_def publish_to_client_def publish_counted_def on_pubsub_def
        on_metrics_def redis_pubsub_ops_def redis_publish_def on_redis_def io_defs split: if_splits)+
  from assms(2) r x w' show "log (rp_redis (pw_pubsub w')) = log (rp_redis (pw_pubsub w)) @ [(?ch, ?d)]"
    by (simp add: redis_log_def)
  from w' show "same_core (pw_pubsub w) (pw_pubsub w')" by (auto simp: same_core_def)
qed

lemma main_listener_redis [simp]: "main_listener D (b\<lparr>rp_redis := r\<rparr>) s n = main_listener D b s n"
  by (simp add: main_listener_def)

text \<open>What stays of a listener along a run, also when its session ends.\<close>

definition watches :: "(live_session \<Rightarrow> bool) \<Rightarrow> ('r, 'k) fanout \<Rightarrow> uuid \<Rightarrow> nat \<Rightarrow> string list \<Rightarrow> nat \<Rightarrow> bool" where
  "watches D f i n chs j \<longleftrightarrow> n < length (rp_tasks (fo_broker f)) \<and> ls_sub (rp_tasks (fo_broker f) ! n) = i \<and>
     ls_channels (rp_tasks (fo_broker f) ! n) = chs \<and> fo_joined f n = j \<and>
     (\<forall>s. gw_sessions (fo_gateway f) i = Some s \<longrightarrow> main_listener D (fo_broker f) s n)"

text \<open>What a session was handed or has waiting, of the channels on which one listener reads.\<close>

lemma session_reads:
  assumes "fanout_inv D log f" and "gw_sessions (fo_gateway f) i = Some s"
  obtains n q where "main_listener D (fo_broker f) s n" "live_sub s = i" "rp_mailboxes (fo_broker f) i = Some q"
    "\<forall>m<length (rp_tasks (fo_broker f)). ls_sub (rp_tasks (fo_broker f) ! m) = i \<and> sole_listener (rp_tasks (fo_broker f)) m \<longrightarrow>
       on_channels (ls_channels (rp_tasks (fo_broker f) ! m)) (live_events s @ q) =
         map as_event (take (fo_read f m) (sent_to log f m))"
proof -
  from assms have i: "live_sub s = i"
    by (auto simp: fanout_inv_def hub_inv_def hub_safe_def session_safe_def)
  from assms obtain n q where main: "main_listener D (fo_broker f) s n" and q: "rp_mailboxes (fo_broker f) i = Some q"
    and fed: "session_fed (log (rp_redis (fo_broker f))) (fo_broker f) (fo_joined f) (fo_read f) s (live_events s @ q)"
    unfolding fanout_inv_def fan_inv_def session_ok_def by blast
  have "on_channels (ls_channels (rp_tasks (fo_broker f) ! m)) (live_events s @ q) =
      map as_event (take (fo_read f m) (sent_to log f m))"
    if "m < length (rp_tasks (fo_broker f))" "ls_sub (rp_tasks (fo_broker f) ! m) = i" "sole_listener (rp_tasks (fo_broker f)) m"
    for m using fed that unfolding session_fed_def sent_to_def i by blast
  with main i q show thesis by (intro that [of n q]) simp_all
qed

text \<open>The channels of its client and device, read by its main listener.\<close>

lemma session_reads_own:
  assumes "fanout_inv D log f" and "gw_sessions (fo_gateway f) i = Some s" and "main_listener D (fo_broker f) s n"
  shows "\<exists>q. rp_mailboxes (fo_broker f) i = Some q \<and>
    on_channels (live_channels D s) (live_events s @ q) = map as_event (take (fo_read f n) (sent_to log f n))"
proof -
  from assms(1,2) obtain k q where "main_listener D (fo_broker f) s k" and i: "live_sub s = i"
    and q: "rp_mailboxes (fo_broker f) i = Some q"
    and sole: "\<forall>m<length (rp_tasks (fo_broker f)). ls_sub (rp_tasks (fo_broker f) ! m) = i \<and> sole_listener (rp_tasks (fo_broker f)) m \<longrightarrow>
       on_channels (ls_channels (rp_tasks (fo_broker f) ! m)) (live_events s @ q) =
         map as_event (take (fo_read f m) (sent_to log f m))"
    by (rule session_reads)
  from assms(3) i have n: "n < length (rp_tasks (fo_broker f))" "ls_sub (rp_tasks (fo_broker f) ! n) = i"
    and chs: "ls_channels (rp_tasks (fo_broker f) ! n) = live_channels D s" by (simp_all add: main_listener_def)
  from sole n main_is_sole [OF assms(3)] q show ?thesis unfolding chs [symmetric] by blast
qed

lemma watches_handled:
  assumes "hub_step R D (hub_of (fo_gateway f)) (hub_of g')" and "hub_safe (hub_of (fo_gateway f))"
    and "no_delivery (fo_broker f) (gw_broker g')" and "watches D f i n chs j"
  shows "watches D (carry log f g') i n chs j"
proof -
  from assms(4) have n: "n < length (rp_tasks (fo_broker f))" "ls_sub (rp_tasks (fo_broker f) ! n) = i"
    by (simp_all add: watches_def)
  from hub_step_grows [OF assms(1)] obtain k A where "feeds_grow k A (fo_broker f) (gw_broker g')" by auto
  note more = feeds_growD [OF this n(1)]
  have "main_listener D (gw_broker g') s' n" if "gw_sessions g' i = Some s'" for s'
  proof -
    have nd: "no_delivery (hb_broker (hub_of (fo_gateway f))) (hb_broker (hub_of g'))" using assms(3) by simp
    from that have s': "hb_sessions (hub_of g') i = Some s'" by simp
    from assms(1,2) nd s' show ?thesis
    proof (cases rule: hub_step_session)
      case (opened chs)
      with n show ?thesis by (auto simp: fresh_id_def)
    next
      case (kept s j A es)
      from kept(1) assms(4) have main: "main_listener D (fo_broker f) s n" by (simp add: watches_def)
      from n main have "live_sub s = i" by (simp add: main_listener_def)
      with main_listener_kept [OF _ _ kept(4-6) main, of j A "gw_broker g'"] kept(2,3) show ?thesis by simp
    qed
  qed
  with assms(4) more n show ?thesis by (simp add: watches_def carry_def)
qed

lemma watches_relay:
  assumes "watches D f i n chs j"
  shows "watches D (relay log m f) i n chs j"
proof -
  obtain ch d where m: "sent_to log f m ! fo_read f m = (ch, d)" by fastforce
  from assms have n: "n < length (rp_tasks (fo_broker f))" by (simp add: watches_def)
  have "main_listener D (listener_message m ch d (fo_broker f)) s n" if "main_listener D (fo_broker f) s n" for s
    by (rule main_listener_kept [OF grow_message [of 0 "{}"] _ refl refl refl that]) simp
  with assms message_feeds(2) [OF n] show ?thesis
    by (simp add: watches_def relay_broker m) (simp add: relay_def m message_feeds)
qed

lemma fanout_step_watches:
  assumes "wired R H X" and "fanout_step log H X f f'" and "fanout_inv (device_support H X) log f" and "watches (device_support H X) f i n chs j"
  shows "watches (device_support H X) f' i n chs j"
  using assms(2)
proof cases
  case (handled g')
  from assms(3) have "hub_safe (hub_of (fo_gateway f))" by (simp add: fanout_inv_def hub_inv_def)
  with watches_handled [OF gateway_refines_hub_step [OF assms(1) handled(2)] _ handled(3) assms(4)] handled(1)
  show ?thesis by simp
next
  case (relayed m)
  with watches_relay [OF assms(4)] show ?thesis by simp
next
  case (elsewhere r)
  with assms(4) show ?thesis by (simp add: watches_def carry_def)
qed

lemma fanout_step_log:
  assumes "wired R H X" and "redis_log R log" and "fanout_step log H X f f'"
  shows "prefix (log (rp_redis (fo_broker f))) (log (rp_redis (fo_broker f')))"
  using assms(3)
proof cases
  case (handled g')
  with hub_step_logged [OF assms(2) gateway_refines_hub_step [OF assms(1) handled(2)]] show ?thesis
    by (simp add: logged_def)
next
  case (relayed m)
  then show ?thesis by (simp add: relay_broker)
next
  case (elsewhere r)
  then show ?thesis by simp
qed

lemma fanout_run_watches:
  assumes "wired R H X" and "redis_log R log" and "(fanout_step log H X)\<^sup>*\<^sup>* f f'" and "fanout_inv (device_support H X) log f"
    and "watches (device_support H X) f i n chs j"
  shows "watches (device_support H X) f' i n chs j \<and> prefix (log (rp_redis (fo_broker f))) (log (rp_redis (fo_broker f')))"
  using assms(3)
proof (induction rule: rtranclp_induct)
  case base
  with assms(5) show ?case by simp
next
  case (step f1 f2)
  from fanout_run_inv [OF assms(1,2) step(1) assms(4)] fanout_step_watches [OF assms(1) step(2)]
    fanout_step_log [OF assms(1,2) step(2)] step(3) show ?case by (auto intro: prefix_order.trans)
qed

text \<open>A listener that runs can read all that was sent to it, without any other part moving.\<close>

definition relays :: "('r \<Rightarrow> (string \<times> bytes) list) \<Rightarrow> nat \<Rightarrow> ('r, 'k) fanout \<Rightarrow> ('r, 'k) fanout \<Rightarrow> bool" where
  "relays log n f f' \<longleftrightarrow> can_relay log n f \<and> f' = relay log n f"

lemma relay_open_receiver:
  assumes "rp_mailboxes (fo_broker f) (ls_sub (rp_tasks (fo_broker f) ! n)) = Some q"
  shows "rp_tasks (fo_broker (relay log n f)) = rp_tasks (fo_broker f)"
    and "rp_mailboxes (fo_broker (relay log n f)) (ls_sub (rp_tasks (fo_broker f) ! n)) \<noteq> None"
    and "sent_to log (relay log n f) n = sent_to log f n"
proof -
  obtain ch d where m: "sent_to log f n ! fo_read f n = (ch, d)" by fastforce
  show t: "rp_tasks (fo_broker (relay log n f)) = rp_tasks (fo_broker f)"
    and "rp_mailboxes (fo_broker (relay log n f)) (ls_sub (rp_tasks (fo_broker f) ! n)) \<noteq> None"
    unfolding relay_broker m by (simp_all add: listener_message_def assms)
  show "sent_to log (relay log n f) n = sent_to log f n"
    unfolding sent_to_def t relay_simps by (simp add: relay_broker)
qed

lemma relays_catch_up:
  assumes "n < length (rp_tasks (fo_broker f))" and "ls_alive (rp_tasks (fo_broker f) ! n)"
    and "rp_mailboxes (fo_broker f) (ls_sub (rp_tasks (fo_broker f) ! n)) \<noteq> None"
    and "fo_read f n \<le> length (sent_to log f n)"
  shows "\<exists>f'. (relays log n)\<^sup>*\<^sup>* f f' \<and> fo_read f' n = length (sent_to log f' n) \<and>
    sent_to log f' n = sent_to log f n \<and> gw_sessions (fo_gateway f') = gw_sessions (fo_gateway f)"
  using assms
proof (induction "length (sent_to log f n) - fo_read f n" arbitrary: f)
  case 0
  then show ?case by (intro exI [of _ f]) simp
next
  case (Suc k)
  from Suc.prems(3) obtain q where q: "rp_mailboxes (fo_broker f) (ls_sub (rp_tasks (fo_broker f) ! n)) = Some q" by blast
  note r = relay_open_receiver [OF q, of log]
  have step: "relays log n f (relay log n f)" using Suc.prems Suc.hyps(2) by (simp add: relays_def can_relay_def)
  have "\<exists>f'. (relays log n)\<^sup>*\<^sup>* (relay log n f) f' \<and> fo_read f' n = length (sent_to log f' n) \<and>
    sent_to log f' n = sent_to log (relay log n f) n \<and> gw_sessions (fo_gateway f') = gw_sessions (fo_gateway (relay log n f))"
    by (rule Suc.hyps(1)) (use Suc.prems Suc.hyps(2) r in simp_all)
  with step r(3) show ?case by (auto intro: converse_rtranclp_into_rtranclp)
qed

lemma relays_run: "(relays log n)\<^sup>*\<^sup>* f f' \<Longrightarrow> (fanout_step log H X)\<^sup>*\<^sup>* f f'"
  by (induction rule: rtranclp_induct)
    (auto simp: relays_def intro: rtranclp.rtrancl_into_rtrancl fanout_step.relayed)

lemma read_message_arrives:
  assumes "wired R H X" and "redis_log R log" and inv: "fanout_inv (device_support H X) log f"
    and w: "watches (device_support H X) f i n (ls_channels (rp_tasks (fo_broker f) ! n)) (fo_joined f n)"
    and e: "e \<in> set (sent_to log f n)" and run: "(fanout_step log H X)\<^sup>*\<^sup>* f f'"
    and read: "fo_read f' n = length (sent_to log f' n)" and s: "gw_sessions (fo_gateway f') i = Some s"
  shows "\<exists>q. rp_mailboxes (fo_broker f') i = Some q \<and> as_event e \<in> set (live_events s @ q)"
proof -
  from fanout_run_watches [OF assms(1,2) run inv w]
  have w': "watches (device_support H X) f' i n (ls_channels (rp_tasks (fo_broker f) ! n)) (fo_joined f n)"
    and L: "prefix (log (rp_redis (fo_broker f))) (log (rp_redis (fo_broker f')))" by simp_all
  have "fo_joined f n \<le> length (log (rp_redis (fo_broker f)))"
    using inv w by (simp add: fanout_inv_def fan_inv_def counts_ok_def watches_def)
  from sent_on_extended [OF L this, of "ls_channels (rp_tasks (fo_broker f) ! n)"] w'
  have "prefix (sent_to log f n) (sent_to log f' n)" by (simp add: sent_to_def watches_def)
  with e have e': "e \<in> set (sent_to log f' n)" by (auto simp: prefix_def)
  from w' s have main: "main_listener (device_support H X) (fo_broker f') s n" and n: "n < length (rp_tasks (fo_broker f'))"
    by (simp_all add: watches_def)
  from fanout_run_inv [OF assms(1,2) run inv] s obtain q where q: "rp_mailboxes (fo_broker f') i = Some q"
    and fed: "session_fed (log (rp_redis (fo_broker f'))) (fo_broker f') (fo_joined f') (fo_read f') s (live_events s @ q)"
    unfolding fanout_inv_def fan_inv_def session_ok_def by blast
  have "on_channels (ls_channels (rp_tasks (fo_broker f') ! n)) (live_events s @ q) =
      map as_event (take (fo_read f' n) (sent_to log f' n))"
    using fed n main main_is_sole [OF main] unfolding session_fed_def sent_to_def main_listener_def by blast
  with read e' have "as_event e \<in> set (on_channels (ls_channels (rp_tasks (fo_broker f') ! n)) (live_events s @ q))"
    by simp
  then have "as_event e \<in> set (live_events s @ q)" by (auto simp: on_channels_def)
  with q show ?thesis by blast
qed

text \<open>
  C7: An event that a publisher is told to have sent to a client reaches every session of the
  client that is open then: its listener, if it runs, needs only its own moves to catch up, and
  once it has caught up, at whatever time and after whatever else happened, the event was handed to
  the session or waits for it, as long as the session is open.
\<close>

theorem published_event_reaches_client:
  assumes "wired R H X" and "redis_log R log" and "fanout_reachable log H X f"
    and "authorize_publisher H clock md = Inr p"
    and "send_event H clock md (SendEventToClientChannel c ev) (gw_world (fo_gateway f)) = (w', Inr st)"
    and "gw_sessions (fo_gateway f) i = Some s" and "live_tenant s = ac_tenant_id p" and "live_client s = c"
  shows "\<exists>f1 n. fanout_step log H X f f1 \<and> gw_world (fo_gateway f1) = w' \<and> main_listener (device_support H X) (fo_broker f1) s n \<and>
    (ls_alive (rp_tasks (fo_broker f1) ! n) \<longrightarrow> (\<exists>f2. (relays log n)\<^sup>*\<^sup>* f1 f2 \<and>
       fo_read f2 n = length (sent_to log f2 n) \<and> gw_sessions (fo_gateway f2) i = Some s)) \<and>
    (\<forall>f2 s2. (fanout_step log H X)\<^sup>*\<^sup>* f1 f2 \<and> fo_read f2 n = length (sent_to log f2 n) \<and>
         gw_sessions (fo_gateway f2) i = Some s2 \<longrightarrow>
       (\<exists>q. rp_mailboxes (fo_broker f2) i = Some q \<and>
          \<lparr>te_topic = client_channel (ac_tenant_id p) c, te_event = fst (extract_event ev)\<rparr> \<in> set (live_events s2 @ q)))"
proof -
  let ?e = "(client_channel (ac_tenant_id p) c, fst (extract_event ev))"
  let ?g1 = "(fo_gateway f)\<lparr>gw_world := w'\<rparr>"
  let ?f1 = "carry log f ?g1"
  from assms(1) have G: "svc_pubsub (gh_push_service H) = redis_pubsub_ops R" by (simp add: wired_def)
  note sent = send_event_to_client [where log = log, OF G assms(2,4,5)]
  have inv: "fanout_inv (device_support H X) log f" using fanout_reachable_inv [OF assms(1-3)] .
  have "no_delivery (fo_broker f) (gw_broker ?g1)" using same_coreD(4) [OF sent(2)] by (simp add: no_delivery_def)
  with publisher [OF assms(5)] have f1: "fanout_step log H X f ?f1" by (intro handled) simp_all
  have inv1: "fanout_inv (device_support H X) log ?f1" by (rule fanout_step_inv [OF assms(1,2) f1 inv])
  have s1: "gw_sessions (fo_gateway ?f1) i = Some s" using assms(6) by simp
  have i: "live_sub s = i" using inv assms(6) by (auto simp: fanout_inv_def hub_inv_def hub_safe_def session_safe_def)
  from inv assms(6) obtain n where main: "main_listener (device_support H X) (fo_broker f) s n"
    unfolding fanout_inv_def fan_inv_def session_ok_def by blast
  from inv1 s1 obtain q1 where q1: "rp_mailboxes (fo_broker ?f1) i = Some q1"
    unfolding fanout_inv_def fan_inv_def session_ok_def by blast
  have n: "n < length (rp_tasks (fo_broker f))" using main by (simp add: main_listener_def)
  have tasks: "rp_tasks (gw_broker ?g1) = rp_tasks (fo_broker f)" using same_coreD(3) [OF sent(2)] by simp
  with main have main1: "main_listener (device_support H X) (fo_broker ?f1) s n" by (simp add: main_listener_def)
  from inv n have joined: "fo_joined f n \<le> length (log (rp_redis (fo_broker f)))"
    by (simp add: fanout_inv_def fan_inv_def counts_ok_def)
  have ch: "fst ?e \<in> set (ls_channels (rp_tasks (fo_broker ?f1) ! n))"
    using main1 client_channel_live [of s] assms(7,8) by (simp add: main_listener_def)
  have e1: "?e \<in> set (sent_to log ?f1 n)"
    using ch joined n sent(1) by (simp add: sent_to_def sent_on_def carry_def)
  have count: "fo_read ?f1 n \<le> length (sent_to log ?f1 n)"
    using inv1 n tasks by (simp add: fanout_inv_def fan_inv_def counts_ok_def sent_to_def)
  have w: "watches (device_support H X) ?f1 i n (ls_channels (rp_tasks (fo_broker ?f1) ! n)) (fo_joined ?f1 n)"
    using main1 s1 i by (simp add: watches_def main_listener_def)
  have arrived: "\<exists>q. rp_mailboxes (fo_broker f2) i = Some q \<and> as_event ?e \<in> set (live_events s2 @ q)"
    if "(fanout_step log H X)\<^sup>*\<^sup>* ?f1 f2" "fo_read f2 n = length (sent_to log f2 n)"
      "gw_sessions (fo_gateway f2) i = Some s2" for f2 s2
    by (rule read_message_arrives [OF assms(1,2) inv1 w e1 that])
  have caught: "\<exists>f2. (relays log n)\<^sup>*\<^sup>* ?f1 f2 \<and> fo_read f2 n = length (sent_to log f2 n) \<and>
      gw_sessions (fo_gateway f2) i = Some s" if "ls_alive (rp_tasks (fo_broker ?f1) ! n)"
  proof -
    have "rp_mailboxes (fo_broker ?f1) (ls_sub (rp_tasks (fo_broker ?f1) ! n)) \<noteq> None"
      using q1 main1 i by (simp add: main_listener_def)
    from relays_catch_up [OF _ that this count] n tasks s1 show ?thesis by auto
  qed
  show ?thesis
    using f1 main1 caught arrived by (intro exI [of _ ?f1] exI [of _ n]) (simp add: as_event_def)
qed

section \<open>What holds of every run\<close>

text \<open>A main listener that runs reads up to what Redis has sent to it, by moves of its own.\<close>

lemma main_listener_catches_up:
  fixes f :: "('r, 'k) fanout" and H :: "('r redis_pubsub, 'k) grpc_handler"
  assumes "wired R H X" and "redis_log R log" and inv: "fanout_inv (device_support H X) log f"
    and s: "gw_sessions (fo_gateway f) i = Some s" and main: "main_listener (device_support H X) (fo_broker f) s n"
    and alive: "ls_alive (rp_tasks (fo_broker f) ! n)"
  shows "\<exists>f2 q2. (relays log n)\<^sup>*\<^sup>* f f2 \<and> gw_sessions (fo_gateway f2) i = Some s \<and>
    rp_mailboxes (fo_broker f2) i = Some q2 \<and>
    on_channels (live_channels (device_support H X) s) (live_events s @ q2) = map as_event (sent_to log f n)"
proof -
  from inv s have i: "live_sub s = i" by (auto simp: fanout_inv_def hub_inv_def hub_safe_def session_safe_def)
  with main have n: "n < length (rp_tasks (fo_broker f))" "ls_sub (rp_tasks (fo_broker f) ! n) = i"
    by (simp_all add: main_listener_def)
  from session_reads_own [OF inv s main] n(2) have box: "rp_mailboxes (fo_broker f) (ls_sub (rp_tasks (fo_broker f) ! n)) \<noteq> None"
    by auto
  have "fo_read f n \<le> length (sent_to log f n)"
    using inv n(1) by (simp add: fanout_inv_def fan_inv_def counts_ok_def sent_to_def)
  from relays_catch_up [OF n(1) alive box this] obtain f2 where run: "(relays log n)\<^sup>*\<^sup>* f f2"
    and read: "fo_read f2 n = length (sent_to log f2 n)" "sent_to log f2 n = sent_to log f n"
    and same: "gw_sessions (fo_gateway f2) = gw_sessions (fo_gateway f)" by blast
  from same s have s2: "gw_sessions (fo_gateway f2) i = Some s" by simp
  note steps = relays_run [OF run, where H = H and X = X]
  have "watches (device_support H X) f i n (ls_channels (rp_tasks (fo_broker f) ! n)) (fo_joined f n)"
    using n main s by (simp add: watches_def)
  from fanout_run_watches [OF assms(1,2) steps inv this] s2
  have main2: "main_listener (device_support H X) (fo_broker f2) s n" by (simp add: watches_def)
  from session_reads_own [OF fanout_run_inv [OF assms(1,2) steps inv] s2 main2] read run s2 show ?thesis by auto
qed

text \<open>
  C6: However sessions, publishers, other processes and listeners interleave, a session has one
  listener on exactly the channel of its client and, where devices are supported and it named one,
  the channel of its device. What the session has been handed or has waiting of these channels is
  what Redis sent to that listener since the session was opened, as far as the listener has read:
  every message once, unchanged, in the order of publication; the listener, if it runs, needs only
  moves of its own until that is everything sent so far. The same holds, as far as read, of every
  topic on which the session subscribed just once.
\<close>

theorem messages_arrive_once_in_order:
  assumes "wired R H X" and "redis_log R log" and "fanout_reachable log H X f"
    and "gw_sessions (fo_gateway f) i = Some s"
  shows "\<exists>n q. main_listener (device_support H X) (fo_broker f) s n \<and> rp_mailboxes (fo_broker f) i = Some q \<and>
    on_channels (live_channels (device_support H X) s) (live_events s @ q) =
      map as_event (take (fo_read f n) (sent_to log f n)) \<and>
    (ls_alive (rp_tasks (fo_broker f) ! n) \<longrightarrow> (\<exists>f2 q2. (relays log n)\<^sup>*\<^sup>* f f2 \<and>
       gw_sessions (fo_gateway f2) i = Some s \<and> rp_mailboxes (fo_broker f2) i = Some q2 \<and>
       on_channels (live_channels (device_support H X) s) (live_events s @ q2) = map as_event (sent_to log f n))) \<and>
    (\<forall>m<length (rp_tasks (fo_broker f)). ls_sub (rp_tasks (fo_broker f) ! m) = i \<and> sole_listener (rp_tasks (fo_broker f)) m \<longrightarrow>
      on_channels (ls_channels (rp_tasks (fo_broker f) ! m)) (live_events s @ q) =
        map as_event (take (fo_read f m) (sent_to log f m)))"
proof -
  note inv = fanout_reachable_inv [OF assms(1-3)]
  from inv assms(4) obtain n q where main: "main_listener (device_support H X) (fo_broker f) s n"
    and "live_sub s = i" and q: "rp_mailboxes (fo_broker f) i = Some q"
    and sole: "\<forall>m<length (rp_tasks (fo_broker f)). ls_sub (rp_tasks (fo_broker f) ! m) = i \<and> sole_listener (rp_tasks (fo_broker f)) m \<longrightarrow>
       on_channels (ls_channels (rp_tasks (fo_broker f) ! m)) (live_events s @ q) =
         map as_event (take (fo_read f m) (sent_to log f m))"
    by (rule session_reads)
  from session_reads_own [OF inv assms(4) main] q
  have own: "on_channels (live_channels (device_support H X) s) (live_events s @ q) =
      map as_event (take (fo_read f n) (sent_to log f n))" by simp
  show ?thesis
    by (intro exI [of _ n] exI [of _ q] conjI impI allI main q own main_listener_catches_up [OF assms(1,2) inv assms(4) main])
      (use sole in simp_all)
qed

section \<open>A run\<close>

text \<open>Redis as its log; a client opens a channel and asks for a topic, leaves it and asks again.\<close>

type_synonym demo_fanout = "((string \<times> bytes) list, hash_server) fanout"

definition news :: string where
  "news = topic_channel ''legacy'' ''news''"

definition demo_broker :: "(string \<times> bytes) list redis_pubsub" where
  "demo_broker = fst (redis_subscribe recording_client 1 [client_channel ''legacy'' ''bob''] (redis_pubsub_new []))"

lemma recording_client_log: "redis_log recording_client (\<lambda>r. r)"
  by (auto simp: redis_log_def recording_client_def io_defs elim!: client_call.cases)

definition demo_state :: "demo_fanout \<Rightarrow> (string \<times> bytes) list redis_pubsub \<Rightarrow> channel_response list \<Rightarrow> bool" where
  "demo_state f b outs \<longleftrightarrow> fanout_reachable (\<lambda>r. r) demo_handler demo_ws_state f \<and> fo_broker f = b \<and>
     fo_joined f = (\<lambda>_. 0) \<and> fo_read f = (\<lambda>_. 0) \<and>
     (\<exists>sess. gw_sessions (fo_gateway f) 1 = Some (GrpcLive sess) \<and> gs_tenant sess = ''legacy'' \<and>
        gs_client sess = ''bob'' \<and> gs_sub sess = 1 \<and> gs_running sess \<and> gs_open sess \<and>
        gs_device sess = None \<and> gs_out sess = map Inr outs)"

lemma demo_open_state:
  obtains f where "demo_state f demo_broker [ConnectAckResp ok_status]"
proof -
  obtain w1 sess where o: "open_channel demo_handler None 0 1 demo_metadata demo_world = (w1, Inr sess)"
    and b: "pw_pubsub w1 = demo_broker" "gs_tenant sess = ''legacy''" "gs_client sess = ''bob''" "gs_sub sess = 1"
      "gs_running sess" "gs_open sess" "gs_device sess = None" "gs_out sess = map Inr [ConnectAckResp ok_status]"
    by (simp add: open_channel_def on_metrics_def demo_auth_client demo_no_device io_defs)
      (simp add: demo_handler_def demo_service_def subscribe_client_def session_channels_def bob_def shipped_client_def
        redis_pubsub_ops_def redis_subscribe_def open_pubsub_def on_redis_def recording_client_def demo_broker_def
        demo_world_def on_pubsub_def on_metrics_def io_defs)
  let ?f0 = "fanout_new [] [] :: demo_fanout"
  let ?g = "demo_gateway_new\<lparr>gw_world := w1, gw_sessions := (gw_sessions demo_gateway_new)(1 \<mapsto> GrpcLive sess)\<rparr>"
  have w: "gw_world demo_gateway_new = demo_world" by (simp add: demo_gateway_new_def gateway_new_def demo_world_def)
  have f0: "fo_gateway ?f0 = demo_gateway_new" by (simp add: fanout_new_def demo_gateway_new_def)
  have "gateway_step demo_handler demo_ws_state demo_gateway_new ?g"
    by (rule grpc_opened [OF _ o [folded w]]) (simp add: w demo_fresh(1))
  then have "fanout_step (\<lambda>r. r) demo_handler demo_ws_state ?f0 (carry (\<lambda>r. r) ?f0 ?g)"
    by (intro handled) (simp_all add: f0 no_delivery_def w demo_world_def redis_pubsub_new_def)
  from fanout_reachable.step [OF fanout_reachable.start this] b
  have "demo_state (carry (\<lambda>r. r) ?f0 ?g) demo_broker [ConnectAckResp ok_status]"
    by (simp add: demo_state_def) (simp add: carry_def fanout_new_def gateway_new_def redis_pubsub_new_def
        demo_broker_def redis_subscribe_def open_pubsub_def on_redis_def recording_client_def io_defs
        register_def spawn_main_def)
  then show thesis by (rule that)
qed

lemma demo_request:
  assumes "demo_state f b outs" and "rp_mailboxes b' = rp_mailboxes b" and "rp_redis b' = []"
    and "req = TopicSubscriptionReq ''news'' \<and> redis_add_subscription recording_client news 1 b = (b', Inr ()) \<and>
        ack = TopicSubscriptionAckResp ''news'' ok_status \<or>
      req = TopicUnsubscriptionReq ''news'' \<and> redis_remove_subscription recording_client news 1 b = (b', Inr ()) \<and>
        ack = TopicUnsubscriptionAckResp ''news'' ok_status"
  obtains f' where "demo_state f' b' (outs @ [ack])"
proof -
  from assms(1) obtain sess where s: "gw_sessions (fo_gateway f) 1 = Some (GrpcLive sess)" "gs_tenant sess = ''legacy''"
    "gs_client sess = ''bob''" "gs_sub sess = 1" "gs_running sess"
    and o: "gs_open sess" "gs_device sess = None" "gs_out sess = map Inr outs" by (auto simp: demo_state_def)
  let ?w = "gw_world (fo_gateway f)"
  obtain s2 w2 where t: "grpc_turn demo_service shipped_keepalive (ClientMessage 0 (Some req)) (sess, ?w) = (s2, w2)"
    by fastforce
  from assms(1) have b: "pw_pubsub ?w = b" by (simp add: demo_state_def)
  have "gs_tenant s2 = ''legacy'' \<and> gs_client s2 = ''bob'' \<and> gs_sub s2 = 1 \<and> gs_running s2 \<and> gs_open s2 \<and>
      gs_device s2 = None \<and> gs_out s2 = map Inr (outs @ [ack]) \<and> pw_pubsub w2 = b'"
    using assms(4)
  proof
    assume "req = TopicSubscriptionReq ''news'' \<and> redis_add_subscription recording_client news 1 b = (b', Inr ()) \<and>
        ack = TopicSubscriptionAckResp ''news'' ok_status"
    with t s o b show ?thesis
      by (auto simp: grpc_turn_def handle_client_request_def topic_subscribe_def on_pubsub_def resp_send_def
          demo_service_def redis_pubsub_ops_def news_def io_defs)
  next
    assume "req = TopicUnsubscriptionReq ''news'' \<and> redis_remove_subscription recording_client news 1 b = (b', Inr ()) \<and>
        ack = TopicUnsubscriptionAckResp ''news'' ok_status"
    with t s o b show ?thesis
      by (auto simp: grpc_turn_def handle_client_request_def topic_unsubscribe_def on_pubsub_def resp_send_def
          demo_service_def redis_pubsub_ops_def news_def io_defs)
  qed
  note same = this
  let ?g = "(fo_gateway f)\<lparr>gw_world := w2, gw_sessions := (gw_sessions (fo_gateway f))(1 := Some (GrpcLive s2))\<rparr>"
  have "gateway_step demo_handler demo_ws_state (fo_gateway f) ?g"
    by (rule grpc_turned [OF s(1), where inp = "ClientMessage 0 (Some req)" and ?w1.0 = ?w])
      (use t same in \<open>simp_all add: grpc_after_def demo_handler_def\<close>)
  with assms(1,2) same have "fanout_step (\<lambda>r. r) demo_handler demo_ws_state f (carry (\<lambda>r. r) f ?g)"
    by (intro handled) (simp_all add: demo_state_def no_delivery_def)
  with assms(1,3) same have "demo_state (carry (\<lambda>r. r) f ?g) b' (outs @ [ack])"
    by (auto simp: demo_state_def carry_def intro: fanout_reachable.step)
  then show thesis by (rule that)
qed

definition demo_twice :: "(string \<times> bytes) list redis_pubsub" where
  "demo_twice = fst (redis_add_subscription recording_client news 1 (fst (redis_remove_subscription recording_client news 1
     (fst (redis_add_subscription recording_client news 1 demo_broker)))))"

lemmas demo_broker_eval = demo_twice_def demo_broker_def redis_add_subscription_def redis_remove_subscription_def
  redis_subscribe_def io_defs open_pubsub_def on_redis_def recording_client_def register_def spawn_main_def
  spawn_topic_def remove_topic_def send_shutdown_def redis_pubsub_new_def

lemma demo_twice_eq:
  "rp_tasks demo_twice =
     [\<lparr>ls_sub = 1, ls_channels = [client_channel ''legacy'' ''bob''], ls_is_topic = False, ls_shutdown = False, ls_alive = True\<rparr>,
      \<lparr>ls_sub = 1, ls_channels = [news], ls_is_topic = True, ls_shutdown = True, ls_alive = True\<rparr>,
      \<lparr>ls_sub = 1, ls_channels = [news], ls_is_topic = True, ls_shutdown = False, ls_alive = True\<rparr>]"
  "rp_mailboxes demo_twice = [1 \<mapsto> []]" "rp_redis demo_twice = []"
  by (simp_all add: demo_broker_eval)

definition rejoined :: "channel_response list" where
  "rejoined = [ConnectAckResp ok_status, TopicSubscriptionAckResp ''news'' ok_status,
     TopicUnsubscriptionAckResp ''news'' ok_status, TopicSubscriptionAckResp ''news'' ok_status]"

lemma demo_twice_state:
  obtains f where "demo_state f demo_twice rejoined"
proof -
  let ?b1 = "fst (redis_add_subscription recording_client news 1 demo_broker)"
  let ?b2 = "fst (redis_remove_subscription recording_client news 1 ?b1)"
  obtain f0 where f0: "demo_state f0 demo_broker [ConnectAckResp ok_status]" by (rule demo_open_state)
  obtain f1 where f1: "demo_state f1 ?b1 ([ConnectAckResp ok_status] @ [TopicSubscriptionAckResp ''news'' ok_status])"
    by (rule demo_request [OF f0, of ?b1 "TopicSubscriptionReq ''news''" "TopicSubscriptionAckResp ''news'' ok_status"])
      (simp_all add: demo_broker_eval)
  obtain f2 where f2: "demo_state f2 ?b2 (([ConnectAckResp ok_status] @ [TopicSubscriptionAckResp ''news'' ok_status]) @
      [TopicUnsubscriptionAckResp ''news'' ok_status])"
    by (rule demo_request [OF f1, of ?b2 "TopicUnsubscriptionReq ''news''" "TopicUnsubscriptionAckResp ''news'' ok_status"])
      (simp_all add: demo_broker_eval)
  obtain f3 where "demo_state f3 demo_twice ((([ConnectAckResp ok_status] @ [TopicSubscriptionAckResp ''news'' ok_status]) @
      [TopicUnsubscriptionAckResp ''news'' ok_status]) @ [TopicSubscriptionAckResp ''news'' ok_status])"
    by (rule demo_request [OF f2, of demo_twice "TopicSubscriptionReq ''news''" "TopicSubscriptionAckResp ''news'' ok_status"])
      (simp_all add: demo_broker_eval)
  then show thesis by (intro that [of f3]) (simp add: rejoined_def)
qed

text \<open>
  C33: A topic that a client leaves and asks for again can come to it twice. In the run shown the
  session was told that it joined the topic, left it and joined it again; the listener of the first
  subscription is told to stop, but as long as it has not looked at that message it passes on what
  its connection is sent, and so does the listener of the second one. One message was published and
  the session's receiver holds it two times.
\<close>

theorem resubscribed_topic_arrives_twice:
  "\<exists>(f :: demo_fanout) sess. fanout_reachable (\<lambda>r. r) demo_handler demo_ws_state f \<and>
     gw_sessions (fo_gateway f) 1 = Some (GrpcLive sess) \<and> gs_tenant sess = ''legacy'' \<and> gs_open sess \<and>
     gs_out sess = map Inr
       [ConnectAckResp ok_status, TopicSubscriptionAckResp ''news'' ok_status,
        TopicUnsubscriptionAckResp ''news'' ok_status, TopicSubscriptionAckResp ''news'' ok_status] \<and>
     map (\<lambda>t. (ls_channels t, ls_shutdown t)) (rp_tasks (fo_broker f)) =
       [([client_channel ''legacy'' ''bob''], False), ([topic_channel ''legacy'' ''news''], True),
        ([topic_channel ''legacy'' ''news''], False)] \<and>
     rp_redis (fo_broker f) = [(topic_channel ''legacy'' ''news'', [7])] \<and>
     rp_mailboxes (fo_broker f) 1 = Some
       [as_event (topic_channel ''legacy'' ''news'', [7]), as_event (topic_channel ''legacy'' ''news'', [7])]"
proof -
  let ?log = "\<lambda>r :: (string \<times> bytes) list. r"
  obtain f where f: "demo_state f demo_twice rejoined" by (rule demo_twice_state)
  then obtain sess where s: "gw_sessions (fo_gateway f) 1 = Some (GrpcLive sess)"
    and out: "gs_tenant sess = ''legacy''" "gs_open sess" "gs_out sess = map Inr rejoined" by (auto simp: demo_state_def)
  define f1 where "f1 = carry ?log f (set_broker ((fo_broker f)\<lparr>rp_redis := [(news, [7])]\<rparr>) (fo_gateway f))"
  define f2 where "f2 = relay ?log 1 f1"
  define f3 where "f3 = relay ?log 2 f2"
  from f have b: "fo_broker f = demo_twice" and z: "fo_joined f = (\<lambda>_. 0)" "fo_read f = (\<lambda>_. 0)"
    and r: "fanout_reachable ?log demo_handler demo_ws_state f" by (simp_all add: demo_state_def)
  have step1: "fanout_step ?log demo_handler demo_ws_state f f1"
    unfolding f1_def by (rule elsewhere) (simp add: b demo_twice_eq)
  have b1: "fo_broker f1 = demo_twice\<lparr>rp_redis := [(news, [7])]\<rparr>" by (simp add: f1_def b)
  have z1: "fo_joined f1 n = 0" "fo_read f1 n = 0" if "n < 3" for n
    using that by (simp_all add: f1_def carry_def b z demo_twice_eq)
  have sent1: "sent_to ?log f1 1 = [(news, [7])]" "sent_to ?log f1 2 = [(news, [7])]"
    by (simp_all add: sent_to_def sent_on_def b1 z1 demo_twice_eq)
  have "can_relay ?log 1 f1" using sent1(1) by (simp add: can_relay_def z1 b1 demo_twice_eq)
  then have step2: "fanout_step ?log demo_handler demo_ws_state f1 f2" unfolding f2_def by (rule relayed)
  have b2: "fo_broker f2 = listener_message 1 news [7] (fo_broker f1)"
    unfolding f2_def relay_broker sent1(1) by (simp add: z1)
  then have t2: "rp_tasks (fo_broker f2) = rp_tasks demo_twice" "rp_redis (fo_broker f2) = [(news, [7])]"
    and q2: "rp_mailboxes (fo_broker f2) = [1 \<mapsto> [as_event (news, [7])]]"
    by (simp_all add: listener_message_def b1 demo_twice_eq as_event_def)
  have z2: "fo_joined f2 2 = 0" "fo_read f2 2 = 0" by (simp_all add: f2_def z1)
  have sent2: "sent_to ?log f2 2 = [(news, [7])]" by (simp add: sent_to_def sent_on_def t2 z2 demo_twice_eq)
  then have "can_relay ?log 2 f2" by (simp add: can_relay_def z2 t2 demo_twice_eq)
  then have step3: "fanout_step ?log demo_handler demo_ws_state f2 f3" unfolding f3_def by (rule relayed)
  have "fo_broker f3 = listener_message 2 news [7] (fo_broker f2)"
    unfolding f3_def relay_broker sent2 by (simp add: z2)
  then have "rp_mailboxes (fo_broker f3) 1 = Some [as_event (news, [7]), as_event (news, [7])]"
    and "rp_redis (fo_broker f3) = [(news, [7])]"
    and "map (\<lambda>t. (ls_channels t, ls_shutdown t)) (rp_tasks (fo_broker f3)) =
       [([client_channel ''legacy'' ''bob''], False), ([news], True), ([news], False)]"
    by (simp_all add: listener_message_def t2 q2 demo_twice_eq as_event_def)
  moreover from r step1 step2 step3 have "fanout_reachable ?log demo_handler demo_ws_state f3"
    by (blast intro: fanout_reachable.step)
  moreover from s have "gw_sessions (fo_gateway f3) 1 = Some (GrpcLive sess)" by (simp add: f3_def f2_def f1_def)
  ultimately show ?thesis using out unfolding rejoined_def news_def
    by (intro exI [of _ f3] exI [of _ sess] conjI)
qed

theorem messages_arrive_once_in_order_witness:
  "\<exists>(f :: demo_fanout) s f2 n q. gw_sessions (fo_gateway f) 1 = Some s \<and>
     live_channels (device_support demo_handler demo_ws_state) s = [client_channel ''legacy'' ''bob''] \<and>
     (relays (\<lambda>r. r) n)\<^sup>*\<^sup>* f f2 \<and> rp_mailboxes (fo_broker f2) 1 = Some q \<and>
     on_channels [client_channel ''legacy'' ''bob''] (live_events s @ q) = [as_event (client_channel ''legacy'' ''bob'', [7])]"
proof -
  let ?ch = "client_channel ''legacy'' ''bob''"
  let ?log = "\<lambda>r :: (string \<times> bytes) list. r"
  obtain f0 where f0: "demo_state f0 demo_broker [ConnectAckResp ok_status]" by (rule demo_open_state)
  then obtain sess where s0: "gw_sessions (fo_gateway f0) 1 = Some (GrpcLive sess)"
    and sess: "gs_tenant sess = ''legacy''" "gs_client sess = ''bob''" "gs_device sess = None" "gs_sub sess = 1"
    and b0: "fo_broker f0 = demo_broker" and z0: "fo_joined f0 = (\<lambda>_. 0)"
    and r0: "fanout_reachable ?log demo_handler demo_ws_state f0" by (auto simp: demo_state_def)
  define f where "f = carry ?log f0 (set_broker ((fo_broker f0)\<lparr>rp_redis := [(?ch, [7])]\<rparr>) (fo_gateway f0))"
  have one: "rp_tasks demo_broker = [\<lparr>ls_sub = 1, ls_channels = [?ch], ls_is_topic = False, ls_shutdown = False, ls_alive = True\<rparr>]"
    "rp_redis demo_broker = []" by (simp_all add: demo_broker_eval)
  have "fanout_step ?log demo_handler demo_ws_state f0 f"
    unfolding f_def by (rule elsewhere) (simp add: b0 one)
  with r0 have r: "fanout_reachable ?log demo_handler demo_ws_state f" by (rule fanout_reachable.step)
  have s: "gw_sessions (fo_gateway f) 1 = Some (GrpcLive sess)" using s0 by (simp add: f_def)
  have b: "fo_broker f = demo_broker\<lparr>rp_redis := [(?ch, [7])]\<rparr>" by (simp add: f_def b0)
  have chs: "live_channels (device_support demo_handler demo_ws_state) (GrpcLive sess) = [?ch]"
    by (simp add: live_channels_def own_channels_def sess)
  from messages_arrive_once_in_order [OF demo_wired recording_client_log r s] obtain n where
    main: "main_listener (device_support demo_handler demo_ws_state) (fo_broker f) (GrpcLive sess) n"
    and arrive: "ls_alive (rp_tasks (fo_broker f) ! n) \<longrightarrow> (\<exists>f2 q2. (relays ?log n)\<^sup>*\<^sup>* f f2 \<and>
       gw_sessions (fo_gateway f2) 1 = Some (GrpcLive sess) \<and> rp_mailboxes (fo_broker f2) 1 = Some q2 \<and>
       on_channels (live_channels (device_support demo_handler demo_ws_state) (GrpcLive sess)) (live_events (GrpcLive sess) @ q2) =
         map as_event (sent_to ?log f n))" by blast
  from main have n: "n = 0" by (simp add: main_listener_def b one)
  have "fo_joined f 0 = 0" by (simp add: f_def carry_def b0 one z0)
  with n have "sent_to ?log f n = [(?ch, [7])]" "ls_alive (rp_tasks (fo_broker f) ! n)"
    by (simp_all add: sent_to_def sent_on_def b one)
  with arrive obtain f2 q where "(relays ?log n)\<^sup>*\<^sup>* f f2" "rp_mailboxes (fo_broker f2) 1 = Some q"
    "on_channels [?ch] (live_events (GrpcLive sess) @ q) = [as_event (?ch, [7])]" unfolding chs by auto
  with s chs show ?thesis by blast
qed

theorem published_event_reaches_client_witness:
  "\<exists>(f1 :: demo_fanout) n s. main_listener (device_support demo_handler demo_ws_state) (fo_broker f1) s n \<and> live_client s = ''bob'' \<and>
     rp_redis (fo_broker f1) = [(client_channel ''legacy'' ''bob'', [7])]"
proof -
  obtain f where f: "demo_state f demo_broker [ConnectAckResp ok_status]" by (rule demo_open_state)
  then obtain sess where s: "gw_sessions (fo_gateway f) 1 = Some (GrpcLive sess)"
    and i: "live_tenant (GrpcLive sess) = ac_tenant_id bob" "live_client (GrpcLive sess) = ''bob''"
    and r: "fanout_reachable (\<lambda>r. r) demo_handler demo_ws_state f" and b: "fo_broker f = demo_broker"
    by (auto simp: demo_state_def bob_def)
  let ?call = "SendEventToClientChannel ''bob'' (Some \<lparr>pe_name = [], pe_data = [7]\<rparr>)"
  obtain w' st where sent: "send_event demo_handler None demo_metadata ?call (gw_world (fo_gateway f)) = (w', Inr st)"
    by (simp add: send_event_def demo_authorize io_defs)
      (simp add: demo_handler_def demo_service_def bob_def publish_call_def publish_to_client_def
        extract_event_def publish_counted_def on_pubsub_def on_metrics_def redis_pubsub_ops_def redis_publish_def
        on_redis_def recording_client_def io_defs)
  have "svc_pubsub (gh_push_service demo_handler) = redis_pubsub_ops recording_client"
    using demo_wired by (simp add: wired_def)
  from send_event_to_client(1) [OF this recording_client_log demo_authorize sent]
  have "rp_redis (pw_pubsub w') = [(client_channel ''legacy'' ''bob'', [7])]"
    by (simp add: b extract_event_def bob_def) (simp add: demo_broker_eval)
  with published_event_reaches_client [OF demo_wired recording_client_log r demo_authorize sent s i] i(2)
  show ?thesis by blast
qed

end
