(* ===== verification/Auth_Tests.thy ===== *)
theory Auth_Tests
  imports Auth "HOL-Library.Sublist"
begin

text \<open>
  The unit tests of \<open>approach-2/src/auth/mod.rs\<close>, each as a function that tells whether its
  assertions hold. They are proved of every base64 codec and JSON codec that return what was
  written, and of every time of day before the tokens' expiry, where the tests run one of each.
\<close>

definition channel_namespaces_are_canonical :: bool where
  "channel_namespaces_are_canonical \<longleftrightarrow>
     client_channel ''t1'' ''u1'' = ''tenant:t1:client:u1'' \<and>
     device_channel ''t1'' ''u1'' ''d1'' = ''tenant:t1:client:u1:device:d1'' \<and>
     topic_channel ''t1'' ''payment'' = ''tenant:t1:topic:payment''"

definition test_client_config :: client_config where
  "test_client_config = \<lparr>cc_header = ''x-client-id'', cc_device_header = ''x-device-id'',
     cc_enable_device_support = True, cc_device_attribute_headers = [''x-os'']\<rparr>"

text \<open>The payload of the tests, with the audience that they differ in.\<close>

definition test_object :: "string \<Rightarrow> (string \<times> json) list" where
  "test_object aud = [(''iss'', JString ''issuer''), (''aud'', JString aud),
     (''exp'', JNumber ''4102444800'' (Some 4102444800)), (''sub'', JString ''user_1''),
     (''tenant_id'', JString ''tenant_1'')]"

text \<open>
  \<open>header\<close> and \<open>payload\<close> are the bytes that \<open>serde_json\<close> writes for the two objects.
\<close>

definition test_login ::
    "auth_lib \<Rightarrow> (bytes \<Rightarrow> string) \<Rightarrow> u64 option \<Rightarrow> bytes \<Rightarrow> bytes \<Rightarrow> propeller_error + auth_context \<times> bool" where
  "test_login lib enc clock header payload =
     (let token = build_jwt lib enc ''secret'' header payload;
          hdrs = [''authorization'' \<mapsto> ''Bearer '' @ token]
      in authenticate_http lib test_auth_config clock hdrs test_client_config)"

definition jwt_auth_success :: "auth_lib \<Rightarrow> (bytes \<Rightarrow> string) \<Rightarrow> u64 option \<Rightarrow> bytes \<Rightarrow> bytes \<Rightarrow> bool" where
  "jwt_auth_success lib enc clock header payload =
     (case test_login lib enc clock header payload of
        Inl _ \<Rightarrow> False
      | Inr (ctx, legacy) \<Rightarrow> \<not> legacy \<and> ac_client_id ctx = ''user_1'' \<and> ac_tenant_id ctx = ''tenant_1'')"

definition jwt_auth_rejects_bad_audience ::
    "auth_lib \<Rightarrow> (bytes \<Rightarrow> string) \<Rightarrow> u64 option \<Rightarrow> bytes \<Rightarrow> bytes \<Rightarrow> bool" where
  "jwt_auth_rejects_bad_audience lib enc clock header payload =
     (case test_login lib enc clock header payload of
        Inl err \<Rightarrow> sublist ''audience'' (error_text err)
      | Inr _ \<Rightarrow> False)"

section \<open>They pass\<close>

lemma channel_names_test: "channel_namespaces_are_canonical"
  by (simp add: channel_namespaces_are_canonical_def channel_names_example)

definition object_claims :: "string \<Rightarrow> jwt_claims" where
  "object_claims aud = test_claims\<lparr>jc_aud := Some (JString aud)\<rparr>"

lemma test_object_claims: "claims_of_object (test_object aud) = Some (object_claims aud)"
  by (simp add: test_object_def claims_of_object_def claim_field_def extra_claims_def known_claims_def
      test_claims_def object_claims_def)

lemma test_login_decodes:
  assumes "\<And>b. al_b64_decode lib (enc b) = Some b" and "\<And>b. (CHR ''.'') \<notin> set (enc b)"
    and "al_json_object lib payload = Some (test_object aud)"
  shows "test_login lib enc clock header payload =
     (case validate_claims (auth_jwt test_auth_config) clock (object_claims aud) of
        Inl e \<Rightarrow> Inl e
      | Inr _ \<Rightarrow> Inr (test_context, False))"
proof -
  let ?token = "build_jwt lib enc ''secret'' header payload"
  have "?token \<noteq> []" by (simp add: build_jwt_def Let_def)
  from extract_bearer_Bearer [OF this]
  have b: "extract_http_bearer [''authorization'' \<mapsto> ''Bearer '' @ ?token] = Some ?token"
    by (simp add: extract_http_bearer_def)
  obtain sig where s: "signed_token lib ''secret'' ?token (enc header) (enc payload) sig"
    using signed_build_jwt [OF assms(1,2)] by blast
  have p: "payload_claims lib (enc payload) = Some (object_claims aud)"
    using assms(1,3) by (simp add: payload_claims_def test_object_claims)
  show ?thesis
    using decode_and_validate_signed [OF _ s, of test_auth_config "object_claims aud" clock] p b
    by (auto simp: test_login_def Let_def authenticate_http_def decode_jwt_def test_auth_config_def object_claims_def
        test_claims_def test_context_def parse_scopes_def split: sum.splits)
qed

lemma jwt_tests_pass:
  assumes "\<And>b. al_b64_decode lib (enc b) = Some b" and "\<And>b. (CHR ''.'') \<notin> set (enc b)" and "now \<le> 4102444800"
  shows "al_json_object lib payload = Some (test_object ''audience'') \<Longrightarrow>
      jwt_auth_success lib enc (Some now) header payload"
    and "al_json_object lib payload = Some (test_object ''wrong'') \<Longrightarrow>
      jwt_auth_rejects_bad_audience lib enc (Some now) header payload"
proof -
  assume "al_json_object lib payload = Some (test_object ''audience'')"
  from test_login_decodes [OF assms(1,2) this] assms(3) show "jwt_auth_success lib enc (Some now) header payload"
    by (simp add: jwt_auth_success_def validate_claims_def test_auth_config_def object_claims_def test_claims_def
        test_context_def not_less)
next
  assume "al_json_object lib payload = Some (test_object ''wrong'')"
  from test_login_decodes [OF assms(1,2) this]
  have "test_login lib enc (Some now) header payload = Inl (Unauthenticated ''invalid jwt audience'')"
    by (simp add: validate_claims_def test_auth_config_def object_claims_def test_claims_def)
  moreover have "sublist ''audience'' (''unauthenticated: invalid jwt '' @ ''audience'' @ [])"
    by (rule sublist_appendI)
  ultimately show "jwt_auth_rejects_bad_audience lib enc (Some now) header payload"
    by (simp add: jwt_auth_rejects_bad_audience_def)
qed

end
