(* ===== verification/Backpressure.thy ===== *)
theory Backpressure
  imports Answers
begin

text \<open>
  The response queue of a gRPC channel (\<open>mpsc::channel(128)\<close> in
  \<open>approach-2/src/server/grpc_handler.rs\<close>). The loop awaits each send, so with a full queue it stands
  still until the transport takes a response or drops the receiver. Theory \<open>Grpc\<close> leaves the
  bound out: here the loop has it, and is shown to be that loop on the inputs that it gets to
  see, and which inputs those are not.
\<close>

section \<open>The loop with its queue\<close>

definition response_queue_capacity :: nat where
  "response_queue_capacity = 128"

text \<open>
  \<open>gs_out\<close> lists the responses from the first; \<open>bf_taken\<close> of them were taken by the transport. The
  last one waits outside of the queue while there are more than the capacity.
\<close>

record ('b, 'k) buffered =
  bf_session :: grpc_session
  bf_world :: "('b, 'k) push_world"
  bf_taken :: nat
  bf_done :: bool

definition outstanding :: "('b, 'k) buffered \<Rightarrow> nat" where
  "outstanding bf = length (gs_out (bf_session bf)) - bf_taken bf"

definition blocked :: "('b, 'k) buffered \<Rightarrow> bool" where
  "blocked bf \<longleftrightarrow> response_queue_capacity < outstanding bf"

definition buffered_start :: "grpc_session \<Rightarrow> ('b, 'k) push_world \<Rightarrow> ('b, 'k) buffered" where
  "buffered_start sess w = \<lparr>bf_session = sess, bf_world = w, bf_taken = 0, bf_done = False\<rparr>"

fun is_event :: "status + channel_response \<Rightarrow> bool" where
  "is_event (Inr (ChannelEventResp topic data)) = True"
| "is_event _ = False"

text \<open>The receiver is dropped: a send that waits fails, which ends the loop if it was an event's.\<close>

definition receiver_dropped :: "('b, 'k) buffered \<Rightarrow> ('b, 'k) buffered" where
  "receiver_dropped bf =
     (let sess = bf_session bf;
          sess' = (if blocked bf
            then sess\<lparr>gs_out := butlast (gs_out sess),
                      gs_running := gs_running sess \<and> \<not> is_event (last (gs_out sess)), gs_open := False\<rparr>
            else sess\<lparr>gs_open := False\<rparr>)
      in bf\<lparr>bf_session := sess', bf_taken := length (gs_out sess')\<rparr>)"

datatype buffered_action = TransportReads | TransportGone | LoopTurn grpc_input | LoopEnds

text \<open>\<open>None\<close>: the action cannot happen in this state.\<close>

definition buffered_step ::
    "('b, 'k) push_service \<Rightarrow> keepalive_config \<Rightarrow> buffered_action \<Rightarrow> ('b, 'k) buffered \<Rightarrow> ('b, 'k) buffered option" where
  "buffered_step S keepalive act bf =
     (let sess = bf_session bf in case act of
        TransportReads \<Rightarrow>
          if gs_open sess \<and> bf_taken bf < length (gs_out sess) then Some (bf\<lparr>bf_taken := Suc (bf_taken bf)\<rparr>) else None
      | TransportGone \<Rightarrow> if gs_open sess then Some (receiver_dropped bf) else None
      | LoopTurn inp \<Rightarrow>
          if gs_running sess \<and> \<not> blocked bf \<and> inp \<noteq> ReceiverGone
          then (let sw = grpc_turn S keepalive inp (sess, bf_world bf)
                in Some (bf\<lparr>bf_session := fst sw, bf_world := snd sw\<rparr>))
          else None
      | LoopEnds \<Rightarrow>
          if \<not> gs_running sess \<and> \<not> blocked bf \<and> \<not> bf_done bf
          then (let sw = grpc_finish S (sess, bf_world bf)
                in Some (bf\<lparr>bf_session := fst sw, bf_world := snd sw, bf_done := True\<rparr>))
          else None)"

fun buffered_run ::
    "('b, 'k) push_service \<Rightarrow> keepalive_config \<Rightarrow> buffered_action list \<Rightarrow> ('b, 'k) buffered \<Rightarrow> ('b, 'k) buffered option" where
  "buffered_run S keepalive [] bf = Some bf"
| "buffered_run S keepalive (act # acts) bf =
     Option.bind (buffered_step S keepalive act bf) (buffered_run S keepalive acts)"

fun loop_inputs :: "buffered_action list \<Rightarrow> grpc_input list" where
  "loop_inputs [] = []"
| "loop_inputs (LoopTurn inp # acts) = inp # loop_inputs acts"
| "loop_inputs (_ # acts) = loop_inputs acts"

section \<open>The queue stays bounded\<close>

lemma request_sends_one:
  "length (gs_out (fst (handle_client_request S req sess w))) \<le> Suc (length (gs_out sess)) \<and>
   length (gs_out sess) \<le> length (gs_out (fst (handle_client_request S req sess w)))"
  by (auto simp: handle_client_request_def resp_send_def
      split: option.splits channel_request.splits prod.splits sum.splits)

lemma turn_sends_one:
  "length (gs_out (fst (grpc_turn S keepalive inp (sess, w)))) \<le> Suc (length (gs_out sess)) \<and>
   length (gs_out sess) \<le> length (gs_out (fst (grpc_turn S keepalive inp (sess, w))))"
proof (cases inp)
  case (ClientMessage now req)
  with request_sends_one [of S req "sess\<lparr>gs_last_inbound := now\<rparr>" w] show ?thesis by (simp add: grpc_turn_def)
qed (auto simp: grpc_turn_def resp_send_def)

definition queue_ok :: "('b, 'k) buffered \<Rightarrow> bool" where
  "queue_ok bf \<longleftrightarrow> bf_taken bf \<le> length (gs_out (bf_session bf)) \<and> outstanding bf \<le> Suc response_queue_capacity"

lemma queue_ok_step:
  assumes "queue_ok bf" and "buffered_step S keepalive act bf = Some bf'"
  shows "queue_ok bf'"
proof (cases act)
  case (LoopTurn inp)
  with assms turn_sends_one [of S keepalive inp "bf_session bf" "bf_world bf"] show ?thesis
    by (auto simp: buffered_step_def Let_def queue_ok_def outstanding_def blocked_def split: if_splits)
qed (use assms in \<open>auto simp: buffered_step_def receiver_dropped_def Let_def queue_ok_def outstanding_def
      grpc_finish_session split: if_splits\<close>)

text \<open>
  C23: At no time more than 129 responses of a channel are held for its client: those in the
  queue and the one whose send waits.
\<close>

theorem response_queue_is_bounded:
  assumes "length (gs_out sess) \<le> 1" and "buffered_run S keepalive acts (buffered_start sess w) = Some bf"
  shows "outstanding bf \<le> 129"
proof -
  have "queue_ok bf'" if "queue_ok bf" "buffered_run S keepalive acts bf = Some bf'" for bf bf' :: "('a, 'b) buffered"
    using that
    by (induction acts arbitrary: bf) (auto simp: bind_eq_Some_conv intro: queue_ok_step)
  from this [OF _ assms(2)] assms(1) show ?thesis
    by (simp add: queue_ok_def outstanding_def buffered_start_def response_queue_capacity_def)
qed

section \<open>It is the loop\<close>

text \<open>Where a run stands: it runs, it has left the loop, or it has also cleaned up.\<close>

definition loop_result :: "('b, 'k) push_service \<Rightarrow> ('b, 'k) buffered \<Rightarrow> grpc_session \<times> ('b, 'k) push_world" where
  "loop_result S bf = (if gs_running (bf_session bf) \<or> bf_done bf then (bf_session bf, bf_world bf)
     else grpc_finish S (bf_session bf, bf_world bf))"

lemma left_loop_takes_nothing:
  assumes "\<not> gs_running (bf_session bf)" and "TransportGone \<notin> set acts"
    and "buffered_run S keepalive acts bf = Some bf'"
  shows "loop_inputs acts = [] \<and> loop_result S bf' = loop_result S bf \<and> \<not> gs_running (bf_session bf')"
  using assms
proof (induction acts arbitrary: bf)
  case (Cons act acts)
  from Cons.prems(3) obtain b where b: "buffered_step S keepalive act bf = Some b" "buffered_run S keepalive acts b = Some bf'"
    by (auto simp: bind_eq_Some_conv)
  have "\<not> gs_running (bf_session b) \<and> loop_result S b = loop_result S bf \<and> (\<forall>inp. act \<noteq> LoopTurn inp)"
    using b(1) Cons.prems(1,2)
    by (cases act) (auto simp: buffered_step_def Let_def loop_result_def prod_eq_iff grpc_finish_session split: if_splits)
  with Cons.IH [OF _ _ b(2)] Cons.prems(2) show ?case by (cases act) auto
qed simp

text \<open>
  While the transport is there, the loop with its bounded queue does what the loop of theory
  \<open>Grpc\<close> does on the inputs that it has taken so far, whenever and however slowly responses are
  read: the bound decides which inputs it takes and when, and nothing else.
\<close>

lemma buffered_channel_refines_loop:
  assumes "gs_running sess" and "TransportGone \<notin> set acts"
    and "buffered_run S keepalive acts (buffered_start sess w) = Some bf"
  shows "loop_result S bf = grpc_loop S keepalive (loop_inputs acts) (sess, w)"
proof -
  have "loop_result S bf' = grpc_loop S keepalive (loop_inputs acts) (bf_session bf, bf_world bf)"
    if "gs_running (bf_session bf)" "\<not> bf_done bf" "TransportGone \<notin> set acts" "buffered_run S keepalive acts bf = Some bf'"
    for bf bf' :: "('a, 'b) buffered"
    using that
  proof (induction acts arbitrary: bf)
    case Nil
    then show ?case by (simp add: loop_result_def)
  next
    case (Cons act acts)
    from Cons.prems(4) obtain b where b: "buffered_step S keepalive act bf = Some b"
      "buffered_run S keepalive acts b = Some bf'" by (auto simp: bind_eq_Some_conv)
    show ?case
    proof (cases act)
      case (LoopTurn inp)
      obtain s1 w1 where t: "grpc_turn S keepalive inp (bf_session bf, bf_world bf) = (s1, w1)" by fastforce
      with b(1) LoopTurn have b': "b = bf\<lparr>bf_session := s1, bf_world := w1\<rparr>"
        by (simp add: buffered_step_def Let_def split: if_splits)
      show ?thesis
      proof (cases "gs_running s1")
        case True
        with Cons.IH [OF _ _ _ b(2)] Cons.prems(2,3) b' LoopTurn t show ?thesis by simp
      next
        case False
        with left_loop_takes_nothing [OF _ _ b(2)] Cons.prems(2,3) b'
        have "loop_inputs acts = []" "loop_result S bf' = loop_result S b" by simp_all
        with False b' LoopTurn t Cons.prems(2) show ?thesis
          by (simp add: loop_result_def)
      qed
    next
      case TransportReads
      with b(1) have "b = bf\<lparr>bf_taken := Suc (bf_taken bf)\<rparr>" by (simp add: buffered_step_def Let_def split: if_splits)
      with Cons.IH [OF _ _ _ b(2)] Cons.prems(1-3) TransportReads show ?thesis by simp
    next
      case TransportGone
      with Cons.prems(3) show ?thesis by simp
    next
      case LoopEnds
      with b(1) Cons.prems(1) show ?thesis by (simp add: buffered_step_def)
    qed
  qed
  from this [OF _ _ assms(2,3)] assms(1) show ?thesis by (simp add: buffered_start_def)
qed

section \<open>A client that does not read\<close>

definition event_response :: "topic_event \<Rightarrow> status + channel_response" where
  "event_response e = Inr (ChannelEventResp (te_topic e) (te_event e))"

lemma unread_events:
  assumes "gs_running (bf_session bf)" and "gs_open (bf_session bf)" and "bf_taken bf = 0"
    and "length (gs_out (bf_session bf)) + length es \<le> Suc response_queue_capacity"
  shows "\<exists>bf'. buffered_run S keepalive (map (LoopTurn \<circ> SubEvent) es) bf = Some bf' \<and>
     gs_running (bf_session bf') \<and> bf_taken bf' = 0 \<and>
     gs_out (bf_session bf') = gs_out (bf_session bf) @ map event_response es"
  using assms
proof (induction es arbitrary: bf)
  case (Cons e es)
  let ?s = "(bf_session bf)\<lparr>gs_out := gs_out (bf_session bf) @ [event_response e]\<rparr>"
  let ?b = "bf\<lparr>bf_session := ?s, bf_world := (bf_world bf)\<lparr>pw_metrics := count_delivered (pw_metrics (bf_world bf))\<rparr>\<rparr>"
  have "buffered_step S keepalive (LoopTurn (SubEvent e)) bf = Some ?b"
    using Cons.prems by (simp add: buffered_step_def Let_def grpc_turn_def resp_send_def event_response_def blocked_def
        outstanding_def)
  moreover have "\<exists>bf'. buffered_run S keepalive (map (LoopTurn \<circ> SubEvent) es) ?b = Some bf' \<and>
     gs_running (bf_session bf') \<and> bf_taken bf' = 0 \<and>
     gs_out (bf_session bf') = gs_out (bf_session ?b) @ map event_response es"
    by (rule Cons.IH) (use Cons.prems in simp_all)
  ultimately show ?case by (simp add: comp_def)
qed simp

text \<open>
  C24: A client that stops reading keeps its channel. Once it has left the acknowledgement and 128
  events unread, the loop waits in a send: it takes no tick, so \<open>grpc_stream_idle_timeout_secs\<close> is not
  enforced, no request and no event, and it does not clean up, for as long as the transport
  neither takes a response nor drops the receiver.
\<close>

theorem unread_events_suspend_keepalive:
  assumes "gs_running sess" and "gs_open sess" and "length (gs_out sess) = 1" and "length es = 128"
  shows "\<exists>bf. buffered_run S keepalive (map (LoopTurn \<circ> SubEvent) es) (buffered_start sess w) = Some bf \<and>
     gs_running (bf_session bf) \<and> gs_out (bf_session bf) = gs_out sess @ map event_response es \<and>
     (\<forall>acts bf'. buffered_run S keepalive acts bf = Some bf' \<and> TransportReads \<notin> set acts \<and> TransportGone \<notin> set acts \<longrightarrow>
        acts = [] \<and> bf' = bf)"
proof -
  have "gs_running (bf_session (buffered_start sess w))" "gs_open (bf_session (buffered_start sess w))"
    "bf_taken (buffered_start sess w) = 0"
    "length (gs_out (bf_session (buffered_start sess w))) + length es \<le> Suc response_queue_capacity"
    using assms by (simp_all add: buffered_start_def response_queue_capacity_def)
  from unread_events [OF this, of S keepalive] obtain bf where
    run: "buffered_run S keepalive (map (LoopTurn \<circ> SubEvent) es) (buffered_start sess w) = Some bf"
    and r: "gs_running (bf_session bf)" and t: "bf_taken bf = 0"
    and out: "gs_out (bf_session bf) = gs_out sess @ map event_response es"
    by (auto simp: buffered_start_def)
  have b: "blocked bf" using t out assms(3,4) by (simp add: blocked_def outstanding_def response_queue_capacity_def)
  have "acts = [] \<and> bf' = bf" if "buffered_run S keepalive acts bf = Some bf'" "TransportReads \<notin> set acts"
    "TransportGone \<notin> set acts" for acts bf'
  proof (cases acts)
    case (Cons act acts')
    with that b have False by (cases act) (auto simp: buffered_step_def Let_def)
    then show ?thesis ..
  qed (use that in simp)
  with run r out show ?thesis by blast
qed

text \<open>It goes on as soon as one response is taken.\<close>

lemma one_read_unblocks:
  assumes "queue_ok bf" and "buffered_step S keepalive TransportReads bf = Some bf'"
  shows "\<not> blocked bf'"
  using assms by (auto simp: buffered_step_def Let_def queue_ok_def blocked_def outstanding_def split: if_splits)

section \<open>Witnesses\<close>

lemma demo_session:
  obtains w1 sess where "open_channel demo_handler None 0 1 demo_metadata demo_world = (w1, Inr sess)"
    and "gs_running sess" and "gs_open sess" and "gs_last_inbound sess = 0" and "length (gs_out sess) = 1"
  by (simp add: open_channel_def on_metrics_def demo_auth_client demo_no_device io_defs)
    (simp add: demo_handler_def demo_service_def subscribe_client_def session_channels_def bob_def shipped_client_def
      redis_pubsub_ops_def redis_subscribe_def open_pubsub_def on_redis_def recording_client_def
      on_pubsub_def on_metrics_def io_defs)

lemma demo_late_tick:
  assumes "gs_running sess" and "gs_open sess" and "gs_last_inbound sess = 0" and "length (gs_out sess) = 1"
  shows "\<exists>bf. buffered_run demo_service shipped_keepalive [TransportReads, LoopTurn (Tick 41000000000), LoopEnds]
     (buffered_start sess w) = Some bf \<and> bf_done bf"
  using assms
  by (auto simp: buffered_step_def buffered_start_def Let_def blocked_def outstanding_def response_queue_capacity_def
      grpc_turn_def resp_send_def secs_def shipped_keepalive_def)

theorem response_queue_is_bounded_witness:
  "\<exists>(bf :: ((string \<times> bytes) list redis_pubsub, hash_server) buffered). bf_done bf \<and> outstanding bf \<le> 129"
proof -
  obtain w1 sess where "open_channel demo_handler None 0 1 demo_metadata demo_world = (w1, Inr sess)"
    and s: "gs_running sess" "gs_open sess" "gs_last_inbound sess = 0" "length (gs_out sess) = 1" by (rule demo_session)
  from demo_late_tick [OF s, of w1] obtain bf where b: "bf_done bf" "buffered_run demo_service shipped_keepalive
     [TransportReads, LoopTurn (Tick 41000000000), LoopEnds] (buffered_start sess w1) = Some bf" by blast
  from response_queue_is_bounded [OF _ b(2)] s(4) b(1) show ?thesis by auto
qed

theorem unread_events_suspend_keepalive_witness:
  "\<exists>w1 sess bf. open_channel demo_handler None 0 1 demo_metadata demo_world = (w1, Inr sess) \<and>
     gs_running (bf_session bf) \<and> length (gs_out (bf_session bf)) = 129 \<and>
     buffered_run demo_service shipped_keepalive [LoopTurn (Tick 41000000000)] bf = None"
proof -
  let ?es = "replicate 128 \<lparr>te_topic = ''a'', te_event = [1]\<rparr>"
  obtain w1 sess where o: "open_channel demo_handler None 0 1 demo_metadata demo_world = (w1, Inr sess)"
    and s: "gs_running sess" "gs_open sess" "length (gs_out sess) = 1" by (rule demo_session)
  from unread_events_suspend_keepalive [OF s, of ?es demo_service shipped_keepalive w1] obtain bf where
    b: "gs_running (bf_session bf)" "gs_out (bf_session bf) = gs_out sess @ map event_response ?es"
    and stuck: "\<And>acts bf'. buffered_run demo_service shipped_keepalive acts bf = Some bf' \<Longrightarrow>
      TransportReads \<notin> set acts \<Longrightarrow> TransportGone \<notin> set acts \<Longrightarrow> acts = []" by auto
  have "buffered_run demo_service shipped_keepalive [LoopTurn (Tick 41000000000)] bf = None"
    using stuck [of "[LoopTurn (Tick 41000000000)]"]
    by (cases "buffered_run demo_service shipped_keepalive [LoopTurn (Tick 41000000000)] bf") auto
  moreover have "length (gs_out (bf_session bf)) = 129" using b(2) s(3) by simp
  ultimately show ?thesis using o b(1) by blast
qed

end
