(* ===== verification/Spec2Isabelle.thy ===== *)
theory Spec2Isabelle
  imports Ledger Delivery Startup Propeller Arrival Auth_Tests Backpressure
begin

text \<open>
  This library models and verifies the two Rust programs of the payment-processing repository:
  the payment service \<open>approach-1\<close> (an HTTP API and a worker over PostgreSQL and Redis) and the
  realtime gateway \<open>approach-2\<close>, called Propeller (gRPC and WebSocket sessions over Redis
  Pub/Sub). The two share no code; the theories share \<open>Prelude\<close>.

  Conventions. A Rust record is a record, an enum a datatype, \<open>u64\<close> and \<open>usize\<close> are 64-bit
  words that wrap around as in a release build, a \<open>String\<close> is the list of its UTF-8 bytes. A
  function that returns a \<open>Result\<close> and touches shared state has the type \<open>('s, 'e, 'a) io\<close>: it
  returns the state that it leaves, also when it fails, and the sum of error and result. \<open>?\<close> is
  \<open>io_bind\<close>, a call on a part of the state is \<open>zoom\<close>. Log output is left out. Every
  definition is executable; the concrete runs of the witnesses are evaluated by the simplifier.
  Third-party code is a parameter: a record of functions (\<open>redis_client\<close>, \<open>redis_hashes\<close>,
  \<open>redis_pubsub_client\<close>, \<open>auth_lib\<close>, \<open>event_codec\<close>, \<open>platform\<close>), with the documented behaviour
  that a property needs as a named hypothesis (\<open>keys_ok\<close>, \<open>stream_ok\<close>, \<open>hashes_ok\<close>,
  \<open>records_publishes\<close>, \<open>redis_log\<close>) and an in-memory instance that meets it. Redis expires keys
  (\<open>keys_ok\<close> is about a clock and the life of each key), answers an idle \<open>XREAD\<close> with nothing, and
  what \<open>to_string\<close> makes of a value it returns is a parameter (\<open>rd_value_text\<close>), as is what
  PostgreSQL reads from a text that is cast to JSON (\<open>jsonb_cast\<close>).
\<close>

section \<open>The payment service\<close>

text \<open>
  \<open>Domain\<close> has the types and words of \<open>crates/domain/src/models.rs\<close>. \<open>Database\<close> has the
  tables of \<open>migrations/0001_init.sql\<close> with their constraints, statements and transactions: a
  schedule says of each database call whether it is answered, fails before or fails after it
  took effect, so that properties cover every way of failing. A statement is refused when a bound
  parameter has no assignment to the type of its column: PostgreSQL has none from text to
  \<open>JSONB\<close> unless a cast is declared, and the store keeps that fact of its server (\<open>st_cast\<close>). The
  migrations declare none, so no webhook is ever logged there; every property that depends on the
  cast says so.
  \<open>Repository\<close> has the queries of
  \<open>repository.rs\<close>; each keeps the constraints (\<open>tables_ok\<close>) and only ever advances the tables
  (\<open>evolves\<close>), which follows call by call from the locale \<open>effect_preorder\<close>. What the callers of the
  repository rely on is the locale \<open>repository_contract\<close>, interpreted on these queries; the lemmas on
  the worker, the handlers and the reconciliation are proved once inside it. \<open>Gateway\<close> is
  \<open>gateway.rs\<close>: the mock gateways and the router, with the router's lemmas proved in a locale
  over the trait. \<open>Redis\<close>, \<open>Idempotency\<close> and \<open>Webhook_Queue\<close> are \<open>idempotency.rs\<close>,
  \<open>queue.rs\<close> and \<open>realtime.rs\<close>; the idempotency store has its contract as a locale and is
  interpreted on the Redis implementation.

  \<open>Idempotency\<close> shows that of the marks of a key within its hour one goes ahead, that a mark after
  the hour goes ahead again, and that an interrupted one blocks its key for good.

  \<open>Worker\<close> is the webhook loop of \<open>apps/worker/src/main.rs\<close>: what handling an event does on
  every branch, that a new event is refused by a server without the cast, and that a failed event is
  skipped when it is delivered again within the hour. \<open>Reconcile\<close> is its reconciliation pass. \<open>Api\<close> has the handlers of
  \<open>apps/api/src/main.rs\<close>. \<open>Service\<close> puts them together: one step is one call of a handler or
  of the worker, in any order, and the invariants hold in every reachable state.
  \<open>Settlement\<close> is the service on the database of the migrations: an initiated payment is paid by
  the pass of the reconciliation that reaches it, an order is paid exactly when one of its payments
  is, and each settlement is that of a paid payment. \<open>Ledger\<close> is the abstract specification, a
  ledger of placed orders, started payments and settlements: every interleaving of the single
  database calls of concurrent handlers is a run of it, on any server; on the database of the
  migrations every run of the service is a run of the strict ledger, where a settlement makes a
  payment and its own order paid in one stroke and nothing else changes a status.
  \<open>Delivery\<close> follows the webhook queue over the turns of the worker: the entries of the stream are
  handled in order and at most once each, and while reads are answered each turn takes the next 50.
  \<open>Startup\<close> has the two \<open>main\<close> functions up to serving, and that both processes agree on
  the queue, the channel and the tables.
\<close>

section \<open>The realtime gateway\<close>

text \<open>
  \<open>Propeller_Error\<close>, \<open>Config\<close> and \<open>Metrics\<close> are \<open>error.rs\<close>, \<open>config.rs\<close> and \<open>metrics.rs\<close>.
  \<open>Auth\<close> is \<open>auth/mod.rs\<close>: the HMAC is shown to be the one of RFC 2104, an accepted token to be
  signed and valid, an issued token to be accepted, the legacy identity to be confined to its
  tenant, and channel names to be separate for ids without colons. \<open>Auth_Tests\<close> has the module's
  unit tests, which hold for every codec that returns what was written.

  \<open>Kv\<close> is \<open>kv/\<close> and \<open>Pubsub\<close> is \<open>broker/\<close>. Each trait is a record of operations with its
  contract as a locale (\<open>key_value\<close>, \<open>pubsub\<close>), interpreted on the Redis implementation. The
  listener tasks that \<open>RedisPubSub\<close> spawns are the transition system \<open>pubsub_step\<close>; its
  invariant \<open>pubsub_inv\<close> ties tasks, entries and the gauge of listeners together. \<open>Push\<close> is
  \<open>push/\<close>, written over both traits; its lemmas stand in the locale \<open>push_contract\<close>, which
  extends both contracts, and reach the wired service by its interpretation \<open>redis_push\<close>.

  \<open>Grpc\<close> and \<open>Ws\<close> are \<open>server/\<close>. A session is a loop over a list of inputs (frames, events,
  ticks, disconnects) in any order, as \<open>select!\<close> does not fix one; it ends with the list or with
  the loop, so no fuel is needed. Shown are what an ended session gives back, when exactly the
  keepalive ends it, and that publishers stay in their tenant. \<open>Answers\<close> adds that each request is
  answered once and in order, and that a silent channel is closed whatever is delivered to it. The
  response queue has no bound in these two; \<open>Backpressure\<close> has the loop with its queue of 128, which
  is the same loop on the inputs that it takes, and stands still when its client does not read.

  \<open>Sessions\<close> is the gateway as a whole: the transition system \<open>gateway_step\<close> interleaves the turns
  of any number of sessions, the calls of publishers and the moves of the listeners on one broker. It
  refines the abstract \<open>hub\<close>, whose invariants are tenant isolation, the exact count of
  connections, and that no listener outlives its session but for two recorded leaks. \<open>Fanout\<close> puts
  Redis between a publish and the listeners: a connection is sent what was published on its
  channels after it subscribed (\<open>fo_joined\<close>) and has read a part of it (\<open>fo_read\<close>). \<open>Arrival\<close>
  concludes that a session receives the messages of its client exactly once and in order, that a
  published message reaches every open session, and that a topic joined twice can arrive
  twice. \<open>Propeller\<close> is \<open>main.rs\<close>: the start-up sequence, the wiring, which meets the hypothesis
  \<open>wired\<close> of the theories before it, and the metrics endpoint.
\<close>

section \<open>What is not modelled\<close>

text \<open>
  Logging and tracing (\<open>crates/observability\<close>), listening on sockets, the environment and the
  shutdown signal; the code that \<open>build.rs\<close> generates from the protocol; the locks that \<open>DashMap\<close> takes while an entry is borrowed,
  with the blocking they can cause (each operation of the broker is one step, and so is each turn of
  a session); the cancellation of a gRPC call that opens a channel while it waits; and the bound of the broadcast channel that feeds the WebSocket clients of the payment
  API, with the messages that a slow one loses.

  Planned next: the broadcast channel with its bound and its lagging receivers; the handlers of the
  payment API as threads that interleave between their calls of Redis as well, not of the database
  only; and the lock of an entry held over the connect of \<open>add_subscription\<close>.
\<close>

end
